(* ===== verification/Water_Prelude.thy ===== *)
theory Water_Prelude
  imports Main "HOL-Library.Word"
begin

text \<open>
  Shared vocabulary of the development: the machine integers of the target (a 64-bit
  little-endian machine, the one the sources' \<open>usize\<close> arithmetic is written for), the ways an
  operation of the library can fail, the shape of a fallible operation on a state, the mutex
  of the standard library with its poison flag, a byte buffer with uninitialised cells, and the
  generic lemmas on lists and words that the components share.

  Arithmetic on \<open>usize\<close>, \<open>u64\<close>, \<open>i64\<close> and \<open>i32\<close> wraps around, as it did in the compilers
  this crate was written for (January 2015, before overflow checks existed).
\<close>

section \<open>Machine integers\<close>

type_synonym u8 = "8 word"
type_synonym u16 = "16 word"
type_synonym u32 = "32 word"
type_synonym u64 = "64 word"
type_synonym usize = "64 word"

section \<open>Failures\<close>

text \<open>
  Every way an operation can fail to return. All but two are panics: \<open>SelfDeadlock\<close> is a thread
  that waits for a lock it holds itself, and \<open>MemoryUnsafe\<close> is an access outside an allocation in
  an \<open>unsafe\<close> block: undefined behaviour, after which nothing is claimed.
\<close>

datatype failure =
    LockPoisoned
  | LenExceedsCap
  | WritePastEnd
  | ReadPastEnd
  | IndexOutOfRange
  | BadKey
  | CloneOfSync
  | NotDuplicable
  | NotRaw
  | NotClone
  | NotSync
  | NotTyped
  | WrongType
  | NotOk
  | NotErr
  | DuplicateEndpoint
  | SelfDeadlock
  | StreamError
  | CapacityOverflow
  | BadMessageType
  | Disconnected
  | RecvIoError
  | MemoryUnsafe

text \<open>A fallible operation on a state: it may have changed the state when it fails.\<close>

type_synonym ('s, 'a) oper = "'s \<Rightarrow> (failure + 'a) \<times> 's"

definition bindO :: "('s, 'a) oper \<Rightarrow> ('a \<Rightarrow> ('s, 'b) oper) \<Rightarrow> ('s, 'b) oper" where
  "bindO m k s = (case m s of (Inl f, t) \<Rightarrow> (Inl f, t) | (Inr x, t) \<Rightarrow> k x t)"

definition retO :: "'a \<Rightarrow> ('s, 'a) oper" where
  "retO x s = (Inr x, s)"

definition failO :: "failure \<Rightarrow> ('s, 'a) oper" where
  "failO f s = (Inl f, s)"

lemma bindO_Inl [simp]: "m s = (Inl f, t) \<Longrightarrow> bindO m k s = (Inl f, t)"
  by (simp add: bindO_def)

lemma bindO_Inr [simp]: "m s = (Inr x, t) \<Longrightarrow> bindO m k s = k x t"
  by (simp add: bindO_def)

lemma retO_apply [simp]: "retO x s = (Inr x, s)"
  by (simp add: retO_def)

lemma failO_apply [simp]: "failO f s = (Inl f, s)"
  by (simp add: failO_def)

lemma bindO_InrE:
  assumes "bindO m k s = (Inr y, u)"
  obtains x t where "m s = (Inr x, t)" and "k x t = (Inr y, u)"
  using assms by (auto simp: bindO_def split: prod.splits sum.splits)

text \<open>The outcome is not an access outside an allocation.\<close>

definition no_ub :: "failure + 'a \<Rightarrow> bool" where
  "no_ub r \<longleftrightarrow> r \<noteq> Inl MemoryUnsafe"

lemma no_ub_simps [simp]: "no_ub (Inr x)" "no_ub (Inl f) \<longleftrightarrow> f \<noteq> MemoryUnsafe"
  by (simp_all add: no_ub_def)

lemma no_ub_bindO:
  assumes "no_ub (fst (m s))" and "\<And>x t. m s = (Inr x, t) \<Longrightarrow> no_ub (fst (k x t))"
  shows "no_ub (fst (bindO m k s))"
  using assms by (auto simp: bindO_def split: prod.splits sum.splits)

text \<open>An operation keeps an invariant whatever its outcome.\<close>

definition keeps :: "('s \<Rightarrow> bool) \<Rightarrow> ('s, 'a) oper \<Rightarrow> bool" where
  "keeps P m \<longleftrightarrow> (\<forall>s. P s \<longrightarrow> P (snd (m s)))"

lemma keepsI [intro]: "(\<And>s. P s \<Longrightarrow> P (snd (m s))) \<Longrightarrow> keeps P m"
  by (simp add: keeps_def)

lemma keepsD: "keeps P m \<Longrightarrow> P s \<Longrightarrow> m s = (r, t) \<Longrightarrow> P t"
  by (metis keeps_def snd_conv)

lemma keeps_bindO [intro]:
  assumes "keeps P m" and "\<And>x. keeps P (k x)"
  shows "keeps P (bindO m k)"
  using assms by (auto simp: keeps_def bindO_def split: prod.splits sum.splits)

section \<open>Mutexes\<close>

text \<open>
  A mutex of the standard library: the value it guards and the poison flag, set when a thread
  panics while it holds the lock. Every \<open>lock()\<close> of the sources is followed by \<open>unwrap()\<close>, which
  panics on a poisoned mutex.
\<close>

record 'a mutex =
  guarded :: 'a
  poisoned :: bool

definition mutex_new :: "'a \<Rightarrow> 'a mutex" where
  "mutex_new x = \<lparr>guarded = x, poisoned = False\<rparr>"

definition is_failed :: "failure + 'a \<Rightarrow> bool" where
  "is_failed r = (case r of Inl _ \<Rightarrow> True | Inr _ \<Rightarrow> False)"

lemma is_failed_simps [simp]: "is_failed (Inl f)" "\<not> is_failed (Inr x)"
  by (simp_all add: is_failed_def)

text \<open>Run an operation under the lock: \<open>m.lock().unwrap().f()\<close>.\<close>

definition with_lock :: "('a, 'b) oper \<Rightarrow> ('a mutex, 'b) oper" where
  "with_lock f m =
     (if poisoned m then (Inl LockPoisoned, m)
      else case f (guarded m) of (r, x) \<Rightarrow> (r, \<lparr>guarded = x, poisoned = is_failed r\<rparr>))"

lemma mutex_new_simps [simp]:
  "guarded (mutex_new x) = x" "\<not> poisoned (mutex_new x)"
  by (simp_all add: mutex_new_def)

lemma with_lock_poisoned [simp]: "poisoned m \<Longrightarrow> with_lock f m = (Inl LockPoisoned, m)"
  by (simp add: with_lock_def)

lemma with_lock_free:
  "\<not> poisoned m \<Longrightarrow> f (guarded m) = (r, x) \<Longrightarrow>
     with_lock f m = (r, \<lparr>guarded = x, poisoned = is_failed r\<rparr>)"
  by (simp add: with_lock_def)

lemma no_ub_with_lock: "no_ub (fst (f (guarded m))) \<Longrightarrow> no_ub (fst (with_lock f m))"
  by (auto simp: with_lock_def split: prod.splits)

text \<open>A panic under the lock poisons it, and every later operation on it panics as well.\<close>

lemma with_lock_failed:
  assumes "with_lock f m = (Inl e, m')"
  shows "with_lock g m' = (Inl LockPoisoned, m')"
  using assms by (auto simp: with_lock_def split: if_splits prod.splits)

section \<open>Byte buffers\<close>

text \<open>A byte of an allocation: \<open>None\<close> until something is written to it.\<close>

type_synonym cell = "u8 option"

text \<open>\<open>allocate(n, align)\<close>: \<open>n\<close> uninitialised bytes.\<close>

definition allocate :: "usize \<Rightarrow> cell list" where
  "allocate n = replicate (unat n) None"

text \<open>
  \<open>copy_memory(dst + doff, src + soff, n)\<close>, in bytes. \<open>None\<close> when either range leaves its
  allocation.
\<close>

definition copy_memory :: "cell list \<Rightarrow> nat \<Rightarrow> cell list \<Rightarrow> nat \<Rightarrow> nat \<Rightarrow> cell list option" where
  "copy_memory dst doff src soff n =
     (if soff + n \<le> length src \<and> doff + n \<le> length dst
      then Some (take doff dst @ take n (drop soff src) @ drop (doff + n) dst)
      else None)"

lemma length_allocate [simp]: "length (allocate n) = unat n"
  by (simp add: allocate_def)

lemma copy_memory_length:
  "copy_memory dst doff src soff n = Some r \<Longrightarrow> length r = length dst"
  by (auto simp: copy_memory_def split: if_splits)

lemma copy_memory_all [simp]:
  "length src = n \<Longrightarrow> length dst = n \<Longrightarrow> copy_memory dst 0 src 0 n = Some src"
  by (simp add: copy_memory_def)

lemma copy_memory_in:
  "soff + n \<le> length src \<Longrightarrow> doff + n \<le> length dst \<Longrightarrow>
     copy_memory dst doff src soff n =
       Some (take doff dst @ take n (drop soff src) @ drop (doff + n) dst)"
  by (simp add: copy_memory_def)

text \<open>The bytes \<open>[off, off + n)\<close> of a buffer.\<close>

definition window :: "nat \<Rightarrow> nat \<Rightarrow> 'a list \<Rightarrow> 'a list" where
  "window off n xs = take n (drop off xs)"

text \<open>Overwriting a range of a buffer.\<close>

definition overwrite :: "nat \<Rightarrow> 'a list \<Rightarrow> 'a list \<Rightarrow> 'a list" where
  "overwrite off ys xs = take off xs @ ys @ drop (off + length ys) xs"

lemma length_window [simp]: "off + n \<le> length xs \<Longrightarrow> length (window off n xs) = n"
  by (simp add: window_def)

lemma length_overwrite [simp]: "off + length ys \<le> length xs \<Longrightarrow> length (overwrite off ys xs) = length xs"
  by (simp add: overwrite_def)

lemma window_overwrite_same:
  "off + length ys \<le> length xs \<Longrightarrow> window off (length ys) (overwrite off ys xs) = ys"
  by (simp add: window_def overwrite_def)

lemma nth_overwrite:
  "off + length ys \<le> length xs \<Longrightarrow> k < length xs \<Longrightarrow>
     overwrite off ys xs ! k = (if off \<le> k \<and> k < off + length ys then ys ! (k - off) else xs ! k)"
  by (auto simp: overwrite_def nth_append min_def)

lemma nth_window: "off + n \<le> length xs \<Longrightarrow> k < n \<Longrightarrow> window off n xs ! k = xs ! (off + k)"
  by (simp add: window_def)

lemma window_overwrite_disjoint:
  assumes "off + length ys \<le> length xs" and "off' + n \<le> length xs"
    and "off' + n \<le> off \<or> off + length ys \<le> off'"
  shows "window off' n (overwrite off ys xs) = window off' n xs"
proof (rule nth_equalityI)
  show "length (window off' n (overwrite off ys xs)) = length (window off' n xs)"
    using assms by simp
next
  fix k
  assume "k < length (window off' n (overwrite off ys xs))"
  with assms have "k < n" by simp
  with assms show "window off' n (overwrite off ys xs) ! k = window off' n xs ! k"
    by (auto simp: nth_window nth_overwrite)
qed

lemma copy_memory_overwrite:
  "doff + length src \<le> length dst \<Longrightarrow>
     copy_memory dst doff src 0 (length src) = Some (overwrite doff src dst)"
  by (simp add: copy_memory_def overwrite_def)

lemma copy_memory_window:
  "soff + n \<le> length src \<Longrightarrow> length dst = n \<Longrightarrow>
     copy_memory dst 0 src soff n = Some (window soff n src)"
  by (simp add: copy_memory_def window_def)

lemma overwrite_Nil [simp]: "overwrite off [] xs = xs"
  by (simp add: overwrite_def)

lemma overwrite_Cons:
  assumes "off + length (y # ys) \<le> length xs"
  shows "overwrite off (y # ys) xs = overwrite (Suc off) ys (xs[off := y])"
proof (rule nth_equalityI)
  show "length (overwrite off (y # ys) xs) = length (overwrite (Suc off) ys (xs[off := y]))"
    using assms by simp
next
  fix k
  assume "k < length (overwrite off (y # ys) xs)"
  with assms have k: "k < length xs" by simp
  show "overwrite off (y # ys) xs ! k = overwrite (Suc off) ys (xs[off := y]) ! k"
    using assms k by (cases "k = off") (auto simp: nth_overwrite nth_Cons' Suc_diff_Suc)
qed

section \<open>Sums over lists\<close>

text \<open>An invariant that adds something up over the threads, or over the slots, when one of them changes.\<close>

lemma sum_list_update1:
  "k < length xs \<Longrightarrow> sum_list (map f (xs[k := y])) + f (xs ! k) = sum_list (map f xs) + (f y :: 'b :: comm_monoid_add)"
proof (induction xs arbitrary: k)
  case (Cons x xs)
  then show ?case by (cases k) (simp_all add: ac_simps)
qed simp

section \<open>Step systems\<close>

text \<open>
  Several components are deterministic machines: a state and a function for each operation. What
  every operation keeps, a run of any operations keeps.
\<close>

locale step_system =
  fixes step :: "'s \<Rightarrow> 'e \<Rightarrow> 's"
    and good :: "'s \<Rightarrow> bool"
  assumes step_good: "good s \<Longrightarrow> good (step s e)"
begin

lemma run_good: "good s \<Longrightarrow> good (foldl step s es)"
  by (induction es arbitrary: s) (auto intro: step_good)

end

section \<open>Words\<close>

lemma unat_add_no_wrap: "unat (a :: usize) + unat b < 2 ^ 64 \<Longrightarrow> unat (a + b) = unat a + unat b"
  by (simp add: unat_word_ariths)

lemma usize_bound: "unat (w :: usize) < 2 ^ 64"
  using unsigned_less [of w] by simp

lemma unat_of_nat_usize: "n < 2 ^ 64 \<Longrightarrow> unat (of_nat n :: usize) = n"
  by (simp add: unat_of_nat)

end
