(* ===== verification/Byte_Codec.thy ===== *)
theory Byte_Codec
  imports Water_Prelude
begin

text \<open>
  Byte representations of the fixed-width integers that the library writes into buffers and
  streams: native (little-endian) order for \<open>writeu8\<close> to \<open>readi32\<close> of \<open>rawmessage.rs\<close>, and the
  big-endian order of \<open>write_be_u64\<close> and \<open>read_be_u64\<close> of the standard library's streams, which
  the TCP bridge frames its messages with. A codec is an interface (locale \<open>byte_codec\<close>): what it
  promises is a width and a round trip.
\<close>

unbundle bit_operations_syntax

section \<open>Bytes of a word\<close>

fun le_bytes :: "nat \<Rightarrow> 'a::len word \<Rightarrow> u8 list" where
  "le_bytes 0 w = []"
| "le_bytes (Suc n) w = ucast w # le_bytes n (drop_bit 8 w)"

fun le_word :: "u8 list \<Rightarrow> 'a::len word" where
  "le_word [] = 0"
| "le_word (b # bs) = ucast b OR push_bit 8 (le_word bs)"

definition be_bytes :: "nat \<Rightarrow> 'a::len word \<Rightarrow> u8 list" where
  "be_bytes n w = rev (le_bytes n w)"

definition be_word :: "u8 list \<Rightarrow> 'a::len word" where
  "be_word bs = le_word (rev bs)"

lemma length_le_bytes [simp]: "length (le_bytes n w) = n"
  by (induction n w rule: le_bytes.induct) auto

lemma length_be_bytes [simp]: "length (be_bytes n w) = n"
  by (simp add: be_bytes_def)

text \<open>Decoding the first \<open>n\<close> bytes of a word gives the word cut to \<open>8 n\<close> bits.\<close>

lemma le_word_le_bytes_take: "le_word (le_bytes n w) = take_bit (8 * n) w"
proof (induction n arbitrary: w)
  case 0
  then show ?case by simp
next
  case (Suc n)
  show ?case
    by (rule bit_word_eqI)
      (auto simp: Suc bit_or_iff bit_push_bit_iff bit_take_bit_iff bit_drop_bit_eq bit_ucast_iff
        not_less dest: bit_imp_le_length)
qed

lemma le_word_le_bytes:
  "LENGTH('a::len) \<le> 8 * n \<Longrightarrow> le_word (le_bytes n (w :: 'a word)) = w"
  by (simp add: le_word_le_bytes_take take_bit_word_eq_self)

lemma be_word_be_bytes:
  "LENGTH('a::len) \<le> 8 * n \<Longrightarrow> be_word (be_bytes n (w :: 'a word)) = w"
  by (simp add: be_word_def be_bytes_def le_word_le_bytes)

text \<open>Encoding the word that bytes decode to gives the bytes back.\<close>

lemma le_bytes_cong:
  fixes v w :: "'a::len word"
  shows "(\<And>i. i < 8 * n \<Longrightarrow> bit v i \<longleftrightarrow> bit w i) \<Longrightarrow> le_bytes n v = le_bytes n w"
proof (induction n arbitrary: v w)
  case (Suc n)
  have "(ucast v :: u8) = ucast w"
    by (rule bit_word_eqI) (use Suc.prems in \<open>simp add: bit_ucast_iff\<close>)
  moreover have "le_bytes n (drop_bit 8 v) = le_bytes n (drop_bit 8 w)"
    by (rule Suc.IH) (use Suc.prems in \<open>simp add: bit_drop_bit_eq\<close>)
  ultimately show ?case by simp
qed simp

lemma le_bytes_le_word:
  "8 * length bs \<le> LENGTH('a::len) \<Longrightarrow> le_bytes (length bs) (le_word bs :: 'a word) = bs"
proof (induction bs)
  case (Cons b bs)
  let ?w = "le_word bs :: 'a word"
  have "ucast (ucast b OR push_bit 8 ?w) = b"
    using Cons.prems by (intro bit_word_eqI) (auto simp: bit_ucast_iff bit_or_iff bit_push_bit_iff)
  moreover have "le_bytes (length bs) (drop_bit 8 (ucast b OR push_bit 8 ?w)) = le_bytes (length bs) ?w"
    using Cons.prems
    by (intro le_bytes_cong) (auto simp: bit_drop_bit_eq bit_ucast_iff bit_or_iff bit_push_bit_iff dest: bit_imp_le_length)
  ultimately show ?case using Cons by simp
qed simp

lemma be_bytes_be_word:
  "8 * length bs \<le> LENGTH('a::len) \<Longrightarrow> be_bytes (length bs) (be_word bs :: 'a word) = bs"
  using le_bytes_le_word [of "rev bs", where ?'a = 'a] by (simp add: be_bytes_def be_word_def)

text \<open>A stream that is long enough begins with an encoded word.\<close>

lemma be_front:
  assumes "n \<le> length s" and "8 * n \<le> LENGTH('a::len)"
  obtains w :: "'a::len word" and rest where "s = be_bytes n w @ rest" and "length rest = length s - n"
proof
  show "s = be_bytes n (be_word (take n s) :: 'a word) @ drop n s"
    using be_bytes_be_word [of "take n s", where ?'a = 'a] assms by simp
qed simp

text \<open>The value in a range of initialised cells; \<open>None\<close> when a byte was never written.\<close>

definition decode_cells :: "(u8 list \<Rightarrow> 'v) \<Rightarrow> cell list \<Rightarrow> 'v option" where
  "decode_cells dec cs = (if None \<in> set cs then None else Some (dec (map the cs)))"

section \<open>The codec interface\<close>

locale byte_codec =
  fixes enc :: "'v \<Rightarrow> u8 list"
    and dec :: "u8 list \<Rightarrow> 'v"
    and width :: nat
  assumes enc_width: "length (enc v) = width"
    and dec_enc: "dec (enc v) = v"
begin

lemma decode_cells_enc: "decode_cells dec (map Some (enc v)) = Some v"
  by (auto simp: decode_cells_def dec_enc)

lemma decode_cells_overwrite:
  "off + width \<le> length xs \<Longrightarrow>
     decode_cells dec (window off width (overwrite off (map Some (enc v)) xs)) = Some v"
  using window_overwrite_same [of off "map Some (enc v)" xs]
  by (simp add: enc_width decode_cells_enc)

lemma enc_inj: "enc v = enc w \<Longrightarrow> v = w"
  by (metis dec_enc)

text \<open>An encoded value in front of any stream is read back, and the rest is left.\<close>

lemma parse_front:
  "dec (take width (enc v @ rest)) = v" "drop width (enc v @ rest) = rest"
  using enc_width [of v] by (simp_all add: dec_enc)

end

interpretation c8: byte_codec "le_bytes 1 :: u8 \<Rightarrow> u8 list" le_word 1
  by unfold_locales (simp_all add: le_word_le_bytes)

interpretation c16: byte_codec "le_bytes 2 :: u16 \<Rightarrow> u8 list" le_word 2
  by unfold_locales (simp_all add: le_word_le_bytes)

interpretation c32: byte_codec "le_bytes 4 :: u32 \<Rightarrow> u8 list" le_word 4
  by unfold_locales (simp_all add: le_word_le_bytes)

interpretation b64: byte_codec "be_bytes 8 :: u64 \<Rightarrow> u8 list" be_word 8
  by unfold_locales (simp_all add: be_word_be_bytes)

end
