(* ===== verification/Timespec.thy ===== *)
theory Timespec
  imports Water_Prelude "HOL-Library.Signed_Division"
begin

text \<open>
  \<open>src/timespec.rs\<close>: addition, subtraction and normalisation of a pair of seconds (\<open>i64\<close>) and
  nanoseconds (\<open>i32\<close>). The type itself is the \<open>time\<close> crate's; it is compared
  lexicographically on the signed fields, which makes it a linear order here.
\<close>

section \<open>The type and its order\<close>

datatype timespec = Timespec (sec: "64 word") (nsec: "32 word")

lemma sint_eq_iff: "sint a = sint b \<longleftrightarrow> a = b"
  by (auto intro: signed_word_eqI)

instantiation timespec :: linorder
begin

definition less_timespec :: "timespec \<Rightarrow> timespec \<Rightarrow> bool" where
  "less_timespec a b \<longleftrightarrow>
     sint (sec a) < sint (sec b) \<or> sec a = sec b \<and> sint (nsec a) < sint (nsec b)"

definition less_eq_timespec :: "timespec \<Rightarrow> timespec \<Rightarrow> bool" where
  "less_eq_timespec a b \<longleftrightarrow>
     sint (sec a) < sint (sec b) \<or> sec a = sec b \<and> sint (nsec a) \<le> sint (nsec b)"

instance
  by standard
    (auto simp: less_eq_timespec_def less_timespec_def sint_eq_iff timespec.expand
      dest!: antisym [of "sint (nsec _)"] simp: neq_iff [of "sec _"] intro: timespec.expand)

end

text \<open>The time a \<open>Timespec\<close> stands for, in nanoseconds.\<close>

definition nanos :: "timespec \<Rightarrow> int" where
  "nanos t = sint (sec t) * 1000000000 + sint (nsec t)"

section \<open>The operations\<close>

definition NSINSEC :: "64 word" where
  "NSINSEC = 1000000000"

text \<open>Division of \<open>i64\<close> values truncates towards zero.\<close>

definition i64_div :: "64 word \<Rightarrow> 64 word \<Rightarrow> 64 word" where
  "i64_div a b = word_of_int (sint a sdiv sint b)"

definition unitize :: "timespec \<Rightarrow> timespec" where
  "unitize t =
     (let a1 = (if sint (nsec t) > sint (ucast NSINSEC :: 32 word)
                then let sectoadd = i64_div (scast (nsec t)) NSINSEC
                     in Timespec (sec t + sectoadd) (nsec t - ucast (sectoadd * NSINSEC))
                else t)
      in if sint (nsec a1) < 0
         then let sectotake = i64_div (scast (nsec a1)) (- NSINSEC);
                  a2 = Timespec (sec a1 - sectotake) (nsec a1 + ucast (sectotake * NSINSEC))
              in if sint (nsec a2) < 0
                 then Timespec (sec a2 - 1) (nsec a2 + ucast NSINSEC)
                 else a2
         else a1)"

definition add :: "timespec \<Rightarrow> timespec \<Rightarrow> timespec" where
  "add a b = unitize (Timespec (sec a + sec b) (nsec a - nsec b))"

definition sub :: "timespec \<Rightarrow> timespec \<Rightarrow> timespec" where
  "sub a b = unitize (Timespec (sec a - sec b) (nsec a - nsec b))"

section \<open>Normalisation on integers\<close>

lemma sint_small64: "- (2 ^ 63) \<le> k \<Longrightarrow> k < 2 ^ 63 \<Longrightarrow> sint (word_of_int k :: 64 word) = k"
  by (simp add: sint_sbintrunc' signed_take_bit_int_eq_self)

lemma sint_small32: "- (2 ^ 31) \<le> k \<Longrightarrow> k < 2 ^ 31 \<Longrightarrow> sint (word_of_int k :: 32 word) = k"
  by (simp add: sint_sbintrunc' signed_take_bit_int_eq_self)

lemma scast_word_of_int: "- (2 ^ 31) \<le> N \<Longrightarrow> N < 2 ^ 31 \<Longrightarrow>
    sint (scast (word_of_int N :: 32 word) :: 64 word) = N"
  by (simp add: signed_scast_eq sint_small32 signed_take_bit_int_eq_self)

lemma ucast_word_of_int: "ucast (word_of_int k :: 64 word) = (word_of_int k :: 32 word)"
  by (simp add: ucast_down_wi is_down)

lemma NSINSEC_simps [simp]:
  "sint NSINSEC = 1000000000"
  "sint (ucast NSINSEC :: 32 word) = 1000000000"
  "sint (- NSINSEC) = - 1000000000"
  by (simp_all add: NSINSEC_def)

lemma nsec_sub:
  assumes "N - q * 1000000000 = r"
  shows "word_of_int N - ucast (word_of_int q * NSINSEC) = (word_of_int r :: 32 word)"
proof -
  have "ucast (word_of_int q * NSINSEC) = (word_of_int (q * 1000000000) :: 32 word)"
    using ucast_word_of_int [of "q * 1000000000"] by (simp add: NSINSEC_def)
  with assms show ?thesis by (metis wi_hom_sub)
qed

lemma nsec_add:
  assumes "N + q * 1000000000 = r"
  shows "word_of_int N + ucast (word_of_int q * NSINSEC) = (word_of_int r :: 32 word)"
proof -
  have "ucast (word_of_int q * NSINSEC) = (word_of_int (q * 1000000000) :: 32 word)"
    using ucast_word_of_int [of "q * 1000000000"] by (simp add: NSINSEC_def)
  with assms show ?thesis by (metis wi_hom_add)
qed

lemma nsec_add_one: "word_of_int N + ucast NSINSEC = (word_of_int (N + 1000000000) :: 32 word)"
  by (simp add: NSINSEC_def)

lemma sdiv_pos: "0 \<le> (k :: int) \<Longrightarrow> k sdiv 1000000000 = k div 1000000000"
  by (cases "k = 0") (simp_all add: signed_divide_int_def)

lemma sdiv_neg: "(k :: int) < 0 \<Longrightarrow> k sdiv - 1000000000 = (- k) div 1000000000"
  by (simp add: signed_divide_int_def)

lemma neg_div_mod:
  assumes "(k :: int) < 0"
  shows "(- k) mod 1000000000 = 0 \<Longrightarrow> k div 1000000000 = - ((- k) div 1000000000)"
    and "(- k) mod 1000000000 \<noteq> 0 \<Longrightarrow> k div 1000000000 = - ((- k) div 1000000000) - 1"
  using zdiv_zminus1_eq_if [of 1000000000 "- k"] by auto

text \<open>What the code computes, for the seconds \<open>s\<close> and any \<open>i32\<close> value \<open>N\<close> of nanoseconds.\<close>

lemma unitize_high:
  assumes N: "1000000000 < N" "N < 2 ^ 31" and q: "q = N div 1000000000"
    and r: "r = N mod 1000000000"
  shows "unitize (Timespec s (word_of_int N)) = Timespec (s + word_of_int q) (word_of_int r)"
proof -
  have e: "N - q * 1000000000 = r"
    unfolding q r by (rule minus_div_mult_eq_mod)
  have b: "sint (word_of_int r :: 32 word) = r"
    unfolding r by (rule sint_small32) simp_all
  have d: "i64_div (scast (word_of_int N :: 32 word)) NSINSEC = word_of_int q"
    using N by (simp add: i64_div_def scast_word_of_int sdiv_pos q)
  have "0 \<le> r" unfolding r by simp
  then show ?thesis
    using N b by (simp add: unitize_def Let_def sint_small32 d nsec_sub [OF e])
qed

lemma unitize_low:
  assumes N: "- (2 ^ 31) \<le> N" "N < 0" and q: "q = N div 1000000000"
    and r: "r = N mod 1000000000"
  shows "unitize (Timespec s (word_of_int N)) = Timespec (s + word_of_int q) (word_of_int r)"
proof -
  define p where "p = (- N) div 1000000000"
  define t where "t = N + p * 1000000000"
  have t: "t = - ((- N) mod 1000000000)"
    unfolding t_def p_def using minus_div_mult_eq_mod [of "- N" 1000000000] by linarith
  have d: "i64_div (scast (word_of_int N :: 32 word)) (- NSINSEC) = word_of_int p"
    using scast_word_of_int [of N] N
    by (simp only: i64_div_def NSINSEC_simps sdiv_neg [OF N(2)] p_def)
  have "- 1000000000 < t" "t \<le> 0"
    unfolding t by simp_all
  then have b: "sint (word_of_int t :: 32 word) = t"
    by (intro sint_small32) auto
  have qr: "r = N - q * 1000000000"
    unfolding q r by (simp add: minus_div_mult_eq_mod)
  have u: "unitize (Timespec s (word_of_int N)) =
    (if t < 0 then Timespec (s - word_of_int p - 1) (word_of_int (t + 1000000000))
     else Timespec (s - word_of_int p) (word_of_int t))"
    using N b
    by (simp add: unitize_def Let_def sint_small32 d nsec_add [OF t_def [symmetric]]
        nsec_add_one)
  show ?thesis
  proof (cases "t = 0")
    case True
    then have "q = - p" "r = 0"
      using neg_div_mod(1) [OF N(2)] t qr by (simp_all add: q p_def t_def)
    with u True show ?thesis by simp
  next
    case False
    then have q': "q = - p - 1" and tn: "t < 0"
      using neg_div_mod(2) [OF N(2)] t \<open>t \<le> 0\<close> by (simp_all add: q p_def)
    then have "r = t + 1000000000" using qr by (simp add: t_def)
    moreover have "(word_of_int q :: 64 word) = - word_of_int p - 1" by (simp add: q')
    ultimately show ?thesis using u tn by simp
  qed
qed

lemma unitize_of_int:
  assumes "- (2 ^ 31) \<le> N" and "N < 2 ^ 31"
  shows "unitize (Timespec s (word_of_int N)) =
    (if N = 1000000000 then Timespec s (word_of_int N)
     else Timespec (s + word_of_int (N div 1000000000)) (word_of_int (N mod 1000000000)))"
proof -
  consider "1000000000 < N" | "0 \<le> N" "N \<le> 1000000000" | "N < 0" by linarith
  then show ?thesis
  proof cases
    case 2
    then show ?thesis
      using assms by (cases "N = 1000000000") (auto simp: unitize_def Let_def sint_small32)
  qed (use assms unitize_high [OF _ _ refl refl] unitize_low [OF _ _ refl refl] in auto)
qed

text \<open>The same for any \<open>Timespec\<close>.\<close>

lemma nsec_range: "- (2 ^ 31) \<le> sint (nsec t)" "sint (nsec t) < 2 ^ 31"
  using sint_ge [of "nsec t"] sint_lt [of "nsec t"] by simp_all

lemma unitize_eq:
  "unitize t =
    (if sint (nsec t) = 1000000000 then t
     else Timespec (sec t + word_of_int (sint (nsec t) div 1000000000))
       (word_of_int (sint (nsec t) mod 1000000000)))"
proof -
  define N where "N = sint (nsec t)"
  have t: "Timespec (sec t) (word_of_int N) = t" by (simp add: N_def)
  have "- (2 ^ 31) \<le> N" "N < 2 ^ 31" unfolding N_def by (rule nsec_range)+
  from unitize_of_int [OF this, of "sec t"] show ?thesis by (simp only: t flip: N_def)
qed

lemma sint_nsec_unitize:
  "sint (nsec (unitize t)) =
    (if sint (nsec t) = 1000000000 then 1000000000 else sint (nsec t) mod 1000000000)"
  by (auto simp: unitize_eq intro!: sint_small32)

lemma sint_sec_add:
  assumes "- (2 ^ 63) \<le> sint s + d" and "sint s + d < 2 ^ 63"
  shows "sint (s + word_of_int d :: 64 word) = sint s + d"
proof -
  have "s + word_of_int d = word_of_int (sint s + d)" by simp
  then show ?thesis using sint_small64 [OF assms] by metis
qed

lemma div_range_i32:
  assumes "- 2147483648 \<le> N" and "N < 2147483648"
  shows "- 3 \<le> N div 1000000000 \<and> N div 1000000000 \<le> (2 :: int)"
  using zdiv_mono1 [of "- 3000000000" N 1000000000] zdiv_mono1 [of N 2147483648 1000000000] assms
  by simp

lemma nsec_div_range: "- 3 \<le> sint (nsec t) div 1000000000 \<and> sint (nsec t) div 1000000000 \<le> 2"
  using nsec_range [of t] by (intro div_range_i32) simp_all

section \<open>What the operations compute\<close>

definition normal :: "timespec \<Rightarrow> bool" where
  "normal t \<longleftrightarrow> 0 \<le> sint (nsec t) \<and> sint (nsec t) < 1000000000"

definition sec_far :: "int \<Rightarrow> bool" where
  "sec_far s \<longleftrightarrow> - (2 ^ 63) + 3 \<le> s \<and> s < 2 ^ 63 - 3"

text \<open>
  Normalisation never changes the time, for any \<open>i32\<close> value of nanoseconds and seconds
  three away from the ends of \<open>i64\<close>.
\<close>

lemma unitize_keeps_time:
  assumes "sec_far (sint (sec t))"
  shows "nanos (unitize t) = nanos t"
proof (cases "sint (nsec t) = 1000000000")
  case True
  then show ?thesis by (simp add: unitize_eq)
next
  case False
  let ?q = "sint (nsec t) div 1000000000"
  have "sint (sec t + word_of_int ?q) = sint (sec t) + ?q"
    using assms nsec_div_range [of t] by (intro sint_sec_add) (auto simp: sec_far_def)
  with False have "sint (sec (unitize t)) = sint (sec t) + ?q"
    by (simp add: unitize_eq)
  moreover from False have "sint (nsec (unitize t)) = sint (nsec t) mod 1000000000"
    by (simp add: sint_nsec_unitize)
  ultimately show ?thesis
    using div_mult_mod_eq [of "sint (nsec t)" 1000000000]
    by (simp add: nanos_def algebra_simps)
qed

text \<open>
  After normalisation the nanoseconds are never negative, and they are below one second
  exactly when they did not start at exactly one second: the code tests \<open>>\<close> where its comment
  ("will not be equal or greater than one second") needs \<open>\<ge>\<close>.
\<close>

lemma unitize_range:
  "0 \<le> sint (nsec (unitize t)) \<and>
   (sint (nsec (unitize t)) < 1000000000 \<longleftrightarrow> sint (nsec t) \<noteq> 1000000000)"
  by (simp add: sint_nsec_unitize)

lemma sint_nsec_diff:
  assumes "normal a" and "normal b"
  shows "sint (nsec a - nsec b) = sint (nsec a) - sint (nsec b)"
proof -
  have "nsec a - nsec b = word_of_int (sint (nsec a) - sint (nsec b))" by simp
  moreover have "sint (word_of_int (sint (nsec a) - sint (nsec b)) :: 32 word)
      = sint (nsec a) - sint (nsec b)"
    using assms by (intro sint_small32) (auto simp: normal_def)
  ultimately show ?thesis by metis
qed

lemma sint_sec_arith:
  "sec_far (sint a - sint b) \<Longrightarrow> sint (a - b :: 64 word) = sint a - sint b"
  "sec_far (sint a + sint b) \<Longrightarrow> sint (a + b :: 64 word) = sint a + sint b"
  using sint_sec_add [of a "- sint b"] sint_sec_add [of a "sint b"] by (auto simp: sec_far_def)

text \<open>
  C39. \<open>sub\<close> on normalised operands is exact and normalised: it computes \<open>a - b\<close> to the
  nanosecond.
\<close>

theorem sub_exact:
  assumes "normal a" and "normal b" and "sec_far (sint (sec a) - sint (sec b))"
  shows "nanos (sub a b) = nanos a - nanos b \<and> normal (sub a b)"
proof -
  let ?d = "Timespec (sec a - sec b) (nsec a - nsec b)"
  have n: "sint (nsec ?d) = sint (nsec a) - sint (nsec b)"
    and s: "sint (sec ?d) = sint (sec a) - sint (sec b)"
    using assms by (simp_all add: sint_nsec_diff sint_sec_arith)
  have "nanos (sub a b) = nanos ?d"
    unfolding sub_def by (rule unitize_keeps_time) (use assms s in simp)
  moreover have "normal (sub a b)"
    unfolding sub_def normal_def
    using unitize_range [of ?d] assms n by (auto simp: normal_def)
  ultimately show ?thesis using n s by (simp add: nanos_def algebra_simps)
qed

theorem sub_exact_witness:
  "nanos (sub (Timespec 7 200000000) (Timespec 3 900000000)) = 3300000000"
proof -
  have "normal (Timespec 7 200000000)" "normal (Timespec 3 900000000)"
    "sec_far (sint (sec (Timespec 7 200000000)) - sint (sec (Timespec 3 900000000)))"
    by (simp_all add: normal_def sec_far_def)
  from sub_exact [OF this] show ?thesis by (simp add: nanos_def)
qed

text \<open>
  C40. \<open>add\<close> subtracts the second operand's nanoseconds: on normalised operands it is off by
  twice that amount, and so is the sum only when the second operand is a whole number of
  seconds.
\<close>

theorem add_error:
  assumes "normal a" and "normal b" and "sec_far (sint (sec a) + sint (sec b))"
  shows "nanos (add a b) = nanos a + nanos b - 2 * sint (nsec b)"
proof -
  let ?d = "Timespec (sec a + sec b) (nsec a - nsec b)"
  have n: "sint (nsec ?d) = sint (nsec a) - sint (nsec b)"
    and s: "sint (sec ?d) = sint (sec a) + sint (sec b)"
    using assms by (simp_all add: sint_nsec_diff sint_sec_arith)
  have "nanos (add a b) = nanos ?d"
    unfolding add_def by (rule unitize_keeps_time) (use assms s in simp)
  then show ?thesis using n s by (simp add: nanos_def algebra_simps)
qed

theorem add_error_witness:
  "nanos (add (Timespec 1 500000000) (Timespec 1 500000000)) = 2000000000"
proof -
  have "normal (Timespec 1 500000000)"
    "sec_far (sint (sec (Timespec 1 500000000)) + sint (sec (Timespec 1 500000000)))"
    by (simp_all add: normal_def sec_far_def)
  from add_error [OF this(1) this] show ?thesis by (simp add: nanos_def)
qed

end
