(* ===== verification/Raw_Message.thy ===== *)
theory Raw_Message
  imports Byte_Codec
begin

text \<open>
  \<open>src/rawmessage.rs\<close>: a byte buffer with a length and a capacity, shared by reference counting
  and guarded by a mutex. A \<open>RawMessage\<close> is a handle (\<open>Arc<Mutex<Internal>>\<close>): here an address
  into a store, so that two handles that share a buffer are the same address and an operation
  through one of them is seen through the other. The operations on \<open>Internal\<close> come first, then the
  public ones, which lock the mutex and call them.

  A Rust value of type \<open>T\<close> is its memory representation, a list of \<open>size_of::<T>()\<close> cells; padding
  may be uninitialised.
\<close>

section \<open>The buffer\<close>

record raw_internal =
  rlen :: usize
  rcap :: usize
  rbuf :: "cell list"

definition raw_internal_new :: "usize \<Rightarrow> raw_internal" where
  "raw_internal_new cap =
     (let cap = (if cap = 0 then 1 else cap)
      in \<lparr>rlen = cap, rcap = cap, rbuf = allocate cap\<rparr>)"

definition raw_internal_dup :: "raw_internal \<Rightarrow> failure + raw_internal" where
  "raw_internal_dup i =
     (case copy_memory (allocate (rcap i)) 0 (rbuf i) 0 (unat (rcap i)) of
        None \<Rightarrow> Inl MemoryUnsafe
      | Some b \<Rightarrow> Inr \<lparr>rlen = rcap i, rcap = rcap i, rbuf = b\<rparr>)"

definition raw_internal_setlen :: "usize \<Rightarrow> (raw_internal, unit) oper" where
  "raw_internal_setlen l i =
     (if l > rcap i then (Inl LenExceedsCap, i) else (Inr (), i\<lparr>rlen := l\<rparr>))"

definition raw_internal_resize :: "usize \<Rightarrow> (raw_internal, unit) oper" where
  "raw_internal_resize newcap i =
     (let nbuf = allocate newcap;
          copied = (if newcap \<le> rcap i
                    then copy_memory nbuf 0 (rbuf i) 0 (unat (rcap i))
                    else copy_memory nbuf 0 (rbuf i) 0 (unat newcap))
      in case copied of
           None \<Rightarrow> (Inl MemoryUnsafe, i)
         | Some b \<Rightarrow>
             (let i1 = i\<lparr>rbuf := b, rcap := newcap\<rparr>
              in (Inr (), if rlen i1 > rcap i1 then i1\<lparr>rlen := rcap i1\<rparr> else i1)))"

text \<open>The byte loop of \<open>write_from_slice\<close>; \<open>offset\<close> is a \<open>usize\<close> added to the buffer's address.\<close>

fun write_loop :: "usize \<Rightarrow> cell list \<Rightarrow> cell list \<Rightarrow> (cell list \<times> usize) option" where
  "write_loop offset [] buf = Some (buf, offset)"
| "write_loop offset (item # f) buf =
     (if unat offset < length buf
      then write_loop (offset + 1) f (buf[unat offset := item])
      else None)"

definition raw_internal_write_from_slice ::
    "usize \<Rightarrow> cell list \<Rightarrow> (raw_internal, unit) oper" where
  "raw_internal_write_from_slice offset f i =
     (if offset + of_nat (length f) > rcap i then (Inl WritePastEnd, i)
      else case write_loop offset f (rbuf i) of
             None \<Rightarrow> (Inl MemoryUnsafe, i)
           | Some (b, off) \<Rightarrow>
               (Inr (), if off > rlen i then i\<lparr>rbuf := b, rlen := off\<rparr> else i\<lparr>rbuf := b\<rparr>))"

definition raw_internal_writestructref ::
    "usize \<Rightarrow> cell list \<Rightarrow> (raw_internal, unit) oper" where
  "raw_internal_writestructref offset t i =
     (if offset + of_nat (length t) > rcap i then (Inl WritePastEnd, i)
      else if length t = 0 then (Inr (), i)
      else case copy_memory (rbuf i) (unat offset) t 0 (length t) of
             None \<Rightarrow> (Inl MemoryUnsafe, i)
           | Some b \<Rightarrow> (Inr (), i\<lparr>rbuf := b\<rparr>))"

definition raw_internal_readstruct ::
    "usize \<Rightarrow> nat \<Rightarrow> (raw_internal, cell list) oper" where
  "raw_internal_readstruct offset sz i =
     (if offset + of_nat sz > rcap i then (Inl ReadPastEnd, i)
      else case copy_memory (replicate sz None) 0 (rbuf i) (unat offset) sz of
             None \<Rightarrow> (Inl MemoryUnsafe, i)
           | Some t \<Rightarrow> (Inr t, i))"

section \<open>The store\<close>

text \<open>
  The shared objects that messages refer to: buffers behind their mutexes, and the validity
  flags of sync messages (no code can panic while it holds such a flag's lock, so it needs no
  poison flag). Addresses below the limits are in use.
\<close>

record heap =
  raws :: "nat \<Rightarrow> raw_internal mutex"
  raw_lim :: nat
  valids :: "nat \<Rightarrow> bool"
  valid_lim :: nat

definition heap_empty :: heap where
  "heap_empty = \<lparr>raws = (\<lambda>_. mutex_new (raw_internal_new 0)), raw_lim = 0,
     valids = (\<lambda>_. False), valid_lim = 0\<rparr>"

definition alloc_raw :: "raw_internal \<Rightarrow> heap \<Rightarrow> nat \<times> heap" where
  "alloc_raw i h =
     (raw_lim h, h\<lparr>raws := (raws h)(raw_lim h := mutex_new i), raw_lim := Suc (raw_lim h)\<rparr>)"

definition on_raw :: "nat \<Rightarrow> (raw_internal, 'a) oper \<Rightarrow> (heap, 'a) oper" where
  "on_raw a f h =
     (case with_lock f (raws h a) of (r, m) \<Rightarrow> (r, h\<lparr>raws := (raws h)(a := m)\<rparr>))"

section \<open>The public operations\<close>

definition raw_new :: "usize \<Rightarrow> heap \<Rightarrow> nat \<times> heap" where
  "raw_new cap = alloc_raw (raw_internal_new cap)"

text \<open>\<open>dup\<close>: the lock is released before the new message is built, so a failure poisons nothing
  but the source.\<close>

definition raw_dup :: "nat \<Rightarrow> (heap, nat) oper" where
  "raw_dup a = bindO (on_raw a (\<lambda>i. (raw_internal_dup i, i)))
     (\<lambda>i h. case alloc_raw i h of (b, h') \<Rightarrow> (Inr b, h'))"

definition raw_internal_fill :: "u8 list \<Rightarrow> (raw_internal, unit) oper" where
  "raw_internal_fill s i =
     (case copy_memory (rbuf i) 0 (map Some s) 0 (length s) of
        None \<Rightarrow> (Inl MemoryUnsafe, i)
      | Some b \<Rightarrow> (Inr (), i\<lparr>rbuf := b\<rparr>))"

definition raw_new_fromstr :: "u8 list \<Rightarrow> (heap, nat) oper" where
  "raw_new_fromstr s h =
     (case raw_new (of_nat (length s)) h of (a, h') \<Rightarrow>
        bindO (on_raw a (raw_internal_fill s)) (\<lambda>_. retO a) h')"

definition raw_cap :: "nat \<Rightarrow> (heap, usize) oper" where
  "raw_cap a = on_raw a (\<lambda>i. (Inr (rcap i), i))"

definition raw_setlen :: "nat \<Rightarrow> usize \<Rightarrow> (heap, unit) oper" where
  "raw_setlen a l = on_raw a (raw_internal_setlen l)"

definition raw_len :: "nat \<Rightarrow> (heap, usize) oper" where
  "raw_len a = on_raw a (\<lambda>i. (Inr (rlen i), i))"

definition raw_resize :: "nat \<Rightarrow> usize \<Rightarrow> (heap, unit) oper" where
  "raw_resize a newcap = on_raw a (raw_internal_resize newcap)"

definition raw_write_from_slice :: "nat \<Rightarrow> usize \<Rightarrow> cell list \<Rightarrow> (heap, unit) oper" where
  "raw_write_from_slice a offset f = on_raw a (raw_internal_write_from_slice offset f)"

text \<open>
  A slice of the buffer, taken under the lock and used after it is released: \<open>as_mutslice\<close> and
  \<open>as_slice\<close> return the buffer's pointer and the length at that moment. Here a buffer keeps its memory;
  \<open>Raw_Owners\<close> has the blocks, one of which a resize frees.
\<close>

record slice =
  sl_raw :: nat
  sl_len :: usize

definition raw_as_mutslice :: "nat \<Rightarrow> (heap, slice) oper" where
  "raw_as_mutslice a = on_raw a (\<lambda>i. (Inr \<lparr>sl_raw = a, sl_len = rlen i\<rparr>, i))"

definition raw_as_slice :: "nat \<Rightarrow> (heap, slice) oper" where
  "raw_as_slice a = on_raw a (\<lambda>i. (Inr \<lparr>sl_raw = a, sl_len = rlen i\<rparr>, i))"

text \<open>Indexing a slice reads and writes the buffer without the lock.\<close>

definition slice_read :: "slice \<Rightarrow> heap \<Rightarrow> cell list" where
  "slice_read s h = take (unat (sl_len s)) (rbuf (guarded (raws h (sl_raw s))))"

definition slice_set :: "slice \<Rightarrow> nat \<Rightarrow> u8 \<Rightarrow> (heap, unit) oper" where
  "slice_set s k v h =
     (if k \<ge> unat (sl_len s) then (Inl IndexOutOfRange, h)
      else let m = raws h (sl_raw s); i = guarded m
           in if k < length (rbuf i)
              then (Inr (), h\<lparr>raws := (raws h)(sl_raw s :=
                      m\<lparr>guarded := i\<lparr>rbuf := (rbuf i)[k := Some v]\<rparr>\<rparr>)\<rparr>)
              else (Inl MemoryUnsafe, h))"

definition raw_writestructref :: "nat \<Rightarrow> usize \<Rightarrow> cell list \<Rightarrow> (heap, unit) oper" where
  "raw_writestructref a offset t = on_raw a (raw_internal_writestructref offset t)"

definition raw_writestruct :: "nat \<Rightarrow> usize \<Rightarrow> cell list \<Rightarrow> (heap, unit) oper" where
  "raw_writestruct a offset t = raw_writestructref a offset t"

definition raw_readstructunsaferef :: "nat \<Rightarrow> usize \<Rightarrow> nat \<Rightarrow> (heap, cell list) oper" where
  "raw_readstructunsaferef a offset sz = on_raw a (raw_internal_readstruct offset sz)"

definition raw_readstructunsafe :: "nat \<Rightarrow> usize \<Rightarrow> nat \<Rightarrow> (heap, cell list) oper" where
  "raw_readstructunsafe a offset sz = raw_readstructunsaferef a offset sz"

definition raw_readstruct :: "nat \<Rightarrow> usize \<Rightarrow> nat \<Rightarrow> (heap, cell list) oper" where
  "raw_readstruct a offset sz = raw_readstructunsafe a offset sz"

definition raw_readstructref :: "nat \<Rightarrow> usize \<Rightarrow> nat \<Rightarrow> (heap, cell list) oper" where
  "raw_readstructref a offset sz = raw_readstructunsaferef a offset sz"

text \<open>The integer accessors; signed ones have the same representation. Reading a value whose
  bytes were not all written gives no defined value (\<open>None\<close>).\<close>

definition raw_writeu8 :: "nat \<Rightarrow> usize \<Rightarrow> u8 \<Rightarrow> (heap, unit) oper" where
  "raw_writeu8 a offset v = raw_writestruct a offset (map Some (le_bytes 1 v))"

definition raw_writeu16 :: "nat \<Rightarrow> usize \<Rightarrow> u16 \<Rightarrow> (heap, unit) oper" where
  "raw_writeu16 a offset v = raw_writestruct a offset (map Some (le_bytes 2 v))"

definition raw_writeu32 :: "nat \<Rightarrow> usize \<Rightarrow> u32 \<Rightarrow> (heap, unit) oper" where
  "raw_writeu32 a offset v = raw_writestruct a offset (map Some (le_bytes 4 v))"

definition read_value :: "nat \<Rightarrow> (cell list \<Rightarrow> 'v) \<Rightarrow> nat \<Rightarrow> usize \<Rightarrow> (heap, 'v) oper" where
  "read_value a decode sz offset =
     bindO (raw_readstructunsafe a offset sz) (\<lambda>cs. retO (decode cs))"

definition raw_readu8 :: "nat \<Rightarrow> usize \<Rightarrow> (heap, u8 option) oper" where
  "raw_readu8 a offset = read_value a (decode_cells le_word) 1 offset"

definition raw_readu16 :: "nat \<Rightarrow> usize \<Rightarrow> (heap, u16 option) oper" where
  "raw_readu16 a offset = read_value a (decode_cells le_word) 2 offset"

definition raw_readu32 :: "nat \<Rightarrow> usize \<Rightarrow> (heap, u32 option) oper" where
  "raw_readu32 a offset = read_value a (decode_cells le_word) 4 offset"

definition raw_writei8 :: "nat \<Rightarrow> usize \<Rightarrow> u8 \<Rightarrow> (heap, unit) oper" where
  "raw_writei8 a offset v = raw_writestruct a offset (map Some (le_bytes 1 v))"

definition raw_writei16 :: "nat \<Rightarrow> usize \<Rightarrow> u16 \<Rightarrow> (heap, unit) oper" where
  "raw_writei16 a offset v = raw_writestruct a offset (map Some (le_bytes 2 v))"

definition raw_writei32 :: "nat \<Rightarrow> usize \<Rightarrow> u32 \<Rightarrow> (heap, unit) oper" where
  "raw_writei32 a offset v = raw_writestruct a offset (map Some (le_bytes 4 v))"

definition raw_readi8 :: "nat \<Rightarrow> usize \<Rightarrow> (heap, int option) oper" where
  "raw_readi8 a offset =
     read_value a (\<lambda>cs. map_option sint (decode_cells le_word cs :: u8 option)) 1 offset"

definition raw_readi16 :: "nat \<Rightarrow> usize \<Rightarrow> (heap, int option) oper" where
  "raw_readi16 a offset =
     read_value a (\<lambda>cs. map_option sint (decode_cells le_word cs :: u16 option)) 2 offset"

definition raw_readi32 :: "nat \<Rightarrow> usize \<Rightarrow> (heap, int option) oper" where
  "raw_readi32 a offset =
     read_value a (\<lambda>cs. map_option sint (decode_cells le_word cs :: u32 option)) 4 offset"

section \<open>Well-formed buffers\<close>

definition raw_wf :: "raw_internal \<Rightarrow> bool" where
  "raw_wf i \<longleftrightarrow> length (rbuf i) = unat (rcap i) \<and> rlen i \<le> rcap i \<and> rcap i \<noteq> 0"

definition heap_wf :: "heap \<Rightarrow> bool" where
  "heap_wf h \<longleftrightarrow> (\<forall>a. raw_wf (guarded (raws h a)))"

lemma raw_wfD:
  "raw_wf i \<Longrightarrow> length (rbuf i) = unat (rcap i)"
  "raw_wf i \<Longrightarrow> rlen i \<le> rcap i"
  "raw_wf i \<Longrightarrow> rcap i \<noteq> 0"
  by (simp_all add: raw_wf_def)

lemma raw_wf_new [simp]: "raw_wf (raw_internal_new c)"
  by (simp add: raw_wf_def raw_internal_new_def Let_def)

lemma raw_internal_dup_eq [simp]:
  "raw_wf i \<Longrightarrow> raw_internal_dup i = Inr \<lparr>rlen = rcap i, rcap = rcap i, rbuf = rbuf i\<rparr>"
  by (simp add: raw_internal_dup_def raw_wfD)

text \<open>
  The contract of an operation on a buffer: it keeps it well-formed and never changes its
  capacity. It also leaves the buffer alone when it does not succeed.
\<close>

locale buffer_op =
  fixes f :: "(raw_internal, 'a) oper"
  assumes op_wf: "raw_wf i \<Longrightarrow> raw_wf (snd (f i))"
    and op_cap: "raw_wf i \<Longrightarrow> rcap (snd (f i)) = rcap i"
    and op_fail: "fst (f i) = Inl e \<Longrightarrow> snd (f i) = i"
begin

lemma on_raw_wf: "heap_wf h \<Longrightarrow> heap_wf (snd (on_raw a f h))"
  using op_wf by (auto simp: heap_wf_def on_raw_def with_lock_def split: prod.splits)
    (metis snd_conv)

lemma on_raw_cap:
  "heap_wf h \<Longrightarrow> rcap (guarded (raws (snd (on_raw a f h)) b)) = rcap (guarded (raws h b))"
  using op_cap [of "guarded (raws h a)"]
  by (auto simp: heap_wf_def on_raw_def with_lock_def split: prod.splits)

lemma on_raw_failed:
  assumes "on_raw a f h = (Inl e, h')"
  shows "rbuf (guarded (raws h' a)) = rbuf (guarded (raws h a))" and "poisoned (raws h' a)"
  using assms op_fail [of "guarded (raws h a)" e]
  by (auto simp: on_raw_def with_lock_def split: prod.splits if_splits)

end

text \<open>The byte loop writes the whole slice, or leaves the allocation.\<close>

lemma write_loop_fits:
  "unat off + length f \<le> length buf \<Longrightarrow> length buf < 2 ^ 64 \<Longrightarrow>
     write_loop off f buf = Some (overwrite (unat off) f buf, off + of_nat (length f))"
proof (induction off f buf rule: write_loop.induct)
  case (1 off buf)
  then show ?case by simp
next
  case (2 off b f buf)
  then have "unat (off + 1) = Suc (unat off)"
    by (simp add: unat_add_no_wrap)
  with 2 show ?case
    by (simp add: overwrite_Cons add.assoc)
qed

lemma write_loop_outside:
  "length buf < unat off + length f \<Longrightarrow> f \<noteq> [] \<Longrightarrow> length buf < 2 ^ 64 \<Longrightarrow>
     write_loop off f buf = None"
proof (induction off f buf rule: write_loop.induct)
  case (1 off buf)
  then show ?case by simp
next
  case (2 off b f buf)
  show ?case
  proof (cases "unat off < length buf")
    case True
    with 2 have n: "unat (off + 1) = Suc (unat off)"
      by (simp add: unat_add_no_wrap)
    with 2 True have "f \<noteq> []" by auto
    with 2 True n show ?thesis by simp
  qed simp
qed

lemma write_loop_length: "write_loop off f buf = Some (b, o') \<Longrightarrow> length b = length buf"
  by (induction off f buf rule: write_loop.induct) (auto split: if_splits)

lemma raw_wf_length: "raw_wf i \<Longrightarrow> length (rbuf i) < 2 ^ 64"
  using unsigned_less [of "rcap i"] by (simp add: raw_wfD)

lemma write_loop_end:
  assumes "raw_wf i" and "write_loop off f (rbuf i) = Some (b, o')"
    and "off + of_nat (length f) \<le> rcap i"
  shows "o' \<le> rcap i"
proof (cases "f = []")
  case True
  with assms show ?thesis by simp
next
  case False
  with assms have "unat off + length f \<le> length (rbuf i)"
    using write_loop_outside [OF _ False raw_wf_length [OF assms(1)]]
    by (metis not_le option.distinct(1))
  with assms show ?thesis
    using write_loop_fits [OF _ raw_wf_length [OF assms(1)]] by simp
qed

text \<open>\<open>resize\<close> never changes the capacity without leaving an allocation: when it shrinks it
  copies the old capacity's bytes into the smaller block, when it grows it reads the new
  capacity's bytes from the smaller one.\<close>

lemma resize_outcome:
  assumes "raw_wf i"
  shows "raw_internal_resize n i = (if n = rcap i then (Inr (), i) else (Inl MemoryUnsafe, i))"
proof (cases "n = rcap i")
  case True
  with assms show ?thesis
    by (auto simp: raw_internal_resize_def Let_def raw_wfD leD)
next
  case False
  then have "unat n \<noteq> unat (rcap i)" using unsigned_word_eqI by blast
  with assms False show ?thesis
    by (auto simp: raw_internal_resize_def Let_def copy_memory_def raw_wfD word_le_nat_alt)
qed

interpretation setlen_op: buffer_op "raw_internal_setlen l" for l
  by unfold_locales (auto simp: raw_internal_setlen_def raw_wf_def split: if_splits)

interpretation write_slice_op: buffer_op "raw_internal_write_from_slice off f" for off f
  by unfold_locales
    (auto simp: raw_internal_write_from_slice_def raw_wf_def not_less
      dest: write_loop_length intro: write_loop_end [unfolded raw_wf_def]
      split: if_splits option.splits)

interpretation write_struct_op: buffer_op "raw_internal_writestructref off t" for off t
  by unfold_locales
    (auto simp: raw_internal_writestructref_def raw_wf_def dest: copy_memory_length
      split: if_splits option.splits)

interpretation read_struct_op: buffer_op "raw_internal_readstruct off n" for off n
  by unfold_locales
    (auto simp: raw_internal_readstruct_def split: if_splits option.splits)

interpretation look_op: buffer_op "\<lambda>i. (Inr (g i), i)" for g
  by unfold_locales auto

interpretation resize_op: buffer_op "raw_internal_resize n" for n
proof unfold_locales
  show "fst (raw_internal_resize n i) = Inl e \<Longrightarrow> snd (raw_internal_resize n i) = i" for i e
    by (auto simp: raw_internal_resize_def Let_def split: option.splits)
qed (simp_all add: resize_outcome)

section \<open>Runs of operations\<close>

text \<open>One constructor per operation that touches the store.\<close>

datatype raw_cmd =
    CNew usize
  | CDup nat
  | CFromStr "u8 list"
  | CCap nat
  | CLen nat
  | CSetLen nat usize
  | CResize nat usize
  | CWriteSlice nat usize "cell list"
  | CWriteStruct nat usize "cell list"
  | CReadStruct nat usize nat
  | CMutSlice nat
  | CSliceSet slice nat u8

fun raw_exec :: "raw_cmd \<Rightarrow> (heap, unit) oper" where
  "raw_exec (CNew c) h = (Inr (), snd (raw_new c h))"
| "raw_exec (CDup a) h = bindO (raw_dup a) (\<lambda>_. retO ()) h"
| "raw_exec (CFromStr s) h = bindO (raw_new_fromstr s) (\<lambda>_. retO ()) h"
| "raw_exec (CCap a) h = bindO (raw_cap a) (\<lambda>_. retO ()) h"
| "raw_exec (CLen a) h = bindO (raw_len a) (\<lambda>_. retO ()) h"
| "raw_exec (CSetLen a l) h = raw_setlen a l h"
| "raw_exec (CResize a n) h = raw_resize a n h"
| "raw_exec (CWriteSlice a off f) h = raw_write_from_slice a off f h"
| "raw_exec (CWriteStruct a off t) h = raw_writestruct a off t h"
| "raw_exec (CReadStruct a off n) h = bindO (raw_readstruct a off n) (\<lambda>_. retO ()) h"
| "raw_exec (CMutSlice a) h = bindO (raw_as_mutslice a) (\<lambda>_. retO ()) h"
| "raw_exec (CSliceSet sl k v) h = slice_set sl k v h"

text \<open>The buffers a command may change: those it names, and the fresh one it allocates.\<close>

fun raw_target :: "raw_cmd \<Rightarrow> nat \<Rightarrow> bool" where
  "raw_target (CNew c) b = False"
| "raw_target (CDup a) b = (a = b)"
| "raw_target (CFromStr s) b = False"
| "raw_target (CCap a) b = (a = b)"
| "raw_target (CLen a) b = (a = b)"
| "raw_target (CSetLen a l) b = (a = b)"
| "raw_target (CResize a n) b = (a = b)"
| "raw_target (CWriteSlice a off f) b = (a = b)"
| "raw_target (CWriteStruct a off t) b = (a = b)"
| "raw_target (CReadStruct a off n) b = (a = b)"
| "raw_target (CMutSlice a) b = (a = b)"
| "raw_target (CSliceSet sl k v) b = (sl_raw sl = b)"

definition raw_step :: "heap \<Rightarrow> raw_cmd \<Rightarrow> heap" where
  "raw_step h c = snd (raw_exec c h)"

lemma heap_wf_empty [simp]: "heap_wf heap_empty"
  by (simp add: heap_wf_def heap_empty_def)

lemma heap_wfD: "heap_wf h \<Longrightarrow> raw_wf (guarded (raws h a))"
  by (simp add: heap_wf_def)

lemma alloc_raw_simps [simp]:
  "fst (alloc_raw i h) = raw_lim h"
  "raws (snd (alloc_raw i h)) = (raws h)(raw_lim h := mutex_new i)"
  "raw_lim (snd (alloc_raw i h)) = Suc (raw_lim h)"
  "valids (snd (alloc_raw i h)) = valids h"
  "valid_lim (snd (alloc_raw i h)) = valid_lim h"
  by (simp_all add: alloc_raw_def)

lemma alloc_raw_wf: "heap_wf h \<Longrightarrow> raw_wf i \<Longrightarrow> heap_wf (snd (alloc_raw i h))"
  by (simp add: heap_wf_def)

lemma on_raw_frame:
  "b \<noteq> a \<Longrightarrow> raws (snd (on_raw a f h)) b = raws h b"
  "raw_lim (snd (on_raw a f h)) = raw_lim h"
  "valids (snd (on_raw a f h)) = valids h"
  "valid_lim (snd (on_raw a f h)) = valid_lim h"
  by (simp_all add: on_raw_def split: prod.splits)

lemma on_raw_poisoned [simp]: "poisoned (raws h a) \<Longrightarrow> on_raw a f h = (Inl LockPoisoned, h)"
  by (simp add: on_raw_def)

lemma on_raw_free:
  "\<not> poisoned (raws h a) \<Longrightarrow> f (guarded (raws h a)) = (r, i) \<Longrightarrow>
     on_raw a f h = (r, h\<lparr>raws := (raws h)(a := \<lparr>guarded = i, poisoned = is_failed r\<rparr>)\<rparr>)"
  by (simp add: on_raw_def with_lock_free)

lemma mutex_eta: "\<not> poisoned m \<Longrightarrow> \<lparr>guarded = guarded m, poisoned = False\<rparr> = m"
  by (cases m) simp

text \<open>An operation that only looks leaves the store as it was.\<close>

lemma on_raw_look:
  assumes "\<not> poisoned (raws h a)" and "f (guarded (raws h a)) = (Inr x, guarded (raws h a))"
  shows "on_raw a f h = (Inr x, h)"
  using assms by (simp add: on_raw_free mutex_eta)

lemma raw_cap_free [simp]:
  "\<not> poisoned (raws h a) \<Longrightarrow> raw_cap a h = (Inr (rcap (guarded (raws h a))), h)"
  by (simp add: raw_cap_def on_raw_look)

lemma raw_len_free [simp]:
  "\<not> poisoned (raws h a) \<Longrightarrow> raw_len a h = (Inr (rlen (guarded (raws h a))), h)"
  by (simp add: raw_len_def on_raw_look)

text \<open>\<open>dup\<close>: a fresh buffer with the same bytes, whose length is the capacity.\<close>

lemma raw_dup_free:
  assumes "heap_wf h" and "\<not> poisoned (raws h a)"
  shows "raw_dup a h = (Inr (raw_lim h),
    snd (alloc_raw \<lparr>rlen = rcap (guarded (raws h a)), rcap = rcap (guarded (raws h a)),
      rbuf = rbuf (guarded (raws h a))\<rparr> h))"
proof -
  have "on_raw a (\<lambda>i. (raw_internal_dup i, i)) h =
    (Inr \<lparr>rlen = rcap (guarded (raws h a)), rcap = rcap (guarded (raws h a)),
      rbuf = rbuf (guarded (raws h a))\<rparr>, h)"
    using assms by (intro on_raw_look) (simp_all add: heap_wfD)
  then show ?thesis by (simp add: raw_dup_def alloc_raw_def)
qed

lemma raw_dup_poisoned [simp]: "poisoned (raws h a) \<Longrightarrow> raw_dup a h = (Inl LockPoisoned, h)"
  by (simp add: raw_dup_def)

interpretation fill_op: buffer_op "raw_internal_fill s" for s
  by unfold_locales
    (auto simp: raw_internal_fill_def raw_wf_def dest: copy_memory_length split: option.splits)

interpretation dup_op: buffer_op "\<lambda>i. (raw_internal_dup i, i)"
  by unfold_locales auto

lemma snd_bindO_ret [simp]: "snd (bindO m (\<lambda>x. retO (g x)) h) = snd (m h)"
  by (simp add: bindO_def split: prod.splits sum.splits)

lemma raw_new_wf: "heap_wf h \<Longrightarrow> heap_wf (snd (raw_new c h))"
  by (simp add: raw_new_def alloc_raw_wf)

lemma raw_dup_wf: "heap_wf h \<Longrightarrow> heap_wf (snd (raw_dup a h))"
  by (cases "poisoned (raws h a)")
    (auto simp: raw_dup_free intro!: alloc_raw_wf heap_wfD simp: raw_wf_def dest: heap_wfD [of h a])

lemma raw_fromstr_eq:
  "raw_new_fromstr s h =
     bindO (on_raw (raw_lim h) (raw_internal_fill s)) (\<lambda>_. retO (raw_lim h))
       (snd (raw_new (of_nat (length s)) h))"
  by (simp add: raw_new_fromstr_def raw_new_def alloc_raw_def)

lemmas raw_op_defs =
  raw_cap_def raw_len_def raw_setlen_def raw_resize_def raw_write_from_slice_def
  raw_writestruct_def raw_writestructref_def raw_readstruct_def raw_readstructunsafe_def
  raw_readstructunsaferef_def raw_as_mutslice_def

lemma slice_set_wf: "heap_wf h \<Longrightarrow> heap_wf (snd (slice_set sl k v h))"
  by (auto simp: slice_set_def heap_wf_def raw_wf_def Let_def)

lemma slice_set_frame:
  "raw_lim (snd (slice_set sl k v h)) = raw_lim h"
  "rcap (guarded (raws (snd (slice_set sl k v h)) b)) = rcap (guarded (raws h b))"
  "poisoned (raws (snd (slice_set sl k v h)) b) = poisoned (raws h b)"
  "b \<noteq> sl_raw sl \<Longrightarrow> raws (snd (slice_set sl k v h)) b = raws h b"
  by (simp_all add: slice_set_def Let_def)

lemma raw_step_wf: "heap_wf h \<Longrightarrow> heap_wf (raw_step h c)"
  by (cases c)
    (simp_all add: raw_step_def raw_op_defs raw_new_wf raw_dup_wf raw_fromstr_eq slice_set_wf
      setlen_op.on_raw_wf write_slice_op.on_raw_wf write_struct_op.on_raw_wf
      read_struct_op.on_raw_wf look_op.on_raw_wf resize_op.on_raw_wf fill_op.on_raw_wf)

interpretation raw_sys: step_system raw_step heap_wf
  by unfold_locales (rule raw_step_wf)

text \<open>No operation changes the capacity of a buffer that exists.\<close>

lemma raw_lim_on_raw [simp]: "raw_lim (snd (on_raw a f h)) = raw_lim h"
  by (rule on_raw_frame)

lemma raw_dup_frame:
  "heap_wf h \<Longrightarrow> b < raw_lim h \<Longrightarrow> raws (snd (raw_dup a h)) b = raws h b"
  "heap_wf h \<Longrightarrow> raw_lim h \<le> raw_lim (snd (raw_dup a h))"
  by (cases "poisoned (raws h a)"; simp add: raw_dup_free)+

lemma raw_new_frame:
  "b < raw_lim h \<Longrightarrow> raws (snd (raw_new c h)) b = raws h b"
  "raw_lim (snd (raw_new c h)) = Suc (raw_lim h)"
  by (simp_all add: raw_new_def)

lemma raw_step_lim: "heap_wf h \<Longrightarrow> raw_lim h \<le> raw_lim (raw_step h c)"
  by (cases c)
    (simp_all add: raw_step_def raw_op_defs raw_fromstr_eq raw_dup_frame raw_new_frame
      slice_set_frame)

lemma raw_step_cap:
  assumes "heap_wf h" and "b < raw_lim h"
  shows "rcap (guarded (raws (raw_step h c) b)) = rcap (guarded (raws h b))"
  using assms
  by (cases c)
    (simp_all add: raw_step_def raw_op_defs raw_fromstr_eq raw_dup_frame raw_new_frame
      slice_set_frame raw_new_wf setlen_op.on_raw_cap write_slice_op.on_raw_cap write_struct_op.on_raw_cap
      read_struct_op.on_raw_cap look_op.on_raw_cap resize_op.on_raw_cap fill_op.on_raw_cap)

lemma raw_step_frame:
  assumes "heap_wf h" and "b < raw_lim h" and "\<not> raw_target c b"
  shows "raws (raw_step h c) b = raws h b"
  using assms
  by (cases c)
    (simp_all add: raw_step_def raw_op_defs raw_fromstr_eq raw_dup_frame raw_new_frame on_raw_frame
      slice_set_frame)

lemma raw_step_valids [simp]: "valids (raw_step h c) = valids h" "valid_lim (raw_step h c) = valid_lim h"
proof -
  have "valids (snd (raw_dup a h)) = valids h \<and> valid_lim (snd (raw_dup a h)) = valid_lim h" for a h
    using on_raw_frame(3,4) [of a "\<lambda>i. (raw_internal_dup i, i)" h]
    by (auto simp: raw_dup_def bindO_def alloc_raw_def split: prod.splits sum.splits)
  then show "valids (raw_step h c) = valids h" "valid_lim (raw_step h c) = valid_lim h"
    by (cases c; simp add: raw_step_def raw_op_defs raw_fromstr_eq raw_new_def on_raw_frame
      slice_set_def Let_def)+
qed

lemma raw_run_frame:
  assumes "heap_wf h" and "b < raw_lim h" and "list_all (\<lambda>c. \<not> raw_target c b) cs"
  shows "raws (foldl raw_step h cs) b = raws h b"
  using assms
proof (induction cs arbitrary: h)
  case Nil
  then show ?case by simp
next
  case (Cons c cs)
  then show ?case
    using raw_step_lim [of h c] by (simp add: raw_step_wf raw_step_frame)
qed

section \<open>What the operations guarantee\<close>

text \<open>
  C12. Whatever operations are called in whatever order, failures included, every buffer stays
  well-formed: its allocation has the size its capacity says, its length is at most its
  capacity, and the capacity is not zero.
\<close>

theorem raw_run_invariant: "heap_wf (foldl raw_step heap_empty cs)"
  by (rule raw_sys.run_good) simp

text \<open>
  Arithmetic on offsets does not wrap, a resize keeps the capacity, and a slice was taken from
  the buffer (its length is at most the capacity, which never changes).
\<close>

fun raw_in_range :: "heap \<Rightarrow> raw_cmd \<Rightarrow> bool" where
  "raw_in_range h (CFromStr s) = (length s < 2 ^ 64)"
| "raw_in_range h (CResize a n) = (n = rcap (guarded (raws h a)))"
| "raw_in_range h (CWriteSlice a off f) = (unat off + length f < 2 ^ 64)"
| "raw_in_range h (CWriteStruct a off t) = (unat off + length t < 2 ^ 64)"
| "raw_in_range h (CReadStruct a off n) = (unat off + n < 2 ^ 64)"
| "raw_in_range h (CSliceSet sl k v) =
     (unat (sl_len sl) \<le> unat (rcap (guarded (raws h (sl_raw sl)))))"
| "raw_in_range h c = True"

lemma unat_end:
  "unat off + n < 2 ^ 64 \<Longrightarrow> unat (off + of_nat n :: usize) = unat off + n"
  by (simp add: unat_add_no_wrap unat_of_nat_usize)

lemma end_in_cap:
  assumes "raw_wf i" and "unat off + n < 2 ^ 64" and "\<not> off + of_nat n > rcap i"
  shows "unat off + n \<le> length (rbuf i)"
  using assms unat_end [OF assms(2)] by (simp add: raw_wfD not_less word_le_nat_alt)

lemma write_slice_fits:
  assumes "raw_wf i" and "unat off + length f < 2 ^ 64" and "\<not> off + of_nat (length f) > rcap i"
  shows "raw_internal_write_from_slice off f i =
    (Inr (), i\<lparr>rbuf := overwrite (unat off) f (rbuf i),
               rlen := max (rlen i) (off + of_nat (length f))\<rparr>)"
proof -
  have "write_loop off f (rbuf i) = Some (overwrite (unat off) f (rbuf i), off + of_nat (length f))"
    using end_in_cap [OF assms] raw_wf_length [OF assms(1)] by (rule write_loop_fits)
  then show ?thesis
    using assms(3) by (auto simp: raw_internal_write_from_slice_def max_def)
qed

lemma write_struct_fits:
  assumes "raw_wf i" and "unat off + length t < 2 ^ 64" and "\<not> off + of_nat (length t) > rcap i"
  shows "raw_internal_writestructref off t i =
    (Inr (), i\<lparr>rbuf := overwrite (unat off) t (rbuf i)\<rparr>)"
  using assms(3) end_in_cap [OF assms]
  by (simp add: raw_internal_writestructref_def copy_memory_overwrite)

lemma read_struct_fits:
  assumes "raw_wf i" and "unat off + n < 2 ^ 64" and "\<not> off + of_nat n > rcap i"
  shows "raw_internal_readstruct off n i = (Inr (window (unat off) n (rbuf i)), i)"
  using assms(3) end_in_cap [OF assms]
  by (simp add: raw_internal_readstruct_def copy_memory_window)

lemma on_raw_safe: "no_ub (fst (f (guarded (raws h a)))) \<Longrightarrow> no_ub (fst (on_raw a f h))"
  using no_ub_with_lock [of f "raws h a"] by (auto simp: on_raw_def split: prod.splits)

lemma write_slice_safe:
  "raw_wf i \<Longrightarrow> unat off + length f < 2 ^ 64 \<Longrightarrow> no_ub (fst (raw_internal_write_from_slice off f i))"
  by (cases "off + of_nat (length f) > rcap i")
    (simp_all add: write_slice_fits, simp add: raw_internal_write_from_slice_def)

lemma write_struct_safe:
  "raw_wf i \<Longrightarrow> unat off + length t < 2 ^ 64 \<Longrightarrow> no_ub (fst (raw_internal_writestructref off t i))"
  by (cases "off + of_nat (length t) > rcap i")
    (simp_all add: write_struct_fits, simp add: raw_internal_writestructref_def)

lemma read_struct_safe:
  "raw_wf i \<Longrightarrow> unat off + n < 2 ^ 64 \<Longrightarrow> no_ub (fst (raw_internal_readstruct off n i))"
  by (cases "off + of_nat n > rcap i")
    (simp_all add: read_struct_fits, simp add: raw_internal_readstruct_def)

lemma fill_outcome:
  assumes "length s < 2 ^ 64"
  shows "raw_internal_fill s (raw_internal_new (of_nat (length s))) =
    (Inr (), (raw_internal_new (of_nat (length s)))\<lparr>rbuf :=
       overwrite 0 (map Some s) (rbuf (raw_internal_new (of_nat (length s))))\<rparr>)"
proof -
  have "length s \<le> length (rbuf (raw_internal_new (of_nat (length s))))"
    using assms unat_of_nat_usize [of "length s"]
    by (cases "s = []") (auto simp: raw_internal_new_def Let_def)
  then show ?thesis
    using copy_memory_overwrite [of 0 "map Some s" "rbuf (raw_internal_new (of_nat (length s)))"]
    by (simp add: raw_internal_fill_def)
qed

lemma fromstr_safe: "length s < 2 ^ 64 \<Longrightarrow> no_ub (fst (raw_new_fromstr s h))"
  unfolding raw_fromstr_eq
  by (rule no_ub_bindO) (auto intro!: on_raw_safe simp: raw_new_def fill_outcome)

lemma slice_set_safe:
  "raw_wf (guarded (raws h (sl_raw sl))) \<Longrightarrow>
     unat (sl_len sl) \<le> unat (rcap (guarded (raws h (sl_raw sl)))) \<Longrightarrow>
     no_ub (fst (slice_set sl k v h))"
  by (auto simp: slice_set_def Let_def raw_wfD)

text \<open>
  C13. Memory safety: in a well-formed store no operation leaves an allocation, provided that
  the end of the range it names does not wrap around and it does not resize.
\<close>

theorem raw_exec_safe:
  assumes "heap_wf h" and "raw_in_range h c"
  shows "no_ub (fst (raw_exec c h))"
proof -
  note wf = heap_wfD [OF assms(1)]
  have dup: "no_ub (fst (raw_dup a h))" for a
    using wf [of a] by (auto simp: raw_dup_def intro!: no_ub_bindO on_raw_safe split: prod.splits)
  show ?thesis
    using assms wf
    by (cases c)
      (auto simp: raw_op_defs resize_outcome raw_internal_setlen_def
        intro!: no_ub_bindO on_raw_safe dup write_slice_safe write_struct_safe read_struct_safe
          fromstr_safe slice_set_safe)
qed

theorem raw_exec_safe_witness:
  "no_ub (fst (raw_exec (CWriteSlice 0 2 [Some 7, None]) (raw_step heap_empty (CNew 4))))"
proof -
  have wf: "heap_wf (raw_step heap_empty (CNew 4))" by (rule raw_step_wf) simp
  have "raw_in_range (raw_step heap_empty (CNew 4)) (CWriteSlice 0 2 [Some 7, None])" by simp
  from raw_exec_safe [OF wf this] show ?thesis .
qed

text \<open>
  C16. \<open>write_from_slice\<close> on every branch. A range past the capacity panics; a range inside it is
  overwritten and the length grows to its end; a range whose end wraps around passes the
  check when the wrapped end is small enough, and then the write leaves the allocation.
\<close>

theorem write_from_slice_outcome:
  assumes "raw_wf i" and "length f < 2 ^ 64"
  shows "raw_internal_write_from_slice off f i =
    (let e = off + of_nat (length f)
     in if e > rcap i then (Inl WritePastEnd, i)
        else if unat off + length f < 2 ^ 64
        then (Inr (), i\<lparr>rbuf := overwrite (unat off) f (rbuf i), rlen := max (rlen i) e\<rparr>)
        else (Inl MemoryUnsafe, i))"
proof -
  have "write_loop off f (rbuf i) = None" if "\<not> unat off + length f < 2 ^ 64"
  proof (rule write_loop_outside)
    show "length (rbuf i) < unat off + length f" and "length (rbuf i) < 2 ^ 64"
      using that raw_wf_length [OF assms(1)] by linarith+
    show "f \<noteq> []" using that unsigned_less [of off] by auto
  qed
  then show ?thesis
    using write_slice_fits [OF assms(1), of off f]
    by (auto simp: Let_def raw_internal_write_from_slice_def)
qed

theorem write_from_slice_outcome_witness:
  "fst (raw_internal_write_from_slice 18446744073709551615 [Some 7] (raw_internal_new 4)) =
     Inl MemoryUnsafe"
proof -
  have "raw_wf (raw_internal_new 4)" "length [Some 7 :: cell] < 2 ^ 64" by simp_all
  from write_from_slice_outcome [OF this, of 18446744073709551615] show ?thesis
    by (simp add: Let_def raw_internal_new_def)
qed

text \<open>
  C17. \<open>resize\<close> never resizes: with any new capacity but the old one it copies outside an
  allocation, whether it grows or shrinks.
\<close>

theorem raw_resize_outcome:
  assumes "heap_wf h" and "\<not> poisoned (raws h a)"
  shows "fst (raw_resize a n h) = (if n = rcap (guarded (raws h a)) then Inr () else Inl MemoryUnsafe)"
  using assms by (simp add: raw_resize_def on_raw_def with_lock_def resize_outcome heap_wfD)

theorem raw_resize_outcome_witness:
  "fst (raw_resize 0 2 (raw_step heap_empty (CNew 4))) = Inl MemoryUnsafe"
proof -
  have "heap_wf (raw_step heap_empty (CNew 4))" by (rule raw_step_wf) simp
  moreover have "\<not> poisoned (raws (raw_step heap_empty (CNew 4)) 0)"
    by (simp add: raw_step_def raw_new_def heap_empty_def)
  ultimately show ?thesis
    using raw_resize_outcome [of "raw_step heap_empty (CNew 4)" 0 2]
    by (simp add: raw_step_def raw_new_def heap_empty_def raw_internal_new_def)
qed

text \<open>
  C18. A structure written inside the capacity is read back from the same offset, and any
  range that does not overlap it reads as before; the length stays as it was.
\<close>

theorem writestruct_readstruct:
  assumes "heap_wf h" and "\<not> poisoned (raws h a)"
    and "unat off + length t \<le> unat (rcap (guarded (raws h a)))"
    and "unat off' + n \<le> unat (rcap (guarded (raws h a)))"
    and "unat off' + n \<le> unat off \<or> unat off + length t \<le> unat off'"
    and "raw_writestruct a off t h = (r, h')"
  shows "r = Inr () \<and>
    fst (raw_readstruct a off (length t) h') = Inr t \<and>
    fst (raw_readstruct a off' n h') = fst (raw_readstruct a off' n h) \<and>
    fst (raw_len a h') = fst (raw_len a h)"
proof -
  let ?i = "guarded (raws h a)"
  let ?j = "?i\<lparr>rbuf := overwrite (unat off) t (rbuf ?i)\<rparr>"
  have wf: "raw_wf ?i" using assms(1) by (rule heap_wfD)
  note len = raw_wfD(1) [OF wf]
  have w64: "unat (rcap ?i) < 2 ^ 64" using unsigned_less [of "rcap ?i"] by simp
  have fit: "unat o' + m < 2 ^ 64 \<and> \<not> o' + of_nat m > rcap ?i"
    if "unat o' + m \<le> unat (rcap ?i)" for o' :: usize and m
    using that w64 unat_end [of o' m] by (simp add: not_less word_le_nat_alt)
  have wfj: "raw_wf ?j" using wf assms(3) len by (simp add: raw_wf_def)
  have "raw_writestruct a off t h = (Inr (), h\<lparr>raws := (raws h)(a := \<lparr>guarded = ?j, poisoned = False\<rparr>)\<rparr>)"
    using assms(2) write_struct_fits [OF wf] fit [OF assms(3)]
    by (simp add: raw_writestruct_def raw_writestructref_def on_raw_free)
  with assms(6) have r: "r = Inr ()" and h': "raws h' a = \<lparr>guarded = ?j, poisoned = False\<rparr>"
    by auto
  have rd: "fst (raw_readstruct a o' m h') = Inr (window (unat o') m (rbuf ?j))"
    if "unat o' + m \<le> unat (rcap ?i)" for o' m
    using read_struct_fits [OF wfj, of o' m] fit [OF that] h'
    by (simp add: raw_readstruct_def raw_readstructunsafe_def raw_readstructunsaferef_def on_raw_free)
  have rd0: "fst (raw_readstruct a o' m h) = Inr (window (unat o') m (rbuf ?i))"
    if "unat o' + m \<le> unat (rcap ?i)" for o' m
    using read_struct_fits [OF wf, of o' m] fit [OF that] assms(2)
    by (simp add: raw_readstruct_def raw_readstructunsafe_def raw_readstructunsaferef_def on_raw_free)
  show ?thesis
    using assms(2-5) r h' len
    by (simp add: rd rd0 window_overwrite_same window_overwrite_disjoint)
qed

theorem writestruct_readstruct_witness:
  "fst (raw_readstruct 0 1 (length [Some 5, None :: cell]) (snd (raw_writestruct 0 1 [Some 5, None]
     (raw_step heap_empty (CNew 4))))) = Inr [Some 5, None]"
proof -
  let ?h = "raw_step heap_empty (CNew 4)"
  have wf: "heap_wf ?h" by (rule raw_step_wf) simp
  have ok: "\<not> poisoned (raws ?h 0)" "rcap (guarded (raws ?h 0)) = 4"
    by (simp_all add: raw_step_def raw_new_def heap_empty_def raw_internal_new_def)
  obtain r h' where "raw_writestruct 0 1 [Some 5, None] ?h = (r, h')" by (meson surj_pair)
  from writestruct_readstruct [OF wf ok(1) _ _ _ this, of 0 1] this ok(2) show ?thesis by simp
qed

text \<open>
  C19. \<open>dup\<close> makes a fresh buffer with the same bytes and capacity, which nothing done to other
  buffers can change, the original included. Its length is the capacity: a length that
  \<open>setlen\<close> shortened is lost.
\<close>

theorem raw_dup_isolated:
  assumes "heap_wf h" and "\<not> poisoned (raws h a)" and "a < raw_lim h"
    and "raw_dup a h = (Inr b, h')" and "list_all (\<lambda>c. \<not> raw_target c b) cs"
  shows "a \<noteq> b \<and> b < raw_lim h' \<and> raws h' a = raws h a \<and>
    raws (foldl raw_step h' cs) b =
      mutex_new \<lparr>rlen = rcap (guarded (raws h a)), rcap = rcap (guarded (raws h a)),
        rbuf = rbuf (guarded (raws h a))\<rparr>"
proof -
  have "b = raw_lim h" and h': "h' = snd (raw_dup a h)" using assms(4) raw_dup_free [OF assms(1,2)]
    by simp_all
  moreover have "heap_wf h'" unfolding h' using assms(1) by (rule raw_dup_wf)
  then have "raws (foldl raw_step h' cs) b = raws h' b"
    using assms(5) calculation
    by (intro raw_run_frame) (simp_all add: raw_dup_free [OF assms(1,2)])
  ultimately show ?thesis
    using assms(3) by (simp add: raw_dup_free [OF assms(1,2)])
qed

theorem raw_dup_isolated_witness:
  "rlen (guarded (raws (foldl raw_step
      (snd (raw_dup 0 (foldl raw_step heap_empty [CNew 8, CSetLen 0 3])))
      [CWriteSlice 0 0 [Some 1], CSetLen 0 1]) 1)) = 8"
proof -
  define h where "h = foldl raw_step heap_empty [CNew 8, CSetLen 0 3]"
  have wf: "heap_wf h" unfolding h_def by (rule raw_sys.run_good) simp
  have h: "\<not> poisoned (raws h 0)" "raw_lim h = 1" "rcap (guarded (raws h 0)) = 8"
    by (simp_all add: h_def raw_step_def raw_new_def heap_empty_def raw_internal_new_def
        raw_setlen_def raw_internal_setlen_def on_raw_def with_lock_def)
  then have "raw_dup 0 h = (Inr 1, snd (raw_dup 0 h))" "0 < raw_lim h"
    by (simp_all add: raw_dup_free [OF wf])
  from raw_dup_isolated [OF wf h(1) this(2,1), of "[CWriteSlice 0 0 [Some 1], CSetLen 0 1]"] h(3)
  show ?thesis unfolding h_def [symmetric] by (simp add: mutex_new_def)
qed

lemma raw_step_poisoned:
  assumes "poisoned (raws h a)" and "a < raw_lim h" and "heap_wf h"
  shows "poisoned (raws (raw_step h c) a)"
proof (cases "raw_target c a")
  case False
  with assms show ?thesis by (simp add: raw_step_frame)
next
  case True
  with assms show ?thesis
    by (cases c) (simp_all add: raw_step_def raw_op_defs slice_set_frame)
qed

lemma raw_run_poisoned:
  "poisoned (raws h a) \<Longrightarrow> a < raw_lim h \<Longrightarrow> heap_wf h \<Longrightarrow> poisoned (raws (foldl raw_step h cs) a)"
proof (induction cs arbitrary: h)
  case Nil
  then show ?case by simp
next
  case (Cons c cs)
  then show ?case
    using raw_step_lim [of h c] by (simp add: raw_step_wf raw_step_poisoned)
qed

text \<open>
  A panic while an operation holds a buffer's lock poisons it for good: after any further
  operations the lock still fails, so every read of the length or the capacity, every
  \<open>dup\<close> and every \<open>write_from_slice\<close> through any handle panics too.
\<close>

lemma poison_is_permanent:
  assumes "heap_wf h" and "a < raw_lim h"
    and "raw_write_from_slice a off f h = (Inl e, h')"
  shows "fst (raw_len a (foldl raw_step h' cs)) = Inl LockPoisoned \<and>
    fst (raw_cap a (foldl raw_step h' cs)) = Inl LockPoisoned \<and>
    fst (raw_dup a (foldl raw_step h' cs)) = Inl LockPoisoned \<and>
    fst (raw_write_from_slice a off' f' (foldl raw_step h' cs)) = Inl LockPoisoned"
proof -
  have h': "h' = raw_step h (CWriteSlice a off f)" using assms(3) by (simp add: raw_step_def)
  have "poisoned (raws h' a)"
    using write_slice_op.on_raw_failed(2) assms(3) by (simp add: raw_write_from_slice_def)
  moreover have "heap_wf h'" "a < raw_lim h'"
    unfolding h' using assms(1,2) raw_step_lim [OF assms(1)]
    by (auto intro: raw_step_wf order.strict_trans2)
  ultimately have "poisoned (raws (foldl raw_step h' cs) a)"
    by (simp add: raw_run_poisoned)
  then show ?thesis by (simp add: raw_op_defs)
qed

lemma overwrite_whole: "length ys = length xs \<Longrightarrow> overwrite 0 ys xs = ys"
  by (simp add: overwrite_def)

lemma fromstr_eq:
  assumes "s \<noteq> []" and "length s < 2 ^ 64"
  shows "raw_new_fromstr s h = (Inr (raw_lim h), snd (alloc_raw
    \<lparr>rlen = of_nat (length s), rcap = of_nat (length s), rbuf = map Some s\<rparr> h))"
proof -
  let ?n = "of_nat (length s) :: usize"
  have n: "unat ?n = length s" using assms(2) by (rule unat_of_nat_usize)
  then have "?n \<noteq> 0" using assms(1) by auto
  then have i: "raw_internal_new ?n = \<lparr>rlen = ?n, rcap = ?n, rbuf = allocate ?n\<rparr>"
    by (simp add: raw_internal_new_def Let_def)
  have "raw_internal_fill s (raw_internal_new ?n) = (Inr (), \<lparr>rlen = ?n, rcap = ?n, rbuf = map Some s\<rparr>)"
    using fill_outcome [OF assms(2)] n by (simp add: i overwrite_whole)
  then show ?thesis
    by (simp add: raw_fromstr_eq raw_new_def on_raw_def with_lock_def)
      (simp add: alloc_raw_def mutex_new_def)
qed

lemma read_value_free:
  assumes "raw_wf (guarded (raws h a))" and "\<not> poisoned (raws h a)"
    and "unat off + n \<le> unat (rcap (guarded (raws h a)))"
  shows "read_value a d n off h = (Inr (d (window (unat off) n (rbuf (guarded (raws h a))))), h)"
proof -
  have w: "unat off + n < 2 ^ 64"
    using assms(3) usize_bound [of "rcap (guarded (raws h a))"] by linarith
  then have "\<not> off + of_nat n > rcap (guarded (raws h a))"
    using assms(3) unat_end [OF w] by (simp add: not_less word_le_nat_alt)
  from read_struct_fits [OF assms(1) w this] assms(2)
  have "raw_readstructunsafe a off n h = (Inr (window (unat off) n (rbuf (guarded (raws h a)))), h)"
    by (simp add: raw_readstructunsafe_def raw_readstructunsaferef_def on_raw_look)
  then show ?thesis by (simp add: read_value_def)
qed

text \<open>
  A message made from a string of at least one byte holds exactly its bytes: the length is
  the string's and every \<open>readu8\<close> returns the byte at that offset.
\<close>

lemma fromstr_reads_back:
  assumes "s \<noteq> []" and "length s < 2 ^ 64" and "raw_new_fromstr s h = (r, h')"
  shows "r = Inr (raw_lim h) \<and> raw_len (raw_lim h) h' = (Inr (of_nat (length s)), h') \<and>
    (\<forall>k < length s. raw_readu8 (raw_lim h) (of_nat k) h' = (Inr (Some (s ! k)), h'))"
proof -
  let ?i = "\<lparr>rlen = of_nat (length s), rcap = of_nat (length s), rbuf = map Some s\<rparr>"
  have h': "h' = snd (alloc_raw ?i h)" "r = Inr (raw_lim h)"
    using fromstr_eq [OF assms(1,2)] assms(3) by simp_all
  have n: "unat (of_nat (length s) :: usize) = length s"
    using assms(2) by (rule unat_of_nat_usize)
  then have wf: "raw_wf ?i" using assms(1) by (auto simp: raw_wf_def)
  have "raw_readu8 (raw_lim h) (of_nat k) h' = (Inr (Some (s ! k)), h')" if k: "k < length s" for k
  proof -
    have "window k 1 (map Some s) = map Some (le_bytes 1 (s ! k))"
      using k by (simp add: window_def take_Suc_conv_app_nth Cons_nth_drop_Suc [symmetric])
    then have "decode_cells le_word (window k 1 (map Some s)) = Some (s ! k)"
      by (simp only: c8.decode_cells_enc)
    moreover have "unat (of_nat k :: usize) = k"
      using k assms(2) by (intro unat_of_nat_usize) simp
    ultimately show ?thesis
      using wf n k by (simp add: raw_readu8_def read_value_free h')
  qed
  then show ?thesis by (simp add: h')
qed

end
