(* ===== verification/Message.thy ===== *)
theory Message
  imports Raw_Message
begin

text \<open>
  \<open>src/syncmessage.rs\<close>, \<open>src/clonemessage.rs\<close> and \<open>src/message.rs\<close>: the three kinds of message.
  A sync or clone message carries a value of some type inside a raw buffer, together with the
  type's id; a sync message also has a validity flag, shared by all its internal clones, that
  the first receiver takes. A \<open>Message\<close> adds the addresses.

  A type parameter \<open>T\<close> of the sources is its \<open>TypeId\<close> and its size; a value of \<open>T\<close> is its memory
  representation.
\<close>

record rtype =
  ty_id :: u64
  ty_size :: nat

definition value_of :: "rtype \<Rightarrow> cell list \<Rightarrow> bool" where
  "value_of T t \<longleftrightarrow> length t = ty_size T \<and> ty_size T < 2 ^ 63"

section \<open>Sync messages\<close>

record sync_message =
  sm_tyid :: u64
  sm_valid :: nat
  sm_payload :: nat

definition alloc_valid :: "heap \<Rightarrow> nat \<times> heap" where
  "alloc_valid h = (valid_lim h,
     h\<lparr>valids := (valids h)(valid_lim h := True), valid_lim := Suc (valid_lim h)\<rparr>)"

definition sync_new :: "rtype \<Rightarrow> cell list \<Rightarrow> (heap, sync_message) oper" where
  "sync_new T t h =
     (case raw_new (of_nat (ty_size T)) h of (rmsg, h1) \<Rightarrow>
        bindO (raw_writestruct rmsg 0 t)
          (\<lambda>_ h2. case alloc_valid h2 of (v, h3) \<Rightarrow>
             (Inr \<lparr>sm_tyid = ty_id T, sm_valid = v, sm_payload = rmsg\<rparr>, h3)) h1)"

definition sync_get_payload :: "rtype \<Rightarrow> sync_message \<Rightarrow> (heap, cell list) oper" where
  "sync_get_payload T m h =
     (if ty_id T \<noteq> sm_tyid m then (Inl WrongType, h)
      else raw_readstructunsafe (sm_payload m) 0 (ty_size T) h)"

definition sync_internal_clone :: "usize \<Rightarrow> sync_message \<Rightarrow> failure + sync_message" where
  "sync_internal_clone key m =
     (if key \<noteq> 0x879 then Inl BadKey
      else Inr \<lparr>sm_tyid = sm_tyid m, sm_valid = sm_valid m, sm_payload = sm_payload m\<rparr>)"

definition takeasvalid :: "sync_message \<Rightarrow> heap \<Rightarrow> bool \<times> heap" where
  "takeasvalid m h =
     (if valids h (sm_valid m) then (True, h\<lparr>valids := (valids h)(sm_valid m := False)\<rparr>)
      else (False, h))"

definition sync_is_type :: "rtype \<Rightarrow> sync_message \<Rightarrow> bool" where
  "sync_is_type T m = (if ty_id T \<noteq> sm_tyid m then False else True)"

section \<open>Clone messages\<close>

record clone_message =
  cm_tyid :: u64
  cm_payload :: nat

definition clonemsg_clone :: "clone_message \<Rightarrow> clone_message" where
  "clonemsg_clone m = \<lparr>cm_tyid = cm_tyid m, cm_payload = cm_payload m\<rparr>"

definition clone_new :: "rtype \<Rightarrow> cell list \<Rightarrow> (heap, clone_message) oper" where
  "clone_new T t h =
     (case raw_new (of_nat (ty_size T)) h of (rmsg, h1) \<Rightarrow>
        bindO (raw_writestruct rmsg 0 t)
          (\<lambda>_. retO \<lparr>cm_tyid = ty_id T, cm_payload = rmsg\<rparr>) h1)"

definition clone_is_type :: "rtype \<Rightarrow> clone_message \<Rightarrow> bool" where
  "clone_is_type T m = (if ty_id T \<noteq> cm_tyid m then False else True)"

definition clone_get_payload :: "rtype \<Rightarrow> clone_message \<Rightarrow> (heap, cell list) oper" where
  "clone_get_payload T m h =
     (if ty_id T \<noteq> cm_tyid m then (Inl WrongType, h)
      else raw_readstructunsafe (cm_payload m) 0 (ty_size T) h)"

section \<open>Messages\<close>

datatype payload = Raw nat | Sync sync_message | Clone clone_message

record message =
  srcsid :: u64
  srceid :: u64
  dstsid :: u64
  dsteid :: u64
  canloop :: bool
  payload :: payload

definition message_clone :: "message \<Rightarrow> failure + message" where
  "message_clone m =
     (case payload m of
        Raw r \<Rightarrow> Inr \<lparr>srcsid = srcsid m, srceid = srceid m, dstsid = dstsid m,
          dsteid = dsteid m, canloop = canloop m, payload = Raw r\<rparr>
      | Clone c \<Rightarrow> Inr \<lparr>srcsid = srcsid m, srceid = srceid m, dstsid = dstsid m,
          dsteid = dsteid m, canloop = canloop m, payload = Clone (clonemsg_clone c)\<rparr>
      | Sync s \<Rightarrow> Inl CloneOfSync)"

definition message_cap :: "message \<Rightarrow> (heap, usize) oper" where
  "message_cap m =
     (case payload m of
        Raw r \<Rightarrow> raw_cap r
      | Sync s \<Rightarrow> raw_cap (sm_payload s)
      | Clone c \<Rightarrow> raw_cap (cm_payload c))"

definition message_internal_clone :: "usize \<Rightarrow> message \<Rightarrow> failure + message" where
  "message_internal_clone key m =
     (if key \<noteq> 0x879 then Inl BadKey
      else case payload m of
             Sync s \<Rightarrow>
               (case sync_internal_clone 0x879 s of
                  Inl f \<Rightarrow> Inl f
                | Inr s' \<Rightarrow> Inr \<lparr>srcsid = srcsid m, srceid = srceid m, dstsid = dstsid m,
                    dsteid = dsteid m, canloop = canloop m, payload = Sync s'\<rparr>)
           | _ \<Rightarrow> message_clone m)"

definition message_dup :: "message \<Rightarrow> (heap, message) oper" where
  "message_dup m =
     (case payload m of
        Raw r \<Rightarrow> bindO (raw_dup r) (\<lambda>r'. retO \<lparr>srcsid = srcsid m, srceid = srceid m,
          dstsid = dstsid m, dsteid = dsteid m, canloop = canloop m, payload = Raw r'\<rparr>)
      | _ \<Rightarrow> failO NotDuplicable)"

definition message_dup_ifok :: "message \<Rightarrow> (heap, message) oper" where
  "message_dup_ifok m =
     (case payload m of
        Raw r \<Rightarrow> bindO (raw_dup r) (\<lambda>r'. retO \<lparr>srcsid = srcsid m, srceid = srceid m,
          dstsid = dstsid m, dsteid = dsteid m, canloop = canloop m, payload = Raw r'\<rparr>)
      | _ \<Rightarrow> retO m)"

text \<open>The accessors by kind; the reference and the consuming variants return the same object.\<close>

definition get_raw :: "message \<Rightarrow> failure + nat" where
  "get_raw m = (case payload m of Raw r \<Rightarrow> Inr r | _ \<Rightarrow> Inl NotRaw)"

definition get_rawmutref :: "message \<Rightarrow> failure + nat" where
  "get_rawmutref m = (case payload m of Raw r \<Rightarrow> Inr r | _ \<Rightarrow> Inl NotRaw)"

definition get_clonemutref :: "message \<Rightarrow> failure + clone_message" where
  "get_clonemutref m = (case payload m of Clone c \<Rightarrow> Inr c | _ \<Rightarrow> Inl NotClone)"

definition get_syncmutref :: "message \<Rightarrow> failure + sync_message" where
  "get_syncmutref m = (case payload m of Sync s \<Rightarrow> Inr s | _ \<Rightarrow> Inl NotSync)"

definition get_rawref :: "message \<Rightarrow> failure + nat" where
  "get_rawref m = (case payload m of Raw r \<Rightarrow> Inr r | _ \<Rightarrow> Inl NotRaw)"

definition typeunwrap :: "rtype \<Rightarrow> message \<Rightarrow> (heap, cell list) oper" where
  "typeunwrap T m =
     (case payload m of
        Clone c \<Rightarrow> clone_get_payload T c
      | Sync s \<Rightarrow> sync_get_payload T s
      | _ \<Rightarrow> failO NotTyped)"

definition get_cloneref :: "message \<Rightarrow> failure + clone_message" where
  "get_cloneref m = (case payload m of Clone c \<Rightarrow> Inr c | _ \<Rightarrow> Inl NotClone)"

definition get_syncref :: "message \<Rightarrow> failure + sync_message" where
  "get_syncref m = (case payload m of Sync s \<Rightarrow> Inr s | _ \<Rightarrow> Inl NotSync)"

definition get_clone :: "message \<Rightarrow> failure + clone_message" where
  "get_clone m = (case payload m of Clone c \<Rightarrow> Inr c | _ \<Rightarrow> Inl NotClone)"

definition get_sync :: "message \<Rightarrow> failure + sync_message" where
  "get_sync m = (case payload m of Sync s \<Rightarrow> Inr s | _ \<Rightarrow> Inl NotSync)"

definition is_clone :: "message \<Rightarrow> bool" where
  "is_clone m = (case payload m of Sync _ \<Rightarrow> False | Raw _ \<Rightarrow> False | Clone _ \<Rightarrow> True)"

definition is_raw :: "message \<Rightarrow> bool" where
  "is_raw m = (case payload m of Sync _ \<Rightarrow> False | Raw _ \<Rightarrow> True | Clone _ \<Rightarrow> False)"

definition is_sync :: "message \<Rightarrow> bool" where
  "is_sync m = (case payload m of Sync _ \<Rightarrow> True | Raw _ \<Rightarrow> False | Clone _ \<Rightarrow> False)"

definition new_fromraw :: "nat \<Rightarrow> message" where
  "new_fromraw r = \<lparr>srcsid = 0, srceid = 0, dstsid = 0, dsteid = 0, canloop = False,
     payload = Raw r\<rparr>"

definition new_raw :: "usize \<Rightarrow> heap \<Rightarrow> message \<times> heap" where
  "new_raw cap h = (case raw_new cap h of (r, h') \<Rightarrow>
     (\<lparr>srcsid = 0, srceid = 0, dstsid = 0, dsteid = 0, canloop = False, payload = Raw r\<rparr>, h'))"

definition new_clone :: "rtype \<Rightarrow> cell list \<Rightarrow> (heap, message) oper" where
  "new_clone T t = bindO (clone_new T t) (\<lambda>c. retO \<lparr>srcsid = 0, srceid = 0, dstsid = 0,
     dsteid = 0, canloop = False, payload = Clone c\<rparr>)"

definition new_sync :: "rtype \<Rightarrow> cell list \<Rightarrow> (heap, message) oper" where
  "new_sync T t = bindO (sync_new T t) (\<lambda>s. retO \<lparr>srcsid = 0, srceid = 0, dstsid = 0,
     dsteid = 0, canloop = False, payload = Sync s\<rparr>)"

text \<open>\<open>is_type\<close>: the references are taken only after the kind was checked.\<close>

definition is_type :: "rtype \<Rightarrow> message \<Rightarrow> bool" where
  "is_type T m =
     (if is_sync m \<and> (case get_syncref m of Inr s \<Rightarrow> sync_is_type T s | Inl _ \<Rightarrow> False) then True
      else if is_clone m \<and> (case get_cloneref m of Inr c \<Rightarrow> clone_is_type T c | Inl _ \<Rightarrow> False)
      then True
      else False)"

text \<open>The buffer a message refers to.\<close>

definition buffer_of :: "message \<Rightarrow> nat" where
  "buffer_of m = (case payload m of Raw r \<Rightarrow> r | Sync s \<Rightarrow> sm_payload s | Clone c \<Rightarrow> cm_payload c)"

section \<open>Lemmas\<close>

lemma kind_simps [simp]:
  "payload m = Raw r \<Longrightarrow> is_raw m" "payload m = Sync s \<Longrightarrow> \<not> is_raw m"
  "payload m = Clone c \<Longrightarrow> \<not> is_raw m"
  "payload m = Raw r \<Longrightarrow> \<not> is_sync m" "payload m = Sync s \<Longrightarrow> is_sync m"
  "payload m = Clone c \<Longrightarrow> \<not> is_sync m"
  "payload m = Raw r \<Longrightarrow> \<not> is_clone m" "payload m = Sync s \<Longrightarrow> \<not> is_clone m"
  "payload m = Clone c \<Longrightarrow> is_clone m"
  by (simp_all add: is_raw_def is_sync_def is_clone_def)

lemma message_eta:
  "\<lparr>srcsid = srcsid m, srceid = srceid m, dstsid = dstsid m, dsteid = dsteid m,
     canloop = canloop m, payload = payload m\<rparr> = m"
  by (cases m) simp

lemma clonemsg_clone_id [simp]: "clonemsg_clone c = c"
  by (cases c) (simp add: clonemsg_clone_def)

lemma sync_internal_clone_id [simp]: "sync_internal_clone 0x879 s = Inr s"
  by (cases s) (simp add: sync_internal_clone_def)

lemma message_clone_eq: "message_clone m = (if is_sync m then Inl CloneOfSync else Inr m)"
  by (cases m; cases "payload m") (simp_all add: message_clone_def)

lemma message_internal_clone_eq [simp]: "message_internal_clone 0x879 m = Inr m"
  by (cases m; cases "payload m") (simp_all add: message_internal_clone_def message_clone_def)

lemma message_cap_eq: "message_cap m = raw_cap (buffer_of m)"
  by (simp add: message_cap_def buffer_of_def split: payload.splits)

lemma message_cap_free [simp]:
  "\<not> poisoned (raws h (buffer_of m)) \<Longrightarrow>
     message_cap m h = (Inr (rcap (guarded (raws h (buffer_of m)))), h)"
  by (simp add: message_cap_eq)

lemma message_cap_poisoned [simp]:
  "poisoned (raws h (buffer_of m)) \<Longrightarrow> message_cap m h = (Inl LockPoisoned, h)"
  by (simp add: message_cap_eq raw_cap_def)

lemma takeasvalid_simps [simp]:
  "raws (snd (takeasvalid s h)) = raws h"
  "raw_lim (snd (takeasvalid s h)) = raw_lim h"
  "valid_lim (snd (takeasvalid s h)) = valid_lim h"
  "fst (takeasvalid s h) = valids h (sm_valid s)"
  "valids (snd (takeasvalid s h)) = (valids h)(sm_valid s := False)"
  by (auto simp: takeasvalid_def fun_upd_idem)

lemma heap_wf_raws: "raws h' = raws h \<Longrightarrow> heap_wf h \<Longrightarrow> heap_wf h'"
  by (simp add: heap_wf_def)

text \<open>A value stored at the start of a buffer.\<close>

definition stored :: "rtype \<Rightarrow> cell list \<Rightarrow> raw_internal \<Rightarrow> bool" where
  "stored T t i \<longleftrightarrow> raw_wf i \<and> ty_size T \<le> unat (rcap i) \<and> window 0 (ty_size T) (rbuf i) = t"

lemma read_stored:
  assumes "stored T t (guarded (raws h a))" and "\<not> poisoned (raws h a)"
  shows "raw_readstructunsafe a 0 (ty_size T) h = (Inr t, h)"
proof -
  have w: "unat (0 :: usize) + ty_size T < 2 ^ 64"
    using assms(1) usize_bound [of "rcap (guarded (raws h a))"] by (simp add: stored_def)
  then have "\<not> 0 + of_nat (ty_size T) > rcap (guarded (raws h a))"
    using assms(1) unat_end [OF w] by (simp add: stored_def not_less word_le_nat_alt)
  from read_struct_fits [OF _ w this] assms show ?thesis
    by (simp add: stored_def raw_readstructunsafe_def raw_readstructunsaferef_def on_raw_look)
qed

lemma unat_size: "value_of T t \<Longrightarrow> unat (of_nat (ty_size T) :: usize) = ty_size T"
  by (intro unat_of_nat_usize) (simp add: value_of_def)

lemma store_value:
  assumes "value_of T t"
  obtains i where "stored T t i" and
    "raw_writestruct (raw_lim h) 0 t (snd (raw_new (of_nat (ty_size T)) h)) =
       (Inr (), snd (alloc_raw i h))"
proof -
  let ?i = "raw_internal_new (of_nat (ty_size T))"
  let ?j = "?i\<lparr>rbuf := overwrite 0 t (rbuf ?i)\<rparr>"
  have len: "length t = ty_size T" "length t < 2 ^ 64" using assms by (simp_all add: value_of_def)
  have cap: "length t \<le> unat (rcap ?i)"
    using unat_size [OF assms] len by (auto simp: raw_internal_new_def Let_def)
  then have "\<not> 0 + of_nat (length t) > rcap ?i"
    using unat_size [OF assms] len by (simp add: not_less word_le_nat_alt)
  with len have "raw_internal_writestructref 0 t ?i = (Inr (), ?j)"
    using write_struct_fits [of ?i 0 t] by simp
  then have "raw_writestruct (raw_lim h) 0 t (snd (raw_new (of_nat (ty_size T)) h)) =
      (Inr (), snd (alloc_raw ?j h))"
    by (simp add: raw_writestruct_def raw_writestructref_def raw_new_def on_raw_def with_lock_def)
      (simp add: alloc_raw_def mutex_new_def)
  moreover have "stored T t ?j"
    using cap len window_overwrite_same [of 0 t "rbuf ?i"] raw_wf_new [of "of_nat (ty_size T)"]
    by (simp add: stored_def raw_wf_def)
  ultimately show ?thesis by (rule that [rotated])
qed

lemma sync_new_eq:
  assumes "value_of T t"
  obtains i where "stored T t i" and
    "sync_new T t h = (Inr \<lparr>sm_tyid = ty_id T, sm_valid = valid_lim h, sm_payload = raw_lim h\<rparr>,
       snd (alloc_valid (snd (alloc_raw i h))))"
proof -
  obtain i where "stored T t i" and
    "raw_writestruct (raw_lim h) 0 t (snd (raw_new (of_nat (ty_size T)) h)) =
       (Inr (), snd (alloc_raw i h))"
    using store_value [OF assms] .
  then show ?thesis
    by (intro that [of i]) (simp_all add: sync_new_def raw_new_def alloc_raw_def alloc_valid_def)
qed

lemma clone_new_eq:
  assumes "value_of T t"
  obtains i where "stored T t i" and
    "clone_new T t h = (Inr \<lparr>cm_tyid = ty_id T, cm_payload = raw_lim h\<rparr>, snd (alloc_raw i h))"
proof -
  obtain i where "stored T t i" and
    "raw_writestruct (raw_lim h) 0 t (snd (raw_new (of_nat (ty_size T)) h)) =
       (Inr (), snd (alloc_raw i h))"
    using store_value [OF assms] .
  then show ?thesis
    by (intro that [of i]) (simp_all add: clone_new_def raw_new_def alloc_raw_def)
qed

lemma foldl_raw_stored:
  assumes "heap_wf h" and "stored T t (guarded (raws h a))" and "\<not> poisoned (raws h a)" and "a < raw_lim h"
    and "list_all (\<lambda>c. \<not> raw_target c a) cs"
  shows "raw_readstructunsafe a 0 (ty_size T) (foldl raw_step h cs) = (Inr t, foldl raw_step h cs)"
  using assms raw_run_frame [OF assms(1,4,5)] by (intro read_stored) simp_all

text \<open>
  C20. A typed message gives back the value that was put in it, to the type it was made for, whatever
  is done to other buffers meanwhile; any other type is refused. Creating one never fails.
\<close>

theorem typed_roundtrip:
  assumes "heap_wf h" and "value_of T t" and "list_all (\<lambda>c. \<not> raw_target c (raw_lim h)) cs"
  shows "\<exists>m h1. (if s then new_sync T t else new_clone T t) h = (Inr m, h1) \<and> is_sync m = s \<and> is_type T m \<and>
    typeunwrap T m (foldl raw_step h1 cs) = (Inr t, foldl raw_step h1 cs) \<and>
    (\<forall>T'. ty_id T' \<noteq> ty_id T \<longrightarrow>
       \<not> is_type T' m \<and> fst (typeunwrap T' m (foldl raw_step h1 cs)) = Inl WrongType)"
proof (cases s)
  case True
  obtain i where i: "stored T t i" and
    n: "sync_new T t h = (Inr \<lparr>sm_tyid = ty_id T, sm_valid = valid_lim h, sm_payload = raw_lim h\<rparr>,
       snd (alloc_valid (snd (alloc_raw i h))))"
    using sync_new_eq [OF assms(2)] .
  define h1 where "h1 = snd (alloc_valid (snd (alloc_raw i h)))"
  have "raw_wf i" using i by (simp add: stored_def)
  then have "heap_wf h1" using assms(1) by (simp add: h1_def alloc_valid_def heap_wf_def)
  with i assms(3) have "raw_readstructunsafe (raw_lim h) 0 (ty_size T) (foldl raw_step h1 cs) =
      (Inr t, foldl raw_step h1 cs)"
    by (intro foldl_raw_stored) (simp_all add: h1_def alloc_valid_def)
  with True n show ?thesis
    by (simp add: new_sync_def h1_def [symmetric] typeunwrap_def sync_get_payload_def is_type_def
      get_syncref_def sync_is_type_def is_sync_def is_clone_def)
next
  case False
  obtain i where i: "stored T t i" and
    n: "clone_new T t h = (Inr \<lparr>cm_tyid = ty_id T, cm_payload = raw_lim h\<rparr>, snd (alloc_raw i h))"
    using clone_new_eq [OF assms(2)] .
  define h1 where "h1 = snd (alloc_raw i h)"
  have "raw_wf i" using i by (simp add: stored_def)
  then have "heap_wf h1" using assms(1) by (simp add: h1_def alloc_raw_wf)
  with i assms(3) have "raw_readstructunsafe (raw_lim h) 0 (ty_size T) (foldl raw_step h1 cs) =
      (Inr t, foldl raw_step h1 cs)"
    by (intro foldl_raw_stored) (simp_all add: h1_def)
  with False n show ?thesis
    by (simp add: new_clone_def h1_def [symmetric] typeunwrap_def clone_get_payload_def is_type_def
      get_cloneref_def clone_is_type_def is_sync_def is_clone_def)
qed

theorem typed_roundtrip_witness:
  "\<exists>m h1. new_sync \<lparr>ty_id = 5, ty_size = 1\<rparr> [Some 7] heap_empty = (Inr m, h1) \<and>
     typeunwrap \<lparr>ty_id = 5, ty_size = 1\<rparr> m (foldl raw_step h1 [CNew 4]) = (Inr [Some 7], foldl raw_step h1 [CNew 4])"
  using typed_roundtrip [of heap_empty "\<lparr>ty_id = 5, ty_size = 1\<rparr>" "[Some 7]" "[CNew 4]" True]
  by (simp add: value_of_def) blast

end
