(* ===== verification/Safe_Queue.thy ===== *)
theory Safe_Queue
  imports Water_Prelude
begin

text \<open>
  The queue interface and the queue of \<open>src/queue.rs\<close> that endpoints use: \<open>SafeQueue\<close>, a vector
  behind a mutex. The interface (locale \<open>fifo\<close>) is what an endpoint relies on: items come out
  once, in the order they were put in, and the length counts those inside. A queue that promises
  this only while it is neither put into when full nor read when empty is a \<open>bounded_fifo\<close>.
\<close>

section \<open>The interface\<close>

datatype 'a qop = Put 'a | Get

text \<open>A run of operations on a queue, with the results of its gets.\<close>

fun fifo_run ::
    "('a \<Rightarrow> 'q \<Rightarrow> 'q) \<Rightarrow> ('q \<Rightarrow> 'a option \<times> 'q) \<Rightarrow> 'a qop list \<Rightarrow> 'q \<Rightarrow> 'a option list \<times> 'q" where
  "fifo_run put get [] q = ([], q)"
| "fifo_run put get (Put x # ops) q = fifo_run put get ops (put x q)"
| "fifo_run put get (Get # ops) q =
     (case get q of (r, q1) \<Rightarrow> case fifo_run put get ops q1 of (rs, q2) \<Rightarrow> (r # rs, q2))"

text \<open>The abstract queue: a list.\<close>

fun list_run :: "'a qop list \<Rightarrow> 'a list \<Rightarrow> 'a option list \<times> 'a list" where
  "list_run [] xs = ([], xs)"
| "list_run (Put x # ops) xs = list_run ops (xs @ [x])"
| "list_run (Get # ops) [] = (case list_run ops [] of (rs, ys) \<Rightarrow> (None # rs, ys))"
| "list_run (Get # ops) (x # xs) = (case list_run ops xs of (rs, ys) \<Rightarrow> (Some x # rs, ys))"

fun puts :: "'a qop list \<Rightarrow> 'a list" where
  "puts [] = []"
| "puts (Put x # ops) = x # puts ops"
| "puts (Get # ops) = puts ops"

definition taken :: "'a option list \<Rightarrow> 'a list" where
  "taken rs = map the (filter (\<lambda>r. r \<noteq> None) rs)"

text \<open>Nothing is lost, repeated or reordered by the abstract queue.\<close>

lemma list_run_conserves: "list_run ops xs = (rs, ys) \<Longrightarrow> xs @ puts ops = taken rs @ ys"
  by (induction ops xs arbitrary: rs ys rule: list_run.induct)
    (fastforce simp: taken_def split: prod.splits)+

text \<open>
  Runs that never put into a full queue and never get from an empty one. \<open>fits n\<close> says whether a
  queue with \<open>n\<close> items takes another one.
\<close>

fun proper :: "(nat \<Rightarrow> bool) \<Rightarrow> 'a qop list \<Rightarrow> nat \<Rightarrow> bool" where
  "proper fits [] n = True"
| "proper fits (Put x # ops) n = (fits n \<and> proper fits ops (Suc n))"
| "proper fits (Get # ops) n = (n > 0 \<and> proper fits ops (n - 1))"

text \<open>What a bounded queue promises: nothing for a put when full or a get when empty.\<close>

locale bounded_fifo =
  fixes empty :: "'q"
    and put :: "'a \<Rightarrow> 'q \<Rightarrow> 'q"
    and get :: "'q \<Rightarrow> 'a option \<times> 'q"
    and items :: "'q \<Rightarrow> 'a list"
    and ok :: "'q \<Rightarrow> bool"
    and fits :: "nat \<Rightarrow> bool"
  assumes items_empty: "items empty = []"
    and items_put: "ok q \<Longrightarrow> fits (length (items q)) \<Longrightarrow> items (put x q) = items q @ [x]"
    and get_item: "ok q \<Longrightarrow> items q = x # xs \<Longrightarrow> get q = (r, q') \<Longrightarrow> r = Some x \<and> items q' = xs"
    and ok_empty: "ok empty"
    and ok_put: "ok q \<Longrightarrow> fits (length (items q)) \<Longrightarrow> ok (put x q)"
    and ok_get: "ok q \<Longrightarrow> items q \<noteq> [] \<Longrightarrow> get q = (r, q') \<Longrightarrow> ok q'"
begin

lemma proper_run_refines:
  "ok q \<Longrightarrow> proper fits ops (length (items q)) \<Longrightarrow> fifo_run put get ops q = (rs, q') \<Longrightarrow>
     ok q' \<and> list_run ops (items q) = (rs, items q')"
proof (induction ops arbitrary: q rs)
  case Nil
  then show ?case by simp
next
  case (Cons op ops)
  show ?case
  proof (cases op)
    case (Put x)
    with Cons.IH [of "put x q" rs] Cons.prems show ?thesis by (simp add: items_put ok_put)
  next
    case Get
    obtain r q1 where g: "get q = (r, q1)" by (meson surj_pair)
    obtain rs1 q2 where t: "fifo_run put get ops q1 = (rs1, q2)" by (meson surj_pair)
    have eq: "rs = r # rs1" "q' = q2" using Cons.prems Get g t by simp_all
    from Cons.prems(2) Get obtain x xs where xs: "items q = x # xs" by (cases "items q") auto
    with get_item [OF Cons.prems(1) xs g] ok_get [OF Cons.prems(1) _ g] Cons.prems(2) Get
    have "ok q1" "items q1 = xs" "r = Some x" "proper fits ops (length (items q1))" by simp_all
    with Cons.IH [of q1 rs1] t eq xs Get show ?thesis by simp
  qed
qed

end

locale fifo =
  fixes empty :: "'q"
    and put :: "'a \<Rightarrow> 'q \<Rightarrow> 'q"
    and get :: "'q \<Rightarrow> 'a option \<times> 'q"
    and qlen :: "'q \<Rightarrow> usize"
    and items :: "'q \<Rightarrow> 'a list"
    and ok :: "'q \<Rightarrow> bool"
  assumes items_empty: "items empty = []"
    and items_put: "ok q \<Longrightarrow> items (put x q) = items q @ [x]"
    and get_empty: "ok q \<Longrightarrow> items q = [] \<Longrightarrow> get q = (r, q') \<Longrightarrow> r = None \<and> items q' = []"
    and get_item: "ok q \<Longrightarrow> items q = x # xs \<Longrightarrow> get q = (r, q') \<Longrightarrow> r = Some x \<and> items q' = xs"
    and qlen_items: "ok q \<Longrightarrow> qlen q = of_nat (length (items q))"
    and ok_empty: "ok empty"
    and ok_put: "ok q \<Longrightarrow> ok (put x q)"
    and ok_get: "ok q \<Longrightarrow> get q = (r, q') \<Longrightarrow> ok q'"
begin

text \<open>Every run is a run of the abstract queue.\<close>

lemma run_refines:
  "ok q \<Longrightarrow> fifo_run put get ops q = (rs, q') \<Longrightarrow>
     ok q' \<and> list_run ops (items q) = (rs, items q')"
proof (induction ops arbitrary: q rs)
  case Nil
  then show ?case by simp
next
  case (Cons op ops)
  show ?case
  proof (cases op)
    case (Put x)
    with Cons.IH [of "put x q" rs] Cons.prems show ?thesis by (simp add: items_put ok_put)
  next
    case Get
    obtain r q1 where g: "get q = (r, q1)" by (meson surj_pair)
    obtain rs1 q2 where t: "fifo_run put get ops q1 = (rs1, q2)" by (meson surj_pair)
    have eq: "rs = r # rs1" "q' = q2" using Cons.prems Get g t by simp_all
    have IH: "ok q2" "list_run ops (items q1) = (rs1, items q2)"
      using Cons.IH [of q1 rs1] t eq ok_get [OF Cons.prems(1) g] by simp_all
    show ?thesis
    proof (cases "items q")
      case Nil
      with get_empty [OF Cons.prems(1) _ g] IH eq Get show ?thesis by simp
    next
      case (Cons x xs)
      with get_item [OF Cons.prems(1) _ g] IH eq Get show ?thesis by simp
    qed
  qed
qed

lemma run_from_empty:
  "fifo_run put get ops empty = (rs, q') \<Longrightarrow> list_run ops [] = (rs, items q')"
  using run_refines [OF ok_empty] by (simp add: items_empty)

lemma get_less: "ok q \<Longrightarrow> get q = (Some x, q') \<Longrightarrow> length (items q') < length (items q)"
  by (cases "items q") (auto dest: get_empty get_item)

lemma get_Some: "ok q \<Longrightarrow> get q = (Some x, q') \<Longrightarrow> items q = x # items q'"
  by (cases "items q") (auto dest: get_empty get_item)

lemma get_None: "ok q \<Longrightarrow> get q = (None, q') \<Longrightarrow> items q = [] \<and> items q' = []"
  by (cases "items q") (auto dest: get_empty get_item)

end

text \<open>A queue without a bound is a bounded queue that always has room.\<close>

sublocale fifo \<subseteq> bounded: bounded_fifo empty put get items ok "\<lambda>_. True"
  by unfold_locales (auto simp: items_empty items_put ok_empty ok_put dest: get_item ok_get)

section \<open>SafeQueue\<close>

record 'a safe_queue =
  vec :: "'a list"

definition sq_new :: "usize \<Rightarrow> 'a safe_queue" where
  "sq_new buf = \<lparr>vec = []\<rparr>"

definition sq_put :: "'a \<Rightarrow> 'a safe_queue \<Rightarrow> 'a safe_queue" where
  "sq_put t q = q\<lparr>vec := vec q @ [t]\<rparr>"

definition sq_get :: "'a safe_queue \<Rightarrow> 'a option \<times> 'a safe_queue" where
  "sq_get q =
     (if length (vec q) < 1 then (None, q) else (Some (hd (vec q)), q\<lparr>vec := tl (vec q)\<rparr>))"

definition sq_len :: "'a safe_queue \<Rightarrow> usize" where
  "sq_len q = of_nat (length (vec q))"

lemma sq_put_vec [simp]: "vec (sq_put t q) = vec q @ [t]"
  by (simp add: sq_put_def)

interpretation sq: fifo "sq_new b" sq_put sq_get sq_len vec "\<lambda>_. True" for b
  by unfold_locales (auto simp: sq_new_def sq_get_def sq_len_def split: if_splits)

lemma sq_get_simps [simp]:
  "vec q = [] \<Longrightarrow> sq_get q = (None, q)"
  "vec q = x # xs \<Longrightarrow> sq_get q = (Some x, q\<lparr>vec := xs\<rparr>)"
  by (simp_all add: sq_get_def)

text \<open>
  \<open>SafeQueue\<close> is a first-in first-out queue: any run of puts and gets on a new queue
  returns what the list model returns, and the items put in are those taken out, in order,
  followed by those left inside.
\<close>

lemma safe_queue_fifo:
  "list_run ops [] = (fst (fifo_run sq_put sq_get ops (sq_new b)),
     vec (snd (fifo_run sq_put sq_get ops (sq_new b)))) \<and>
   puts ops = taken (fst (fifo_run sq_put sq_get ops (sq_new b))) @
     vec (snd (fifo_run sq_put sq_get ops (sq_new b)))"
proof -
  obtain rs q where r: "fifo_run sq_put sq_get ops (sq_new b) = (rs, q)" by (meson surj_pair)
  then have l: "list_run ops [] = (rs, vec q)" by (rule sq.run_from_empty)
  with list_run_conserves [OF l] r show ?thesis by simp
qed

end
