(* ===== verification/Endpoint.thy ===== *)
theory Endpoint
  imports Message Safe_Queue Timespec
begin

text \<open>
  \<open>src/endpoint.rs\<close>: results of I/O, the sleep token, and the endpoint: its address, its queue of
  messages, its limits and its memory account. An endpoint is shared by handles; its
  operations here act on the pair of the heap (where messages live) and the endpoint's own
  state. Operations that need the net are in \<open>Net\<close>.

  Each operation is one atomic step except the blocking receive, whose waits release the lock:
  there, what other threads did to the state while the caller slept is an argument.
\<close>

section \<open>Results\<close>

datatype io_error_code = TimedOut | NoMessages

record io_error =
  code :: io_error_code

datatype 'a io_result = Err io_error | Ok 'a

definition io_ok :: "'a io_result \<Rightarrow> failure + 'a" where
  "io_ok r = (case r of Ok v \<Rightarrow> Inr v | Err e \<Rightarrow> Inl NotOk)"

definition io_unwrap :: "'a io_result \<Rightarrow> failure + 'a" where
  "io_unwrap r = io_ok r"

definition io_err :: "'a io_result \<Rightarrow> failure + io_error" where
  "io_err r = (case r of Ok v \<Rightarrow> Inl NotErr | Err e \<Rightarrow> Inr e)"

definition io_is_ok :: "'a io_result \<Rightarrow> bool" where
  "io_is_ok r = (case r of Ok _ \<Rightarrow> True | Err _ \<Rightarrow> False)"

definition io_is_err :: "'a io_result \<Rightarrow> bool" where
  "io_is_err r = (case r of Ok _ \<Rightarrow> False | Err _ \<Rightarrow> True)"

lemma io_simps [simp]:
  "io_is_ok (Ok x)" "\<not> io_is_ok (Err e)" "io_is_err (Err e)" "\<not> io_is_err (Ok x)"
  "io_ok (Ok x) = Inr x" "io_unwrap (Ok x) = Inr x" "io_err (Err e) = Inr e"
  "io_ok (Err e) = Inl NotOk" "io_unwrap (Err e) = Inl NotOk" "io_err (Ok x) = Inl NotErr"
  by (simp_all add: io_is_ok_def io_is_err_def io_ok_def io_unwrap_def io_err_def)

section \<open>Condition variables\<close>

text \<open>
  A condition variable of the standard library: the threads asleep on it, and those that were
  notified and have not run yet.
\<close>

record condvar =
  cv_waiting :: nat
  cv_woken :: nat

definition condvar_new :: condvar where
  "condvar_new = \<lparr>cv_waiting = 0, cv_woken = 0\<rparr>"

definition cv_wait :: "condvar \<Rightarrow> condvar" where
  "cv_wait c = c\<lparr>cv_waiting := Suc (cv_waiting c)\<rparr>"

definition notify_one :: "condvar \<Rightarrow> condvar" where
  "notify_one c =
     (if cv_waiting c = 0 then c
      else c\<lparr>cv_waiting := cv_waiting c - 1, cv_woken := Suc (cv_woken c)\<rparr>)"

definition notify_all :: "condvar \<Rightarrow> condvar" where
  "notify_all c = c\<lparr>cv_waiting := 0, cv_woken := cv_woken c + cv_waiting c\<rparr>"

record sleep_token =
  st_condvar :: condvar
  st_mutex :: "unit mutex"

definition sleep_token_new :: sleep_token where
  "sleep_token_new = \<lparr>st_condvar = condvar_new, st_mutex = mutex_new ()\<rparr>"

definition sleep_token_wait :: "(sleep_token, unit) oper" where
  "sleep_token_wait s =
     (if poisoned (st_mutex s) then (Inl LockPoisoned, s)
      else (Inr (), s\<lparr>st_condvar := cv_wait (st_condvar s)\<rparr>))"

definition sleep_token_notify_all :: "sleep_token \<Rightarrow> sleep_token" where
  "sleep_token_notify_all s = s\<lparr>st_condvar := notify_all (st_condvar s)\<rparr>"

section \<open>The endpoint\<close>

record address_data =
  eid :: u64
  sid :: u64
  gid :: u64

text \<open>A handle on a net: which net, and the net's id (a copy in every handle).\<close>

record net_handle =
  net_i :: nat
  net_sid :: u64

definition UNUSED_ID :: u64 where
  "UNUSED_ID = NOT 0"

record endpoint =
  stoken :: sleep_token
  waitmutex :: "bool mutex"
  ep_wait :: condvar
  messages :: "message safe_queue"
  wakeupat :: timespec
  memoryused :: usize
  net :: net_handle
  dropped :: bool
  refcnt :: usize
  slpcnt :: usize
  limitpending :: usize
  limitmemory :: usize
  address :: address_data

definition endpoint_new :: "u64 \<Rightarrow> u64 \<Rightarrow> net_handle \<Rightarrow> endpoint" where
  "endpoint_new s e n =
     \<lparr>stoken = sleep_token_new, waitmutex = mutex_new False, ep_wait = condvar_new,
      messages = sq_new 10, wakeupat = Timespec 0x7fffffffffffffff 0, memoryused = 0, net = n,
      dropped = False, refcnt = 1, slpcnt = 0, limitpending = 0, limitmemory = 0,
      address = \<lparr>eid = e, sid = s, gid = UNUSED_ID\<rparr>\<rparr>"

definition neverwakeme :: "endpoint \<Rightarrow> endpoint" where
  "neverwakeme e = e\<lparr>wakeupat := Timespec 0x7fffffffffffffff 0\<rparr>"

type_synonym ep_state = "heap \<times> endpoint"

text \<open>
  \<open>Internal::recv\<close>: take messages from the queue until one can be returned. A raw message is
  returned as a duplicate of a duplicate; a sync message only if its flag was still set; other
  sync messages are thrown away.
\<close>

function ep_recv :: "(ep_state, message io_result) oper" where
  "ep_recv (h, e) =
     (case sq_get (messages e) of
        (None, q) \<Rightarrow> (Inr (Err \<lparr>code = NoMessages\<rparr>), (h, e\<lparr>messages := q\<rparr>))
      | (Some m, q) \<Rightarrow>
         (let e1 = e\<lparr>messages := q\<rparr> in
          case message_dup_ifok m h of
            (Inl f, h1) \<Rightarrow> (Inl f, (h1, e1))
          | (Inr m1, h1) \<Rightarrow>
             (case message_cap m1 h1 of
                (Inl f, h2) \<Rightarrow> (Inl f, (h2, e1))
              | (Inr sz, h2) \<Rightarrow>
                 (let e2 = e1\<lparr>memoryused := memoryused e1 - sz\<rparr> in
                  case payload m1 of
                    Raw _ \<Rightarrow>
                      (case message_dup m1 h2 of
                         (Inl f, h3) \<Rightarrow> (Inl f, (h3, e2))
                       | (Inr m2, h3) \<Rightarrow> (Inr (Ok m2), (h3, e2)))
                  | Sync s \<Rightarrow>
                      (case takeasvalid s h2 of
                         (True, h3) \<Rightarrow> (Inr (Ok m1), (h3, e2))
                       | (False, h3) \<Rightarrow> ep_recv (h3, e2))
                  | Clone _ \<Rightarrow> (Inr (Ok m1), (h2, e2))))))"
  by pat_completeness auto
termination
proof (relation "measure (\<lambda>(h, e). length (vec (messages e)))", goal_cases)
  case 1
  then show ?case by simp
next
  case 2
  then show ?case by (auto dest: sq.get_less [OF TrueI, OF sym])
qed

declare ep_recv.simps [simp del]

definition wakeonewaiter :: "endpoint \<Rightarrow> endpoint" where
  "wakeonewaiter e = e\<lparr>ep_wait := notify_one (ep_wait e)\<rparr>"

text \<open>
  \<open>give\<close> up to the end of its locked block: routing, limits, and the message put in the queue.
  The wake-up follows after the lock was released, so it is a step of its own.
\<close>

definition give_put :: "message \<Rightarrow> (ep_state, bool) oper" where
  "give_put msg he =
     (case he of (h, e) \<Rightarrow>
      let myeid = eid (address e); mysid = sid (address e) in
      if \<not> canloop msg \<and> srceid msg = myeid \<and> srcsid msg = mysid then (Inr False, (h, e))
      else if dstsid msg \<noteq> 0 \<and>
        (if dstsid msg \<noteq> 1 then dstsid msg \<noteq> mysid else mysid \<noteq> net_sid (net e))
      then (Inr False, (h, e))
      else if dsteid msg \<noteq> 0 \<and> dsteid msg \<noteq> myeid then (Inr False, (h, e))
      else if limitpending e > 0 \<and> sq_len (messages e) \<ge> limitpending e
      then (Inr False, (h, e))
      else if limitmemory e > 0 \<and> memoryused e \<ge> limitmemory e then (Inr False, (h, e))
      else
        case (if is_sync msg then message_internal_clone 0x879 msg else message_clone msg) of
          Inl f \<Rightarrow> (Inl f, (h, e))
        | Inr cloned \<Rightarrow>
            if poisoned (waitmutex e) then (Inl LockPoisoned, (h, e))
            else
              let e1 = e\<lparr>messages := sq_put cloned (messages e)\<rparr> in
              case message_cap msg h of
                (Inl f, h1) \<Rightarrow> (Inl f, (h1, e1\<lparr>waitmutex := (waitmutex e1)\<lparr>poisoned := True\<rparr>\<rparr>))
              | (Inr sz, h1) \<Rightarrow> (Inr True, (h1, e1\<lparr>memoryused := memoryused e1 + sz\<rparr>)))"

definition give :: "message \<Rightarrow> (ep_state, bool) oper" where
  "give msg he =
     (case give_put msg he of
        (Inr True, (h, e)) \<Rightarrow> (Inr True, (h, wakeonewaiter e))
      | (r, he') \<Rightarrow> (r, he'))"

definition sleepercount :: "endpoint \<Rightarrow> usize" where
  "sleepercount e = slpcnt e"

definition hasmessages :: "endpoint \<Rightarrow> bool" where
  "hasmessages e = (if sq_len (messages e) > 0 then True else False)"

definition getwaketime :: "endpoint \<Rightarrow> timespec" where
  "getwaketime e = wakeupat e"

definition getrefcnt :: "endpoint \<Rightarrow> usize" where
  "getrefcnt e = refcnt e"

definition setlimitpending :: "usize \<Rightarrow> endpoint \<Rightarrow> endpoint" where
  "setlimitpending l e = e\<lparr>limitpending := l\<rparr>"

definition setlimitmemory :: "usize \<Rightarrow> endpoint \<Rightarrow> endpoint" where
  "setlimitmemory l e = e\<lparr>limitmemory := l\<rparr>"

definition getsid :: "endpoint \<Rightarrow> u64" where
  "getsid e = sid (address e)"

definition geteid :: "endpoint \<Rightarrow> u64" where
  "geteid e = eid (address e)"

definition getgid :: "endpoint \<Rightarrow> u64" where
  "getgid e = gid (address e)"

definition setgid :: "u64 \<Rightarrow> endpoint \<Rightarrow> endpoint" where
  "setgid i e = e\<lparr>address := (address e)\<lparr>gid := i\<rparr>\<rparr>"

definition setsid :: "u64 \<Rightarrow> endpoint \<Rightarrow> endpoint" where
  "setsid i e = e\<lparr>address := (address e)\<lparr>sid := i\<rparr>\<rparr>"

definition seteid :: "u64 \<Rightarrow> endpoint \<Rightarrow> endpoint" where
  "seteid i e = e\<lparr>address := (address e)\<lparr>eid := i\<rparr>\<rparr>"

section \<open>Receiving\<close>

text \<open>\<open>Endpoint::recv\<close>: without the wait lock.\<close>

definition endpoint_recv :: "(ep_state, message io_result) oper" where
  "endpoint_recv = ep_recv"

text \<open>A receive while the wait lock is held: a panic poisons it.\<close>

definition recv_locked :: "(ep_state, message io_result) oper" where
  "recv_locked st =
     (case ep_recv st of
        (Inl f, (h, e)) \<Rightarrow> (Inl f, (h, e\<lparr>waitmutex := (waitmutex e)\<lparr>poisoned := True\<rparr>\<rparr>))
      | (Inr r, st') \<Rightarrow> (Inr r, st'))"

text \<open>
  One wait on the condition variable: what the rest of the program did to the state before the
  lock was taken again, and the flag \<open>wait_timeout\<close> returns, which is false only if the timeout
  elapsed. Taking the lock again fails when it was poisoned meanwhile.
\<close>

record wait_event =
  we_env :: "ep_state \<Rightarrow> ep_state"
  we_notified :: bool

text \<open>\<open>None\<close>: still blocked when the events end.\<close>

fun forever_loop :: "wait_event list \<Rightarrow> ep_state \<Rightarrow> ((failure + message io_result) \<times> ep_state) option" where
  "forever_loop [] st = None"
| "forever_loop (w # ws) st =
     (let st1 = we_env w st in
      if poisoned (waitmutex (snd st1)) then Some (Inl LockPoisoned, st1)
      else case recv_locked st1 of
             (Inl f, st2) \<Rightarrow> Some (Inl f, st2)
           | (Inr r, st2) \<Rightarrow> if io_is_ok r then Some (Inr r, st2) else forever_loop ws st2)"

definition endpoint_recvorblockforever ::
    "wait_event list \<Rightarrow> ep_state \<Rightarrow> ((failure + message io_result) \<times> ep_state) option" where
  "endpoint_recvorblockforever ws st =
     (if poisoned (waitmutex (snd st)) then Some (Inl LockPoisoned, st)
      else case recv_locked st of
             (Inl f, st1) \<Rightarrow> Some (Inl f, st1)
           | (Inr r, st1) \<Rightarrow> if io_is_ok r then Some (Inr r, st1) else forever_loop ws st1)"

fun timeout_loop :: "wait_event list \<Rightarrow> ep_state \<Rightarrow> ((failure + message io_result) \<times> ep_state) option" where
  "timeout_loop [] st = None"
| "timeout_loop (w # ws) st =
     (let st1 = we_env w st; expired = we_notified w in
      if poisoned (waitmutex (snd st1)) then Some (Inl LockPoisoned, st1)
      else case recv_locked st1 of
             (Inl f, st2) \<Rightarrow> Some (Inl f, st2)
           | (Inr r, st2) \<Rightarrow>
               if io_is_ok r then Some (Inr r, st2)
               else if \<not> expired then Some (Inr (Err \<lparr>code = TimedOut\<rparr>), st2)
               else timeout_loop ws st2)"

definition endpoint_recvorblock ::
    "wait_event list \<Rightarrow> ep_state \<Rightarrow> ((failure + message io_result) \<times> ep_state) option" where
  "endpoint_recvorblock ws st =
     (if poisoned (waitmutex (snd st)) then Some (Inl LockPoisoned, st)
      else case recv_locked st of
             (Inl f, st1) \<Rightarrow> Some (Inl f, st1)
           | (Inr r, st1) \<Rightarrow> if io_is_ok r then Some (Inr r, st1) else timeout_loop ws st1)"

text \<open>
  The functions over several endpoints: a table of endpoints beside the heap. The loops poll;
  between two rounds the rest of the program runs, and the clock (external) is read.
\<close>

type_synonym eps_state = "heap \<times> (nat \<Rightarrow> endpoint)"

definition recv_at :: "nat \<Rightarrow> (eps_state, message io_result) oper" where
  "recv_at i st =
     (case ep_recv (fst st, snd st i) of (r, (h, e)) \<Rightarrow> (r, (h, (snd st)(i := e))))"

fun recv_list :: "nat list \<Rightarrow> (eps_state, message io_result) oper" where
  "recv_list [] st = (Inr (Err \<lparr>code = NoMessages\<rparr>), st)"
| "recv_list (i # is) st =
     (case recv_at i st of
        (Inl f, st1) \<Rightarrow> (Inl f, st1)
      | (Inr r, st1) \<Rightarrow> if io_is_ok r then (Inr r, st1) else recv_list is st1)"

fun recvorblockforever_list ::
    "nat list \<Rightarrow> (eps_state \<Rightarrow> eps_state) list \<Rightarrow> eps_state \<Rightarrow>
       ((failure + message io_result) \<times> eps_state) option" where
  "recvorblockforever_list is [] st = None"
| "recvorblockforever_list is (yield # ys) st =
     (case recv_list is st of
        (Inl f, st1) \<Rightarrow> Some (Inl f, st1)
      | (Inr r, st1) \<Rightarrow>
          if io_is_ok r then Some (Inr r, st1) else recvorblockforever_list is ys (yield st1))"

text \<open>\<open>deadline\<close> is \<open>get_time() + duration\<close>; each round reads the clock once.\<close>

fun recvorblock_list ::
    "timespec \<Rightarrow> nat list \<Rightarrow> (timespec \<times> (eps_state \<Rightarrow> eps_state)) list \<Rightarrow> eps_state \<Rightarrow>
       ((failure + message io_result) \<times> eps_state) option" where
  "recvorblock_list deadline is [] st = None"
| "recvorblock_list deadline is ((now, yield) # ys) st =
     (case recv_list is st of
        (Inl f, st1) \<Rightarrow> Some (Inl f, st1)
      | (Inr r, st1) \<Rightarrow>
          if io_is_ok r then Some (Inr r, st1)
          else if now > deadline then Some (Inr (Err \<lparr>code = TimedOut\<rparr>), st1)
          else recvorblock_list deadline is ys (yield st1))"

section \<open>Giving: routing, limits, effect\<close>

text \<open>Whether a message is for an endpoint, as the addresses are documented.\<close>

definition addressed :: "endpoint \<Rightarrow> message \<Rightarrow> bool" where
  "addressed e m \<longleftrightarrow>
     (canloop m \<or> srceid m \<noteq> eid (address e) \<or> srcsid m \<noteq> sid (address e)) \<and>
     (dstsid m = 0 \<or> dstsid m = 1 \<and> sid (address e) = net_sid (net e) \<or>
      dstsid m \<noteq> 1 \<and> dstsid m = sid (address e)) \<and>
     (dsteid m = 0 \<or> dsteid m = eid (address e))"

definition has_room :: "endpoint \<Rightarrow> bool" where
  "has_room e \<longleftrightarrow>
     (limitpending e = 0 \<or> sq_len (messages e) < limitpending e) \<and>
     (limitmemory e = 0 \<or> memoryused e < limitmemory e)"

definition enqueue :: "heap \<Rightarrow> message \<Rightarrow> endpoint \<Rightarrow> endpoint" where
  "enqueue h m e = e\<lparr>messages := \<lparr>vec = vec (messages e) @ [m]\<rparr>,
     memoryused := memoryused e + rcap (guarded (raws h (buffer_of m)))\<rparr>"

lemma give_put_refuse:
  "\<not> (addressed e m \<and> has_room e) \<Longrightarrow> give_put m (h, e) = (Inr False, (h, e))"
  by (auto simp: give_put_def Let_def addressed_def has_room_def not_less word_gt_0)

lemma give_put_take:
  assumes "addressed e m \<and> has_room e"
  shows "give_put m (h, e) =
     (if poisoned (waitmutex e) then (Inl LockPoisoned, (h, e))
      else let e1 = e\<lparr>messages := sq_put m (messages e)\<rparr> in
           case message_cap m h of
             (Inl f, h1) \<Rightarrow> (Inl f, (h1, e1\<lparr>waitmutex := (waitmutex e1)\<lparr>poisoned := True\<rparr>\<rparr>))
           | (Inr sz, h1) \<Rightarrow> (Inr True, (h1, e1\<lparr>memoryused := memoryused e1 + sz\<rparr>)))"
proof -
  have c: "(if is_sync m then message_internal_clone 0x879 m else message_clone m) = Inr m"
    by (simp add: message_clone_eq)
  have "(\<not> canloop m \<and> srceid m = eid (address e) \<and> srcsid m = sid (address e)) = False"
    "(dstsid m \<noteq> 0 \<and> (if dstsid m \<noteq> 1 then dstsid m \<noteq> sid (address e)
      else sid (address e) \<noteq> net_sid (net e))) = False"
    "(dsteid m \<noteq> 0 \<and> dsteid m \<noteq> eid (address e)) = False"
    "(limitpending e > 0 \<and> sq_len (messages e) \<ge> limitpending e) = False"
    "(limitmemory e > 0 \<and> memoryused e \<ge> limitmemory e) = False"
    using assms by (auto simp: addressed_def has_room_def not_le)
  then show ?thesis by (simp only: give_put_def Let_def prod.case c if_False sum.case)
qed

lemma give_put_eq:
  assumes "\<not> poisoned (waitmutex e)" and "\<not> poisoned (raws h (buffer_of m))"
  shows "give_put m (h, e) =
    (if addressed e m \<and> has_room e then (Inr True, (h, enqueue h m e)) else (Inr False, (h, e)))"
  using assms by (auto simp: give_put_take give_put_refuse enqueue_def sq_put_def)

lemma give_put_Inr:
  assumes "give_put m (h, e) = (Inr b, st)"
  shows "b = (addressed e m \<and> has_room e) \<and> st = (h, if b then enqueue h m e else e)"
proof (cases "addressed e m \<and> has_room e")
  case True
  with assms have "\<not> poisoned (waitmutex e)" "\<not> poisoned (raws h (buffer_of m))"
    by (auto simp: give_put_take Let_def split: if_splits)
  from give_put_eq [OF this] assms True show ?thesis by auto
next
  case False
  with assms show ?thesis by (auto simp: give_put_refuse)
qed

lemma give_eq:
  assumes "\<not> poisoned (waitmutex e)" and "\<not> poisoned (raws h (buffer_of m))"
  shows "give m (h, e) =
    (if addressed e m \<and> has_room e then (Inr True, (h, wakeonewaiter (enqueue h m e)))
     else (Inr False, (h, e)))"
  by (simp add: give_def give_put_eq [OF assms])

lemma give_Inr:
  assumes "give m (h, e) = (Inr b, st)"
  shows "b = (addressed e m \<and> has_room e) \<and>
    st = (h, if b then wakeonewaiter (enqueue h m e) else e)"
proof -
  obtain r h1 e1 where g: "give_put m (h, e) = (r, (h1, e1))" by (metis prod.collapse)
  with assms have r: "r = Inr b" by (auto simp: give_def split: sum.splits bool.splits)
  with g assms give_put_Inr [OF g [unfolded r]] show ?thesis
    by (auto simp: give_def split: bool.splits if_splits)
qed

text \<open>
  C2. What \<open>give\<close> does: the message is refused, with no change, unless the endpoint is one of
  its addressees and is below both limits; otherwise the same message goes to the back of the
  queue, its capacity is charged to the memory account and one sleeper is woken.
\<close>

theorem give_outcome:
  assumes "\<not> poisoned (waitmutex e)" and "\<not> poisoned (raws h (buffer_of m))"
  shows "give m (h, e) =
    (if addressed e m \<and> has_room e
     then (Inr True, (h, e\<lparr>messages := \<lparr>vec = vec (messages e) @ [m]\<rparr>,
             memoryused := memoryused e + rcap (guarded (raws h (buffer_of m))),
             ep_wait := notify_one (ep_wait e)\<rparr>))
     else (Inr False, (h, e)))"
  using give_eq [OF assms] by (simp add: enqueue_def wakeonewaiter_def)

definition demo_net :: net_handle where
  "demo_net = \<lparr>net_i = 0, net_sid = 100\<rparr>"

definition demo_msg :: "u64 \<Rightarrow> u64 \<Rightarrow> message" where
  "demo_msg s d = (new_fromraw 0)\<lparr>dstsid := s, dsteid := d\<rparr>"

lemmas demo_defs = demo_net_def demo_msg_def new_fromraw_def endpoint_new_def heap_empty_def
  buffer_of_def

theorem give_outcome_witness:
  "fst (give (demo_msg 1 7) (heap_empty, endpoint_new 100 7 demo_net)) = Inr True \<and>
   fst (give (demo_msg 1 8) (heap_empty, endpoint_new 100 7 demo_net)) = Inr False"
proof -
  let ?e = "endpoint_new 100 7 demo_net"
  have w: "\<not> poisoned (waitmutex ?e)" and b: "\<And>d. \<not> poisoned (raws heap_empty (buffer_of (demo_msg 1 d)))"
    by (simp_all add: demo_defs)
  show ?thesis
    unfolding give_outcome [OF w b]
    by (simp add: addressed_def has_room_def demo_defs)
qed

section \<open>Receiving: which message, in what state\<close>

text \<open>A sync message that some receiver took already.\<close>

definition stale :: "heap \<Rightarrow> message \<Rightarrow> bool" where
  "stale h m = (case payload m of Sync s \<Rightarrow> \<not> valids h (sm_valid s) | _ \<Rightarrow> False)"

definition caps :: "heap \<Rightarrow> message list \<Rightarrow> usize" where
  "caps h ms = (\<Sum>m\<leftarrow>ms. rcap (guarded (raws h (buffer_of m))))"

lemma caps_simps [simp]:
  "caps h [] = 0"
  "caps h (m # ms) = rcap (guarded (raws h (buffer_of m))) + caps h ms"
  "caps h (xs @ ys) = caps h xs + caps h ys"
  by (simp_all add: caps_def)

text \<open>The queue's messages refer to buffers that exist and whose locks are not poisoned.\<close>

definition queue_ok :: "heap \<Rightarrow> endpoint \<Rightarrow> bool" where
  "queue_ok h e \<longleftrightarrow>
     (\<forall>m \<in> set (vec (messages e)). buffer_of m < raw_lim h \<and> \<not> poisoned (raws h (buffer_of m)))"

text \<open>The state a raw message leaves behind: two duplicates, the second one returned.\<close>

definition dup_of :: "raw_internal \<Rightarrow> raw_internal" where
  "dup_of i = \<lparr>rlen = rcap i, rcap = rcap i, rbuf = rbuf i\<rparr>"

definition dup_twice :: "nat \<Rightarrow> heap \<Rightarrow> heap" where
  "dup_twice r h = snd (alloc_raw (dup_of (guarded (raws h r)))
     (snd (alloc_raw (dup_of (guarded (raws h r))) h)))"

lemma dup_of_wf [simp]: "raw_wf i \<Longrightarrow> raw_wf (dup_of i)"
  by (simp add: dup_of_def raw_wf_def)

lemma dup_of_idem [simp]: "dup_of (dup_of i) = dup_of i"
  by (simp add: dup_of_def)

lemma raw_dup_eq:
  "heap_wf h \<Longrightarrow> \<not> poisoned (raws h a) \<Longrightarrow>
     raw_dup a h = (Inr (raw_lim h), snd (alloc_raw (dup_of (guarded (raws h a))) h))"
  by (simp add: raw_dup_free dup_of_def)

lemma dup_twice_simps [simp]:
  "raw_lim (dup_twice r h) = Suc (Suc (raw_lim h))"
  "valids (dup_twice r h) = valids h"
  "valid_lim (dup_twice r h) = valid_lim h"
  "b < raw_lim h \<Longrightarrow> raws (dup_twice r h) b = raws h b"
  "raws (dup_twice r h) (Suc (raw_lim h)) = mutex_new (dup_of (guarded (raws h r)))"
  by (simp_all add: dup_twice_def)

lemma dup_twice_wf: "heap_wf h \<Longrightarrow> heap_wf (dup_twice r h)"
  by (simp add: dup_twice_def alloc_raw_wf heap_wfD)

definition received :: "message \<Rightarrow> heap \<Rightarrow> message \<times> heap" where
  "received m h =
     (case payload m of
        Raw r \<Rightarrow> (m\<lparr>payload := Raw (Suc (raw_lim h))\<rparr>, dup_twice r h)
      | Sync s \<Rightarrow> (m, h\<lparr>valids := (valids h)(sm_valid s := False)\<rparr>)
      | Clone c \<Rightarrow> (m, h))"

lemma vec_update [simp]: "q\<lparr>vec := xs\<rparr> = \<lparr>vec = xs\<rparr>"
  by (cases q) simp

lemma recv_empty:
  "vec (messages e) = [] \<Longrightarrow> ep_recv (h, e) = (Inr (Err \<lparr>code = NoMessages\<rparr>), (h, e))"
  by (cases "messages e") (simp add: ep_recv.simps)

lemma recv_stale:
  assumes "vec (messages e) = m # ms" and "stale h m" and "\<not> poisoned (raws h (buffer_of m))"
  shows "ep_recv (h, e) = ep_recv (h, e\<lparr>messages := \<lparr>vec = ms\<rparr>,
    memoryused := memoryused e - rcap (guarded (raws h (buffer_of m)))\<rparr>)"
  using assms
  by (cases "payload m"; subst ep_recv.simps)
    (auto simp: stale_def Let_def message_dup_ifok_def takeasvalid_def)

lemma recv_fresh:
  assumes "vec (messages e) = m # ms" and "\<not> stale h m"
    and "\<not> poisoned (raws h (buffer_of m))" and "heap_wf h"
  shows "ep_recv (h, e) = (Inr (Ok (fst (received m h))), (snd (received m h),
    e\<lparr>messages := \<lparr>vec = ms\<rparr>, memoryused := memoryused e - rcap (guarded (raws h (buffer_of m)))\<rparr>))"
proof (cases "payload m")
  case (Raw r)
  let ?h = "snd (alloc_raw (dup_of (guarded (raws h r))) h)"
  have "heap_wf ?h" using assms(4) by (simp add: alloc_raw_wf heap_wfD)
  moreover have "\<not> poisoned (raws ?h (raw_lim h))" by simp
  ultimately have "raw_dup (raw_lim h) ?h = (Inr (Suc (raw_lim h)), dup_twice r h)"
    by (simp add: raw_dup_eq dup_twice_def)
  then show ?thesis
    using assms Raw raw_dup_eq [OF assms(4), of r]
    by (subst ep_recv.simps)
      (simp add: Let_def message_dup_ifok_def message_dup_def message_cap_def raw_cap_free
        buffer_of_def received_def dup_of_def)
qed (use assms in \<open>subst ep_recv.simps; auto simp: stale_def Let_def message_dup_ifok_def
      takeasvalid_def received_def\<close>)+

text \<open>The queue split at the first message that can still be returned.\<close>

lemma recv_skip:
  assumes "vec (messages e) = ss @ ms" and "\<forall>m \<in> set ss. stale h m" and "queue_ok h e"
  shows "ep_recv (h, e) = ep_recv (h, e\<lparr>messages := \<lparr>vec = ms\<rparr>, memoryused := memoryused e - caps h ss\<rparr>)"
  using assms
proof (induction ss arbitrary: e)
  case Nil
  then have "e\<lparr>messages := \<lparr>vec = ms\<rparr>, memoryused := memoryused e - caps h []\<rparr> = e"
    by (cases "messages e"; cases e) simp
  then show ?case by (simp only:)
next
  case (Cons s ss)
  let ?e = "e\<lparr>messages := \<lparr>vec = ss @ ms\<rparr>,
    memoryused := memoryused e - rcap (guarded (raws h (buffer_of s)))\<rparr>"
  have "ep_recv (h, e) = ep_recv (h, ?e)"
    using Cons.prems by (intro recv_stale) (simp_all add: queue_ok_def)
  also have "\<dots> = ep_recv (h, ?e\<lparr>messages := \<lparr>vec = ms\<rparr>, memoryused := memoryused ?e - caps h ss\<rparr>)"
    using Cons.prems by (intro Cons.IH) (simp_all add: queue_ok_def)
  finally show ?case by (simp add: diff_diff_add)
qed

definition skipped :: "heap \<Rightarrow> endpoint \<Rightarrow> message list" where
  "skipped h e = takeWhile (stale h) (vec (messages e))"

definition pending :: "heap \<Rightarrow> endpoint \<Rightarrow> message list" where
  "pending h e = dropWhile (stale h) (vec (messages e))"

lemma skipped_pending: "vec (messages e) = skipped h e @ pending h e"
  by (simp add: skipped_def pending_def)

lemma pending_fresh: "pending h e = m # ms \<Longrightarrow> \<not> stale h m"
  using hd_dropWhile [of "stale h" "vec (messages e)"] by (simp add: pending_def)

lemma skipped_stale: "\<forall>m \<in> set (skipped h e). stale h m"
  by (auto simp: skipped_def dest: set_takeWhileD)

lemma pending_Nil_iff: "pending h e = [] \<longleftrightarrow> (\<forall>m \<in> set (vec (messages e)). stale h m)"
  by (simp add: pending_def dropWhile_eq_Nil_conv)

text \<open>
  C1. \<open>recv\<close> returns the first message of the queue that is not a sync message someone took
  already, and throws those before it away; a raw message comes with a buffer of its own, a
  sync message with its flag cleared. Only when the queue has nothing else does it report that
  there are no messages, and then the queue is empty. Each message removed is taken off the
  memory account.
\<close>

theorem recv_outcome:
  assumes "heap_wf h" and "queue_ok h e"
  shows "ep_recv (h, e) =
    (case pending h e of
       [] \<Rightarrow> (Inr (Err \<lparr>code = NoMessages\<rparr>), (h, e\<lparr>messages := \<lparr>vec = []\<rparr>,
               memoryused := memoryused e - caps h (vec (messages e))\<rparr>))
     | m # ms \<Rightarrow> (Inr (Ok (fst (received m h))), (snd (received m h), e\<lparr>messages := \<lparr>vec = ms\<rparr>,
               memoryused := memoryused e - caps h (skipped h e @ [m])\<rparr>)))"
proof -
  let ?e = "e\<lparr>messages := \<lparr>vec = pending h e\<rparr>, memoryused := memoryused e - caps h (skipped h e)\<rparr>"
  have skip: "ep_recv (h, e) = ep_recv (h, ?e)"
    using skipped_pending skipped_stale assms(2) by (rule recv_skip)
  show ?thesis
  proof (cases "pending h e")
    case Nil
    then have "skipped h e = vec (messages e)" using skipped_pending [of e h] by simp
    with Nil skip show ?thesis by (simp add: recv_empty)
  next
    case (Cons m ms)
    have "m \<in> set (vec (messages e))" by (simp add: skipped_pending [of e h] Cons)
    then have "\<not> poisoned (raws h (buffer_of m))" using assms(2) by (simp add: queue_ok_def)
    then have "ep_recv (h, ?e) = (Inr (Ok (fst (received m h))), (snd (received m h),
        ?e\<lparr>messages := \<lparr>vec = ms\<rparr>, memoryused := memoryused ?e - rcap (guarded (raws h (buffer_of m)))\<rparr>))"
      using Cons pending_fresh [OF Cons] assms(1) by (intro recv_fresh) simp_all
    with Cons skip show ?thesis by (simp add: diff_diff_add)
  qed
qed

text \<open>A queue with a sync message that was taken, then a clone message.\<close>

definition demo_sync :: message where
  "demo_sync = \<lparr>srcsid = 0, srceid = 0, dstsid = 0, dsteid = 0, canloop = False,
     payload = Sync \<lparr>sm_tyid = 5, sm_valid = 0, sm_payload = 0\<rparr>\<rparr>"

definition demo_clone :: message where
  "demo_clone = \<lparr>srcsid = 0, srceid = 0, dstsid = 0, dsteid = 0, canloop = False,
     payload = Clone \<lparr>cm_tyid = 5, cm_payload = 0\<rparr>\<rparr>"

definition demo_heap :: heap where
  "demo_heap = snd (alloc_raw (raw_internal_new 4) heap_empty)"

definition demo_ep :: endpoint where
  "demo_ep = (endpoint_new 100 7 demo_net)\<lparr>messages := \<lparr>vec = [demo_sync, demo_clone]\<rparr>,
     memoryused := 8\<rparr>"

lemma demo_heap_wf: "heap_wf demo_heap"
  by (simp add: demo_heap_def alloc_raw_wf)

lemma demo_heap_simps [simp]:
  "raw_lim demo_heap = 1" "raws demo_heap 0 = mutex_new (raw_internal_new 4)"
  "valids demo_heap n = valids heap_empty n"
  by (simp_all add: demo_heap_def heap_empty_def)

theorem recv_outcome_witness:
  "fst (ep_recv (demo_heap, demo_ep)) = Inr (Ok demo_clone)"
proof -
  have q: "queue_ok demo_heap demo_ep"
    by (simp add: queue_ok_def demo_ep_def demo_sync_def demo_clone_def buffer_of_def)
  have "pending demo_heap demo_ep = [demo_clone]"
    by (simp add: pending_def demo_ep_def stale_def demo_sync_def demo_clone_def heap_empty_def)
  then show ?thesis
    using recv_outcome [OF demo_heap_wf q] by (simp add: received_def demo_clone_def)
qed

section \<open>The life of an endpoint\<close>

text \<open>
  What can happen to an endpoint and the messages in it, as long as no operation on it panics:
  its own operations, any operation on any buffer, and a sync message taken at another endpoint.
\<close>

datatype ep_event =
    EGive message
  | ERecv
  | ERaw raw_cmd
  | ETaken nat
  | ESetLimitPending usize
  | ESetLimitMemory usize
  | ESetEid u64
  | ESetSid u64
  | ESetGid u64

inductive ep_step :: "ep_state \<Rightarrow> ep_event \<Rightarrow> ep_state \<Rightarrow> bool" where
  s_give: "give m (h, e) = (Inr b, st) \<Longrightarrow> buffer_of m < raw_lim h \<Longrightarrow> ep_step (h, e) (EGive m) st"
| s_recv: "ep_recv (h, e) = (Inr r, st) \<Longrightarrow> ep_step (h, e) ERecv st"
| s_raw: "ep_step (h, e) (ERaw c) (raw_step h c, e)"
| s_taken: "ep_step (h, e) (ETaken v) (h\<lparr>valids := (valids h)(v := False)\<rparr>, e)"
| s_pending: "ep_step (h, e) (ESetLimitPending l) (h, setlimitpending l e)"
| s_memory: "ep_step (h, e) (ESetLimitMemory l) (h, setlimitmemory l e)"
| s_eid: "ep_step (h, e) (ESetEid i) (h, seteid i e)"
| s_sid: "ep_step (h, e) (ESetSid i) (h, setsid i e)"
| s_gid: "ep_step (h, e) (ESetGid i) (h, setgid i e)"

inductive ep_run :: "ep_state \<Rightarrow> ep_event list \<Rightarrow> ep_state \<Rightarrow> bool" where
  run_nil: "ep_run st [] st"
| run_step: "ep_step st ev st1 \<Longrightarrow> ep_run st1 evs st2 \<Longrightarrow> ep_run st (ev # evs) st2"

inductive_cases ep_runE: "ep_run st (ev # evs) st2"

lemma recv_poisoned:
  assumes "vec (messages e) = m # ms" and "poisoned (raws h (buffer_of m))"
  shows "ep_recv (h, e) = (Inl LockPoisoned, (h, e\<lparr>messages := \<lparr>vec = ms\<rparr>\<rparr>))"
  using assms
  by (cases "payload m"; subst ep_recv.simps)
    (simp_all add: Let_def message_dup_ifok_def buffer_of_def message_cap_eq raw_cap_def)

text \<open>What a receive that does not panic leaves, by cases on the queue.\<close>

lemma recv_cases [consumes 2, case_names empty stale fresh]:
  assumes "ep_recv (h, e) = (Inr r, (h', e'))" and "heap_wf h"
  obtains
    "vec (messages e) = []" "r = Err \<lparr>code = NoMessages\<rparr>" "h' = h" "e' = e"
  | m ms where "vec (messages e) = m # ms" "stale h m"
      "ep_recv (h, e\<lparr>messages := \<lparr>vec = ms\<rparr>,
         memoryused := memoryused e - rcap (guarded (raws h (buffer_of m)))\<rparr>) = (Inr r, (h', e'))"
  | m ms where "vec (messages e) = m # ms" "\<not> stale h m" "r = Ok (fst (received m h))"
      "h' = snd (received m h)"
      "e' = e\<lparr>messages := \<lparr>vec = ms\<rparr>,
         memoryused := memoryused e - rcap (guarded (raws h (buffer_of m)))\<rparr>"
proof (cases "vec (messages e)")
  case Nil
  with assms(1) recv_empty [OF Nil, of h]
  have "r = Err \<lparr>code = NoMessages\<rparr>" "h' = h" "e' = e" by simp_all
  with Nil show thesis by (rule that(1))
next
  case (Cons m ms)
  have p: "\<not> poisoned (raws h (buffer_of m))"
  proof
    assume "poisoned (raws h (buffer_of m))"
    from recv_poisoned [OF Cons this] assms(1) show False by simp
  qed
  show thesis
  proof (cases "stale h m")
    case True
    from assms(1) have "ep_recv (h, e\<lparr>messages := \<lparr>vec = ms\<rparr>,
        memoryused := memoryused e - rcap (guarded (raws h (buffer_of m)))\<rparr>) = (Inr r, (h', e'))"
      unfolding recv_stale [OF Cons True p] .
    with Cons True show thesis by (rule that(2))
  next
    case False
    from assms(1) have "r = Ok (fst (received m h))" "h' = snd (received m h)"
      "e' = e\<lparr>messages := \<lparr>vec = ms\<rparr>,
         memoryused := memoryused e - rcap (guarded (raws h (buffer_of m)))\<rparr>"
      unfolding recv_fresh [OF Cons False p assms(2)] by simp_all
    with Cons False show thesis by (rule that(3))
  qed
qed

lemma received_frame:
  "heap_wf h \<Longrightarrow> heap_wf (snd (received m h))"
  "raw_lim h \<le> raw_lim (snd (received m h))"
  "b < raw_lim h \<Longrightarrow> raws (snd (received m h)) b = raws h b"
  by (auto simp: received_def intro: dup_twice_wf heap_wf_raws split: payload.splits)

definition accounted :: "ep_state \<Rightarrow> bool" where
  "accounted st \<longleftrightarrow>
     (case st of (h, e) \<Rightarrow> heap_wf h \<and> memoryused e = caps h (vec (messages e)) \<and>
       (\<forall>m \<in> set (vec (messages e)). buffer_of m < raw_lim h))"

lemma caps_cong:
  "(\<And>m. m \<in> set ms \<Longrightarrow> rcap (guarded (raws h' (buffer_of m))) = rcap (guarded (raws h (buffer_of m)))) \<Longrightarrow>
     caps h' ms = caps h ms"
  by (induction ms) auto

lemma recv_accounted:
  "accounted (h, e) \<Longrightarrow> ep_recv (h, e) = (Inr r, (h', e')) \<Longrightarrow> accounted (h', e')"
proof (induction "length (vec (messages e))" arbitrary: e)
  case 0
  then show ?case by (simp add: recv_empty)
next
  case (Suc n)
  from Suc.prems(1) have wf: "heap_wf h" by (simp add: accounted_def)
  from Suc.prems(2) wf show ?case
  proof (cases rule: recv_cases)
    case empty
    with Suc.hyps(2) show ?thesis by simp
  next
    case (stale m ms)
    with Suc.prems(1) Suc.hyps(2) show ?thesis
      by (intro Suc.hyps(1) [OF _ _ stale(3)]) (simp_all add: accounted_def)
  next
    case (fresh m ms)
    then have "caps (snd (received m h)) ms = caps h ms"
      using Suc.prems(1) by (intro caps_cong) (simp add: accounted_def received_frame)
    with fresh Suc.prems(1) received_frame(1,2) [of h m] show ?thesis
      by (auto simp: accounted_def intro: order.strict_trans2)
  qed
qed

lemma ep_step_accounted: "ep_step st ev st' \<Longrightarrow> accounted st \<Longrightarrow> accounted st'"
proof (induction rule: ep_step.induct)
  case (s_give m h e b st)
  then show ?case
    using give_Inr [OF s_give(1)] by (auto simp: accounted_def enqueue_def wakeonewaiter_def)
next
  case (s_recv h e r st)
  then show ?case by (cases st) (auto intro: recv_accounted)
next
  case (s_raw h e c)
  then have "caps (raw_step h c) (vec (messages e)) = caps h (vec (messages e))"
    by (intro caps_cong) (simp add: accounted_def raw_step_cap)
  with s_raw raw_step_lim [of h c] show ?case
    by (auto simp: accounted_def raw_step_wf intro: order.strict_trans2)
next
  case (s_taken h e v)
  then show ?case
    by (auto simp: accounted_def caps_def heap_wf_def)
qed (simp_all add: accounted_def setlimitpending_def setlimitmemory_def seteid_def setsid_def
    setgid_def)

lemma ep_run_accounted: "ep_run st evs st' \<Longrightarrow> accounted st \<Longrightarrow> accounted st'"
  by (induction rule: ep_run.induct) (auto intro: ep_step_accounted)

text \<open>
  C6. The memory account is exact: after any run of operations on a new endpoint in which none
  panics, \<open>memoryused\<close> is the sum of the capacities of the messages in the queue.
\<close>

theorem memory_account:
  assumes "heap_wf h" and "ep_run (h, endpoint_new s i n) evs (h', e')"
  shows "memoryused e' = (\<Sum>m\<leftarrow>vec (messages e'). rcap (guarded (raws h' (buffer_of m))))"
proof -
  have "accounted (h, endpoint_new s i n)"
    using assms(1) by (simp add: accounted_def endpoint_new_def sq_new_def)
  from ep_run_accounted [OF assms(2) this] show ?thesis by (simp add: accounted_def caps_def)
qed

lemma demo_give:
  "give (demo_msg 1 7) (demo_heap, endpoint_new 100 7 demo_net) =
     (Inr True, (demo_heap, (endpoint_new 100 7 demo_net)\<lparr>messages := \<lparr>vec = [demo_msg 1 7]\<rparr>, memoryused := 4\<rparr>))"
  by (subst give_eq)
    (simp_all add: addressed_def has_room_def demo_defs enqueue_def wakeonewaiter_def sq_new_def
      notify_one_def condvar_new_def raw_internal_new_def Let_def)

theorem memory_account_witness:
  "\<exists>h' e'. ep_run (demo_heap, endpoint_new 100 7 demo_net) [EGive (demo_msg 1 7)] (h', e') \<and>
     memoryused e' = 4 \<and>
     memoryused e' = (\<Sum>m\<leftarrow>vec (messages e'). rcap (guarded (raws h' (buffer_of m))))"
proof -
  let ?e = "(endpoint_new 100 7 demo_net)\<lparr>messages := \<lparr>vec = [demo_msg 1 7]\<rparr>, memoryused := 4\<rparr>"
  have "ep_step (demo_heap, endpoint_new 100 7 demo_net) (EGive (demo_msg 1 7)) (demo_heap, ?e)"
    using demo_give by (rule s_give) (simp add: demo_msg_def new_fromraw_def buffer_of_def)
  then have r: "ep_run (demo_heap, endpoint_new 100 7 demo_net) [EGive (demo_msg 1 7)] (demo_heap, ?e)"
    by (rule run_step [OF _ run_nil])
  from memory_account [OF demo_heap_wf r] r show ?thesis
    by (intro exI [of _ demo_heap] exI [of _ ?e]) simp
qed

section \<open>The pending limit\<close>

definition within :: "endpoint \<Rightarrow> bool" where
  "within e \<longleftrightarrow> limitpending e = 0 \<or> length (vec (messages e)) \<le> unat (limitpending e)"

lemma has_room_within:
  assumes "within e" and "has_room e"
  shows "within (enqueue h m e)"
proof (cases "limitpending e = 0")
  case True
  then show ?thesis by (simp add: within_def enqueue_def)
next
  case False
  with assms(1) have "length (vec (messages e)) \<le> unat (limitpending e)" by (simp add: within_def)
  moreover have "unat (limitpending e) < 2 ^ 64" by (rule usize_bound)
  ultimately have "unat (sq_len (messages e)) = length (vec (messages e))"
    by (simp only: sq_len_def unat_of_nat_usize)
  with False assms(2) have "length (vec (messages e)) < unat (limitpending e)"
    by (simp add: has_room_def word_less_nat_alt)
  then show ?thesis by (simp add: within_def enqueue_def)
qed

text \<open>A receive takes messages off the front and leaves the limits, address and lock alone.\<close>

lemma recv_endpoint:
  assumes "ep_recv (h, e) = (Inr r, (h', e'))" and "heap_wf h"
  shows "\<exists>k u. e' = e\<lparr>messages := \<lparr>vec = drop k (vec (messages e))\<rparr>, memoryused := u\<rparr>"
  using assms(1)
proof (induction "length (vec (messages e))" arbitrary: e)
  case 0
  then show ?case
    by (intro exI [of _ 0] exI [of _ "memoryused e"]) (cases "messages e"; simp add: recv_empty)
next
  case (Suc n)
  from Suc.prems assms(2) show ?case
  proof (cases rule: recv_cases)
    case empty
    with Suc.hyps(2) show ?thesis by simp
  next
    case (stale m ms)
    from Suc.hyps(1) [OF _ stale(3)] stale(1) Suc.hyps(2) obtain k u
      where "e' = e\<lparr>messages := \<lparr>vec = drop k ms\<rparr>, memoryused := u\<rparr>" by auto
    with stale(1) show ?thesis by (intro exI [of _ "Suc k"] exI [of _ u]) simp
  next
    case (fresh m ms)
    then show ?thesis by (metis drop0 drop_Suc_Cons)
  qed
qed

lemma ep_step_within:
  "ep_step st ev st' \<Longrightarrow> (\<And>l. ev \<noteq> ESetLimitPending l) \<Longrightarrow> accounted st \<Longrightarrow> within (snd st) \<Longrightarrow>
     within (snd st') \<and> limitpending (snd st') = limitpending (snd st)"
proof (induction rule: ep_step.induct)
  case (s_give m h e b st)
  then show ?case
    using give_Inr [OF s_give(1)] has_room_within [of e h m]
    by (auto simp: wakeonewaiter_def within_def enqueue_def)
next
  case (s_recv h e r st)
  obtain h' e' where st: "st = (h', e')" by (cases st)
  with s_recv recv_endpoint [of h e r h' e'] show ?case
    by (auto simp: within_def accounted_def)
next
  case (s_pending h e l)
  then show ?case by blast
qed (simp_all add: within_def setlimitmemory_def seteid_def setsid_def setgid_def)

lemma ep_run_within:
  "ep_run st evs st' \<Longrightarrow> list_all (\<lambda>ev. \<forall>l. ev \<noteq> ESetLimitPending l) evs \<Longrightarrow> accounted st \<Longrightarrow>
     within (snd st) \<Longrightarrow> within (snd st') \<and> limitpending (snd st') = limitpending (snd st)"
proof (induction rule: ep_run.induct)
  case (run_nil st)
  then show ?case by simp
next
  case (run_step st ev st1 evs st2)
  from run_step.prems have ev: "\<And>l. ev \<noteq> ESetLimitPending l" by simp
  from ep_step_within [OF run_step.hyps(1) ev run_step.prems(2,3)] run_step.IH run_step.prems
    ep_step_accounted [OF run_step.hyps(1)]
  show ?case by simp
qed

text \<open>
  The pending limit holds: once it is set to \<open>l\<close> on a new endpoint and not changed again,
  the queue never has more than \<open>l\<close> messages, whatever is given to the endpoint.
\<close>

lemma pending_limit:
  assumes "heap_wf h" and "l \<noteq> 0"
    and "ep_run (h, setlimitpending l (endpoint_new s i n)) evs (h', e')"
    and "list_all (\<lambda>ev. \<forall>l'. ev \<noteq> ESetLimitPending l') evs"
  shows "length (vec (messages e')) \<le> unat l"
proof -
  let ?e = "setlimitpending l (endpoint_new s i n)"
  have "accounted (h, ?e)" and "within ?e"
    using assms(1) by (simp_all add: accounted_def within_def endpoint_new_def sq_new_def
      setlimitpending_def)
  with ep_run_within [OF assms(3,4)] assms(2) show ?thesis
    by (auto simp: within_def setlimitpending_def)
qed

lemma pending_limit_example:
  "\<exists>h' e'. ep_run (demo_heap, setlimitpending 1 (endpoint_new 100 7 demo_net))
       [ESetGid 3, ERecv] (h', e') \<and>
     length (vec (messages e')) \<le> unat (1 :: usize)"
proof -
  let ?e = "setgid 3 (setlimitpending 1 (endpoint_new 100 7 demo_net))"
  have "vec (messages ?e) = []"
    by (simp add: setgid_def setlimitpending_def endpoint_new_def sq_new_def)
  then have "ep_step (demo_heap, ?e) ERecv (demo_heap, ?e)"
    by (rule s_recv [OF recv_empty])
  then have r: "ep_run (demo_heap, setlimitpending 1 (endpoint_new 100 7 demo_net))
      [ESetGid 3, ERecv] (demo_heap, ?e)"
    by (intro run_step [OF s_gid] run_step [OF _ run_nil])
  have "length (vec (messages ?e)) \<le> unat (1 :: usize)"
    by (rule pending_limit [OF demo_heap_wf _ r]) simp_all
  with r show ?thesis by blast
qed

section \<open>Blocking receives\<close>

lemma recv_error:
  assumes "ep_recv st = (Inr (Err er), st')"
  shows "er = \<lparr>code = NoMessages\<rparr>"
  using assms
proof (induction st rule: ep_recv.induct)
  case (1 h e)
  show ?case
    using "1.prems" "1.IH"
    by (subst (asm) ep_recv.simps)
      (auto simp: Let_def split: option.splits prod.splits sum.splits payload.splits bool.splits)
qed

text \<open>One attempt of a blocking receive, and the states in which it makes its attempts.\<close>

definition attempt :: "(ep_state, message io_result) oper" where
  "attempt st = (if poisoned (waitmutex (snd st)) then (Inl LockPoisoned, st) else recv_locked st)"

definition nothing :: "ep_state \<Rightarrow> bool" where
  "nothing st \<longleftrightarrow> (case fst (attempt st) of Inr r \<Rightarrow> io_is_err r | Inl _ \<Rightarrow> False)"

fun attempts :: "wait_event list \<Rightarrow> ep_state \<Rightarrow> ep_state list" where
  "attempts [] st = [st]"
| "attempts (w # ws) st = st # attempts ws (we_env w (snd (attempt st)))"

lemma attempts_not_Nil [simp]: "attempts ws st \<noteq> []"
  by (cases ws) simp_all

text \<open>Nothing to receive is the only error an attempt reports.\<close>

lemma nothing_iff: "nothing st \<longleftrightarrow> fst (attempt st) = Inr (Err \<lparr>code = NoMessages\<rparr>)"
proof
  assume "nothing st"
  then obtain er where "fst (attempt st) = Inr (Err er)"
    by (auto simp: nothing_def io_is_err_def split: sum.splits io_result.splits)
  then have "fst (ep_recv st) = Inr (Err er)"
    by (auto simp: attempt_def recv_locked_def split: if_splits prod.splits sum.splits)
  then have "ep_recv st = (Inr (Err er), snd (ep_recv st))" by (simp add: prod_eq_iff)
  from recv_error [OF this] \<open>fst (attempt st) = Inr (Err er)\<close>
  show "fst (attempt st) = Inr (Err \<lparr>code = NoMessages\<rparr>)" by simp
qed (simp add: nothing_def)

lemma forever_loop_step:
  "forever_loop (w # ws) st =
     (if nothing (we_env w st) then forever_loop ws (snd (attempt (we_env w st)))
      else Some (attempt (we_env w st)))"
  by (auto simp: nothing_def attempt_def Let_def io_is_ok_def io_is_err_def split: sum.splits prod.splits
      io_result.splits)

lemma timeout_loop_step:
  "timeout_loop (w # ws) st =
     (if \<not> nothing (we_env w st) then Some (attempt (we_env w st))
      else if \<not> we_notified w
      then Some (Inr (Err \<lparr>code = TimedOut\<rparr>), snd (attempt (we_env w st)))
      else timeout_loop ws (snd (attempt (we_env w st))))"
  by (auto simp: nothing_def attempt_def Let_def io_is_ok_def io_is_err_def split: sum.splits prod.splits
      io_result.splits)

lemma recvorblock_step:
  "endpoint_recvorblock ws st =
     (if nothing st then timeout_loop ws (snd (attempt st)) else Some (attempt st))"
  "endpoint_recvorblockforever ws st =
     (if nothing st then forever_loop ws (snd (attempt st)) else Some (attempt st))"
  by (auto simp: endpoint_recvorblock_def endpoint_recvorblockforever_def nothing_def attempt_def
      Let_def io_is_ok_def io_is_err_def split: sum.splits prod.splits io_result.splits)

text \<open>
  C21. The receive that blocks forever makes attempts, one before its first wait and one after
  each, until one of them finds a message (or panics): that is its result. It never returns an
  error, and it is still blocked exactly if every attempt found nothing.
\<close>

theorem recvorblockforever_spec:
  "endpoint_recvorblockforever ws st =
     (case dropWhile nothing (attempts ws st) of [] \<Rightarrow> None | a # _ \<Rightarrow> Some (attempt a))"
proof -
  have "forever_loop ws st = (case ws of [] \<Rightarrow> None | w # ws' \<Rightarrow>
      endpoint_recvorblockforever ws' (we_env w st))" for ws st
    by (cases ws) (simp_all only: forever_loop_step recvorblock_step list.case forever_loop.simps(1))
  then show ?thesis
    by (induction ws arbitrary: st) (simp_all add: recvorblock_step(2))
qed

text \<open>The waits up to the first one that timed out.\<close>

definition timed_waits :: "wait_event list \<Rightarrow> wait_event list" where
  "timed_waits ws = take (Suc (length (takeWhile we_notified ws))) ws"

text \<open>
  C22. The receive with a timeout makes the same attempts, but none after the first wait that
  timed out: if nothing was found by then it reports \<open>TimedOut\<close>, and never \<open>NoMessages\<close>. So it
  returns as soon as one of its waits times out. Every wait is for the full duration.
\<close>

theorem recvorblock_spec:
  "endpoint_recvorblock ws st =
     (case dropWhile nothing (attempts (timed_waits ws) st) of
        a # _ \<Rightarrow> Some (attempt a)
      | [] \<Rightarrow>
          if list_all we_notified ws then None
          else Some (Inr (Err \<lparr>code = TimedOut\<rparr>), snd (attempt (last (attempts (timed_waits ws) st)))))"
proof (induction ws arbitrary: st)
  case Nil
  then show ?case by (simp add: recvorblock_step timed_waits_def)
next
  case (Cons w ws)
  let ?st1 = "we_env w (snd (attempt st))"
  have waits: "timed_waits (w # ws) = (if we_notified w then w # timed_waits ws else [w])"
    by (simp add: timed_waits_def)
  show ?case
  proof (cases "nothing st \<and> we_notified w")
    case True
    then have "endpoint_recvorblock (w # ws) st = endpoint_recvorblock ws ?st1"
      by (simp only: recvorblock_step timeout_loop_step) simp
    moreover have last: "last (attempts (timed_waits (w # ws)) st) = last (attempts (timed_waits ws) ?st1)"
      using True by (simp add: waits)
    moreover have "attempts (timed_waits (w # ws)) st = st # attempts (timed_waits ws) ?st1"
      using True by (simp add: waits)
    ultimately show ?thesis unfolding last using True Cons.IH [of ?st1] by simp
  next
    case False
    then show ?thesis
      by (auto simp add: recvorblock_step timeout_loop_step waits simp del: timeout_loop.simps)
  qed
qed

end
