(* ===== verification/Wakeup.thy ===== *)
theory Wakeup
  imports Endpoint
begin

text \<open>
  Blocking receivers and givers of \<open>src/endpoint.rs\<close> running together on one endpoint, as a step
  relation. \<open>give\<close> puts the message in the queue under the wait lock but wakes a receiver only
  after it released the lock, so the two are separate steps. A receiver checks the queue and goes
  to sleep in one step, because it holds the wait lock until it sleeps.
\<close>

section \<open>The protocol\<close>

text \<open>A state: the heap, the endpoint, and how many givers are between their put and their wake-up.\<close>

type_synonym wake_state = "heap \<times> endpoint \<times> nat"

definition set_wait :: "(condvar \<Rightarrow> condvar) \<Rightarrow> endpoint \<Rightarrow> endpoint" where
  "set_wait f e = e\<lparr>ep_wait := f (ep_wait e)\<rparr>"

text \<open>What a blocking receiver does after an attempt: return, or sleep.\<close>

definition sleep_unless_ok :: "message io_result \<Rightarrow> endpoint \<Rightarrow> endpoint" where
  "sleep_unless_ok r e = (if io_is_ok r then e else set_wait cv_wait e)"

definition leave_wait :: "condvar \<Rightarrow> condvar" where
  "leave_wait c = c\<lparr>cv_waiting := cv_waiting c - 1\<rparr>"

definition take_woken :: "condvar \<Rightarrow> condvar" where
  "take_woken c = c\<lparr>cv_woken := cv_woken c - 1\<rparr>"

inductive wake_step :: "wake_state \<Rightarrow> wake_state \<Rightarrow> bool" where
  w_put: "give_put m (h, e) = (Inr b, (h', e')) \<Longrightarrow>
     wake_step (h, e, n) (h', e', if b then Suc n else n)"
| w_notify: "wake_step (h, e, Suc n) (h, wakeonewaiter e, n)"
| w_block: "attempt (h, e) = (Inr r, (h', e')) \<Longrightarrow>
     wake_step (h, e, n) (h', sleep_unless_ok r e', n)"
| w_woken: "cv_woken (ep_wait e) > 0 \<Longrightarrow>
     attempt (h, set_wait take_woken e) = (Inr r, (h', e')) \<Longrightarrow>
     wake_step (h, e, n) (h', sleep_unless_ok r e', n)"
| w_timeout: "cv_waiting (ep_wait e) > 0 \<Longrightarrow> wake_step (h, e, n) (h, set_wait leave_wait e, n)"
| w_spurious: "cv_waiting (ep_wait e) > 0 \<Longrightarrow> wake_step (h, e, n) (h, set_wait notify_one e, n)"
| w_other: "ep_step (h, e) ev (h', e') \<Longrightarrow> wake_step (h, e, n) (h', e', n)"

section \<open>No wake-up is lost\<close>

definition fresh :: "heap \<Rightarrow> endpoint \<Rightarrow> nat" where
  "fresh h e = length (filter (\<lambda>m. \<not> stale h m) (vec (messages e)))"

text \<open>While a receiver sleeps, each message that can be received has somebody on the way to it.\<close>

definition covered :: "wake_state \<Rightarrow> bool" where
  "covered st \<longleftrightarrow>
     (case st of (h, e, n) \<Rightarrow>
        heap_wf h \<and> (cv_waiting (ep_wait e) = 0 \<or> fresh h e \<le> cv_woken (ep_wait e) + n))"

lemma condvar_simps [simp]:
  "cv_waiting (leave_wait c) = cv_waiting c - 1" "cv_woken (leave_wait c) = cv_woken c"
  "cv_waiting (take_woken c) = cv_waiting c" "cv_woken (take_woken c) = cv_woken c - 1"
  "cv_waiting (cv_wait c) = Suc (cv_waiting c)" "cv_woken (cv_wait c) = cv_woken c"
  "cv_waiting (notify_one c) = cv_waiting c - 1"
  "cv_woken (notify_one c) = (if cv_waiting c = 0 then cv_woken c else Suc (cv_woken c))"
  by (simp_all add: leave_wait_def take_woken_def cv_wait_def notify_one_def)

lemma set_wait_simps [simp]:
  "ep_wait (set_wait f e) = f (ep_wait e)" "messages (set_wait f e) = messages e"
  "waitmutex (set_wait f e) = waitmutex e" "fresh h (set_wait f e) = fresh h e"
  by (simp_all add: set_wait_def fresh_def)

lemma wakeonewaiter_eq: "wakeonewaiter e = set_wait notify_one e"
  by (simp add: wakeonewaiter_def set_wait_def)

lemma filter_mono_length:
  "(\<And>x. x \<in> set xs \<Longrightarrow> P x \<Longrightarrow> Q x) \<Longrightarrow> length (filter P xs) \<le> length (filter Q xs)"
  by (induction xs) (auto simp: le_SucI)

lemma fresh_mono:
  "(\<And>v. valids h' v \<Longrightarrow> valids h v) \<Longrightarrow> vec (messages e') = vec (messages e) \<Longrightarrow> fresh h' e' \<le> fresh h e"
  unfolding fresh_def by (auto simp: stale_def split: payload.splits intro!: filter_mono_length)

lemma received_valids: "valids (snd (received m h)) v \<Longrightarrow> valids h v"
  by (auto simp: received_def split: payload.splits if_splits)

lemma recv_fresh_count:
  assumes "ep_recv (h, e) = (Inr r, (h', e'))" and "heap_wf h"
  shows "(if io_is_ok r then Suc (fresh h' e') \<le> fresh h e else fresh h' e' = 0) \<and>
    ep_wait e' = ep_wait e \<and> heap_wf h' \<and> fresh h' e' \<le> fresh h e"
  using assms(1)
proof (induction "length (vec (messages e))" arbitrary: e)
  case 0
  with assms(2) show ?case by (auto simp: recv_empty fresh_def)
next
  case (Suc n)
  from Suc.prems assms(2) show ?case
  proof (cases rule: recv_cases)
    case empty
    with Suc.hyps(2) show ?thesis by simp
  next
    case (stale m ms)
    let ?e = "e\<lparr>messages := \<lparr>vec = ms\<rparr>,
      memoryused := memoryused e - rcap (guarded (raws h (buffer_of m)))\<rparr>"
    have eq: "fresh h ?e = fresh h e" "ep_wait ?e = ep_wait e"
      using stale(1,2) by (simp_all add: fresh_def)
    have "n = length (vec (messages ?e))" using stale(1) Suc.hyps(2) by simp
    from Suc.hyps(1) [OF this stale(3)] show ?thesis unfolding eq .
  next
    case (fresh m ms)
    have "fresh h' e' \<le> fresh h (e\<lparr>messages := \<lparr>vec = ms\<rparr>\<rparr>)"
      unfolding fresh(4) by (rule fresh_mono) (auto simp: fresh(5) intro: received_valids)
    with fresh(1,2) have "Suc (fresh h' e') \<le> fresh h e" by (simp add: fresh_def)
    with fresh(3,4,5) received_frame(1) [OF assms(2)] show ?thesis by simp
  qed
qed

lemma attempt_recv: "attempt st = (Inr r, st') \<Longrightarrow> ep_recv st = (Inr r, st')"
  by (auto simp: attempt_def recv_locked_def split: if_splits sum.splits prod.splits)

lemma covered_sleep:
  assumes "ep_recv (h, e) = (Inr r, (h', e'))" and "heap_wf h"
    and "cv_waiting (ep_wait e) = 0 \<or> fresh h e \<le> Suc (cv_woken (ep_wait e) + n)"
  shows "covered (h', sleep_unless_ok r e', n)"
  using recv_fresh_count [OF assms(1,2)] assms(3)
  by (auto simp: covered_def sleep_unless_ok_def)

lemma fresh_enqueue: "fresh h (enqueue h m e) \<le> Suc (fresh h e)"
  by (simp add: fresh_def enqueue_def)

lemma ep_step_covered:
  "ep_step st ev st' \<Longrightarrow> covered (fst st, snd st, n) \<Longrightarrow> covered (fst st', snd st', n)"
proof (induction rule: ep_step.induct)
  case (s_give m h e b st)
  have "ep_wait (enqueue h m e) = ep_wait e" by (simp add: enqueue_def)
  with give_Inr [OF s_give(1)] s_give.prems fresh_enqueue [of h m e] show ?case
    by (auto simp: covered_def wakeonewaiter_eq)
next
  case (s_recv h e r st)
  then obtain h' e' where "st = (h', e')" by (cases st)
  with s_recv recv_fresh_count [of h e r h' e'] show ?case by (auto simp: covered_def)
next
  case (s_raw h e c)
  have "stale (raw_step h c) = stale h" by (simp add: stale_def fun_eq_iff split: payload.splits)
  with s_raw show ?case by (simp add: covered_def raw_step_wf fresh_def)
next
  case (s_taken h e v)
  have "fresh (h\<lparr>valids := (valids h)(v := False)\<rparr>) e \<le> fresh h e"
    by (rule fresh_mono) (auto split: if_splits)
  with s_taken show ?case by (auto simp: covered_def heap_wf_def)
qed (simp_all add: covered_def fresh_def setlimitpending_def setlimitmemory_def seteid_def
    setsid_def setgid_def)

lemma wake_step_covered: "wake_step st st' \<Longrightarrow> covered st \<Longrightarrow> covered st'"
proof (induction rule: wake_step.induct)
  case (w_put m h e b h' e' n)
  have "ep_wait (enqueue h m e) = ep_wait e" by (simp add: enqueue_def)
  with give_put_Inr [OF w_put(1)] w_put.prems fresh_enqueue [of h m e] show ?case
    by (auto simp: covered_def)
next
  case (w_notify h e n)
  then show ?case by (auto simp: covered_def wakeonewaiter_eq)
next
  case (w_block h e r h' e' n)
  from w_block.prems show ?case
    by (intro covered_sleep [OF attempt_recv [OF w_block(1)]]) (auto simp: covered_def)
next
  case (w_woken e h r h' e' n)
  from w_woken.prems w_woken.hyps(1) show ?case
    by (intro covered_sleep [OF attempt_recv [OF w_woken(2)]]) (auto simp: covered_def)
next
  case (w_timeout e h n)
  then show ?case by (auto simp: covered_def)
next
  case (w_spurious e h n)
  then show ?case by (auto simp: covered_def)
next
  case (w_other h e ev h' e' n)
  from ep_step_covered [OF w_other(1), of n] w_other.prems show ?case by simp
qed

text \<open>
  C7. No wake-up is lost: however givers and receivers interleave on a new endpoint, as long as a
  receiver is asleep there are no more messages to receive than receivers already woken plus
  givers about to wake one. In particular, when all of those are through, a sleeping receiver
  means there is nothing to receive.
\<close>

theorem no_lost_wakeup:
  assumes "heap_wf h" and "wake_step\<^sup>*\<^sup>* (h, endpoint_new s i nt, 0) (h', e', n)"
    and "cv_waiting (ep_wait e') > 0"
  shows "fresh h' e' \<le> cv_woken (ep_wait e') + n \<and>
    (cv_woken (ep_wait e') = 0 \<and> n = 0 \<longrightarrow> pending h' e' = [])"
proof -
  have "covered (h, endpoint_new s i nt, 0)"
    using assms(1) by (simp add: covered_def endpoint_new_def condvar_new_def)
  with assms(2) have "covered (h', e', n)"
    by (induction rule: rtranclp_induct) (auto intro: wake_step_covered)
  with assms(3) have "fresh h' e' \<le> cv_woken (ep_wait e') + n" by (simp add: covered_def)
  moreover have "fresh h' e' = 0 \<Longrightarrow> pending h' e' = []"
    by (simp add: fresh_def pending_Nil_iff filter_empty_conv)
  ultimately show ?thesis by simp
qed

theorem no_lost_wakeup_witness:
  "\<exists>h' e'. wake_step\<^sup>*\<^sup>* (demo_heap, endpoint_new 100 7 demo_net, 0) (h', e', 1) \<and>
     fresh h' e' = 1 \<and> fresh h' e' \<le> cv_woken (ep_wait e') + 1"
proof -
  let ?e0 = "endpoint_new 100 7 demo_net"
  let ?e1 = "set_wait cv_wait ?e0"
  let ?m = "demo_msg 1 7"
  let ?e2 = "enqueue demo_heap ?m ?e1"
  have "attempt (demo_heap, ?e0) = (Inr (Err \<lparr>code = NoMessages\<rparr>), (demo_heap, ?e0))"
    by (simp add: attempt_def recv_locked_def recv_empty endpoint_new_def sq_new_def)
  from w_block [OF this, of 0] have s1: "wake_step (demo_heap, ?e0, 0) (demo_heap, ?e1, 0)"
    by (simp add: sleep_unless_ok_def io_is_ok_def)
  have "give_put ?m (demo_heap, ?e1) = (Inr True, (demo_heap, ?e2))"
    by (subst give_put_eq)
      (simp_all add: addressed_def has_room_def demo_defs set_wait_def)
  from w_put [OF this, of 0] have s2: "wake_step (demo_heap, ?e1, 0) (demo_heap, ?e2, 1)" by simp
  from s1 s2 have r: "wake_step\<^sup>*\<^sup>* (demo_heap, ?e0, 0) (demo_heap, ?e2, 1)" by auto
  have w: "cv_waiting (ep_wait ?e2) > 0" by (simp add: enqueue_def)
  have "fresh demo_heap ?e2 = 1"
    by (simp add: fresh_def enqueue_def demo_defs sq_new_def stale_def demo_msg_def)
  with no_lost_wakeup [OF demo_heap_wf r w] r show ?thesis by blast
qed

end
