(* ===== verification/Net.thy ===== *)
theory Net
  imports Endpoint
begin

text \<open>
  \<open>src/net.rs\<close>, and the operations of \<open>src/endpoint.rs\<close> that involve the net: creating, cloning and
  dropping endpoints, and sending. The state is a world: the heap of messages, the endpoints and
  the nets. A handle on an endpoint is its index, which is also what \<open>id()\<close> returns.
\<close>

section \<open>The world\<close>

record net_internal =
  endpoints :: "nat list"
  hueid :: u64

record world =
  heap :: heap
  eps :: "nat \<Rightarrow> endpoint"
  ep_lim :: nat
  nets :: "nat \<Rightarrow> net_internal mutex"
  net_lim :: nat

definition endpoint_id :: "nat \<Rightarrow> nat" where
  "endpoint_id i = i"

definition net_of :: "world \<Rightarrow> nat \<Rightarrow> net_handle" where
  "net_of w i = net (eps w i)"

definition on_ep :: "nat \<Rightarrow> (endpoint \<Rightarrow> endpoint) \<Rightarrow> world \<Rightarrow> world" where
  "on_ep i f w = w\<lparr>eps := (eps w)(i := f (eps w i))\<rparr>"

text \<open>An operation on the heap and one endpoint.\<close>

definition at_ep :: "nat \<Rightarrow> (ep_state, 'a) oper \<Rightarrow> (world, 'a) oper" where
  "at_ep i f w =
     (case f (heap w, eps w i) of (r, (h, e)) \<Rightarrow> (r, w\<lparr>heap := h, eps := (eps w)(i := e)\<rparr>))"

text \<open>An operation on the heap alone.\<close>

definition on_heap :: "(heap, 'a) oper \<Rightarrow> (world, 'a) oper" where
  "on_heap f w = (case f (heap w) of (r, h) \<Rightarrow> (r, w\<lparr>heap := h\<rparr>))"

section \<open>Nets\<close>

definition net_new :: "u64 \<Rightarrow> world \<Rightarrow> net_handle \<times> world" where
  "net_new s w = (\<lparr>net_i = net_lim w, net_sid = s\<rparr>,
     w\<lparr>nets := (nets w)(net_lim w := mutex_new \<lparr>endpoints = [], hueid = 0x10000\<rparr>),
       net_lim := Suc (net_lim w)\<rparr>)"

definition net_clone :: "net_handle \<Rightarrow> net_handle" where
  "net_clone n = \<lparr>net_i = net_i n, net_sid = net_sid n\<rparr>"

definition getserveraddr :: "net_handle \<Rightarrow> u64" where
  "getserveraddr n = net_sid n"

text \<open>A locked block on a net's state that cannot panic.\<close>

definition on_net :: "net_handle \<Rightarrow> (net_internal \<Rightarrow> 'a \<times> net_internal) \<Rightarrow> (world, 'a) oper" where
  "on_net n f w =
     (if poisoned (nets w (net_i n)) then (Inl LockPoisoned, w)
      else case f (guarded (nets w (net_i n))) of
             (x, i) \<Rightarrow> (Inr x, w\<lparr>nets := (nets w)(net_i n := \<lparr>guarded = i, poisoned = False\<rparr>)\<rparr>))"

definition getepcount :: "net_handle \<Rightarrow> (world, usize) oper" where
  "getepcount n = on_net n (\<lambda>i. (of_nat (length (endpoints i)), i))"

definition get_neweid :: "net_handle \<Rightarrow> (world, u64) oper" where
  "get_neweid n = on_net n (\<lambda>i. (hueid i, i\<lparr>hueid := hueid i + 1\<rparr>))"

section \<open>Endpoint handles\<close>

definition ep_alloc :: "endpoint \<Rightarrow> world \<Rightarrow> nat \<times> world" where
  "ep_alloc e w = (ep_lim w, w\<lparr>eps := (eps w)(ep_lim w := e), ep_lim := Suc (ep_lim w)\<rparr>)"

definition ep_clone :: "nat \<Rightarrow> world \<Rightarrow> world" where
  "ep_clone i = on_ep i (\<lambda>e. e\<lparr>refcnt := refcnt e + 1\<rparr>)"

text \<open>
  The first part of \<open>drop\<close>: count down and, if one reference is left, set the dropped flag. Says
  whether this drop is the one that removes the endpoint from its net.
\<close>

definition drop_count :: "nat \<Rightarrow> world \<Rightarrow> bool \<times> world" where
  "drop_count i w =
     (let w1 = on_ep i (\<lambda>e. e\<lparr>refcnt := refcnt e - 1\<rparr>) w in
      if refcnt (eps w1 i) = 1 \<and> \<not> dropped (eps w1 i)
      then (True, on_ep i (\<lambda>e. e\<lparr>dropped := True\<rparr>) w1)
      else (False, w1))"

text \<open>The scan of \<open>drop_endpoint\<close>: the index of the endpoint, and a panic if it is there twice.\<close>

fun find_endpoint :: "nat \<Rightarrow> nat list \<Rightarrow> nat \<Rightarrow> nat option \<Rightarrow> failure + nat option" where
  "find_endpoint this [] i fnd = Inr fnd"
| "find_endpoint this (x # xs) i fnd =
     (if endpoint_id x = endpoint_id this then
        (case fnd of Some _ \<Rightarrow> Inl DuplicateEndpoint | None \<Rightarrow> find_endpoint this xs (Suc i) (Some i))
      else find_endpoint this xs (Suc i) fnd)"

text \<open>
  \<open>Net::drop_endpoint\<close>. The removed handle is dropped while the lock is held; if that drop had to
  remove the endpoint it would take the lock again.
\<close>

definition net_drop_endpoint :: "net_handle \<Rightarrow> nat \<Rightarrow> (world, unit) oper" where
  "net_drop_endpoint n this w =
     (let m = nets w (net_i n) in
      if poisoned m then (Inl LockPoisoned, w)
      else case find_endpoint this (endpoints (guarded m)) 0 None of
             Inl f \<Rightarrow> (Inl f, w\<lparr>nets := (nets w)(net_i n := m\<lparr>poisoned := True\<rparr>)\<rparr>)
           | Inr None \<Rightarrow> (Inr (), w)
           | Inr (Some ndx) \<Rightarrow>
               (let xs = endpoints (guarded m);
                    m1 = m\<lparr>guarded := (guarded m)\<lparr>endpoints := take ndx xs @ drop (Suc ndx) xs\<rparr>\<rparr>;
                    w1 = w\<lparr>nets := (nets w)(net_i n := m1)\<rparr>
                in case drop_count (xs ! ndx) w1 of
                     (False, w2) \<Rightarrow> (Inr (), w2)
                   | (True, w2) \<Rightarrow> (Inl SelfDeadlock, w2)))"

definition ep_drop :: "nat \<Rightarrow> (world, unit) oper" where
  "ep_drop i w =
     (case drop_count i w of
        (False, w1) \<Rightarrow> (Inr (), w1)
      | (True, w1) \<Rightarrow> net_drop_endpoint (net_of w1 i) i w1)"

definition add_endpoint :: "net_handle \<Rightarrow> nat \<Rightarrow> (world, unit) oper" where
  "add_endpoint n i = on_net n (\<lambda>s. ((), s\<lparr>endpoints := endpoints s @ [i]\<rparr>))"

definition new_endpoint_withid :: "net_handle \<Rightarrow> u64 \<Rightarrow> (world, nat) oper" where
  "new_endpoint_withid n e w =
     (if poisoned (nets w (net_i n)) then (Inl LockPoisoned, w)
      else
        let i = guarded (nets w (net_i n));
            i1 = (if e > hueid i then i\<lparr>hueid := e + 1\<rparr> else i)
        in case ep_alloc (endpoint_new (net_sid n) e (net_clone n)) w of
             (x, w1) \<Rightarrow>
               (let w2 = ep_clone x w1;
                    i2 = i1\<lparr>endpoints := endpoints i1 @ [x]\<rparr>
                in (Inr x, w2\<lparr>nets := (nets w2)(net_i n := \<lparr>guarded = i2, poisoned = False\<rparr>)\<rparr>)))"

definition new_endpoint :: "net_handle \<Rightarrow> (world, nat) oper" where
  "new_endpoint n w =
     (if poisoned (nets w (net_i n)) then (Inl LockPoisoned, w)
      else
        let i = guarded (nets w (net_i n))
        in case ep_alloc (endpoint_new (net_sid n) (hueid i) (net_clone n)) w of
             (x, w1) \<Rightarrow>
               (let i1 = i\<lparr>hueid := hueid i + 1\<rparr>;
                    w2 = ep_clone x w1;
                    i2 = i1\<lparr>endpoints := endpoints i1 @ [x]\<rparr>
                in (Inr x, w2\<lparr>nets := (nets w2)(net_i n := \<lparr>guarded = i2, poisoned = False\<rparr>)\<rparr>)))"

section \<open>Sending\<close>

fun give_all :: "message \<Rightarrow> nat list \<Rightarrow> usize \<Rightarrow> (world, usize) oper" where
  "give_all m [] cnt w = (Inr cnt, w)"
| "give_all m (i # is) cnt w =
     (case at_ep i (give m) w of
        (Inl f, w1) \<Rightarrow> (Inl f, w1)
      | (Inr b, w1) \<Rightarrow> give_all m is (if b then cnt + 1 else cnt) w1)"

fun drop_all :: "nat list \<Rightarrow> (world, unit) oper" where
  "drop_all [] w = (Inr (), w)"
| "drop_all (i # is) w =
     (case ep_drop i w of (Inl f, w1) \<Rightarrow> (Inl f, w1) | (Inr _, w1) \<Rightarrow> drop_all is w1)"

text \<open>
  The message is given to a snapshot of the net's endpoints, handles of their own that are dropped
  at the end (also when a panic unwinds).
\<close>

definition send_internal :: "net_handle \<Rightarrow> message \<Rightarrow> (world, usize) oper" where
  "send_internal n m w =
     (if poisoned (nets w (net_i n)) then (Inl LockPoisoned, w)
      else
        let local = endpoints (guarded (nets w (net_i n)));
            w1 = fold ep_clone local w
        in case give_all m local 0 w1 of
             (r, w2) \<Rightarrow>
               (case drop_all local w2 of
                  (Inl f, w3) \<Rightarrow> (Inl f, w3)
                | (Inr _, w3) \<Rightarrow> (r, w3)))"

definition net_send :: "net_handle \<Rightarrow> message \<Rightarrow> (world, usize) oper" where
  "net_send n m =
     (if is_raw m then bindO (on_heap (message_dup m)) (send_internal n) else send_internal n m)"

definition sendas :: "net_handle \<Rightarrow> message \<Rightarrow> u64 \<Rightarrow> u64 \<Rightarrow> (world, usize) oper" where
  "sendas n m fromsid fromeid = net_send n (m\<lparr>srcsid := fromsid, srceid := fromeid\<rparr>)"

definition ep_sendx :: "nat \<Rightarrow> message \<Rightarrow> (world, usize) oper" where
  "ep_sendx i m w = net_send (net_of w i) m w"

definition ep_send :: "nat \<Rightarrow> message \<Rightarrow> (world, usize) oper" where
  "ep_send i m w =
     (let s = sid (address (eps w i)); e = eid (address (eps w i))
      in sendas (net_of w i) m s e w)"

definition sendsynctype :: "nat \<Rightarrow> rtype \<Rightarrow> cell list \<Rightarrow> (world, usize) oper" where
  "sendsynctype i T t =
     bindO (on_heap (new_sync T t)) (\<lambda>m. ep_send i (m\<lparr>dstsid := 1, dsteid := 0\<rparr>))"

definition sendclonetype :: "nat \<Rightarrow> rtype \<Rightarrow> cell list \<Rightarrow> (world, usize) oper" where
  "sendclonetype i T t =
     bindO (on_heap (new_clone T t)) (\<lambda>m. ep_send i (m\<lparr>dstsid := 1, dsteid := 0\<rparr>))"

definition getpeercount :: "nat \<Rightarrow> (world, usize) oper" where
  "getpeercount i w = getepcount (net_of w i) w"

section \<open>The sleeper thread\<close>

definition NET_MAXLATENCY :: int where
  "NET_MAXLATENCY = 100000"

definition NET_MINLATENCY :: int where
  "NET_MINLATENCY = 100"

definition sleeper_check :: "timespec \<Rightarrow> endpoint \<Rightarrow> endpoint" where
  "sleeper_check ctime e =
     (if ctime > getwaketime e \<or> hasmessages e \<and> sleepercount e > 0 then wakeonewaiter e else e)"

text \<open>One round; the result is \<open>wokesomeone\<close>.\<close>

definition sleeper_round :: "net_handle \<Rightarrow> timespec \<Rightarrow> (world, bool) oper" where
  "sleeper_round n ctime w =
     (if poisoned (nets w (net_i n)) then (Inl LockPoisoned, w)
      else
        let wokesomeone = False;
            w1 = fold (\<lambda>i. on_ep i (sleeper_check ctime)) (endpoints (guarded (nets w (net_i n)))) w
        in (Inr wokesomeone, w1))"

definition sleeper_adjust :: "bool \<Rightarrow> int \<Rightarrow> int" where
  "sleeper_adjust wokesomeone latency =
     (if wokesomeone then
        let l = latency div 2 in if l < NET_MINLATENCY then NET_MINLATENCY else l
      else
        let l = latency * 2 in if l > NET_MAXLATENCY then NET_MAXLATENCY else l)"

text \<open>The thread, for as many rounds as there are clock readings: the latencies it slept for.\<close>

fun sleeperthread_from :: "net_handle \<Rightarrow> int \<Rightarrow> (timespec \<times> (world \<Rightarrow> world)) list \<Rightarrow> (world, int list) oper" where
  "sleeperthread_from n latency [] w = (Inr [], w)"
| "sleeperthread_from n latency ((ctime, others) # rounds) w =
     (case sleeper_round n ctime (others w) of
        (Inl f, w1) \<Rightarrow> (Inl f, w1)
      | (Inr woke, w1) \<Rightarrow>
          (case sleeperthread_from n (sleeper_adjust woke latency) rounds w1 of
             (Inl f, w2) \<Rightarrow> (Inl f, w2)
           | (Inr ls, w2) \<Rightarrow> (Inr (latency # ls), w2)))"

definition sleeperthread :: "net_handle \<Rightarrow> (timespec \<times> (world \<Rightarrow> world)) list \<Rightarrow> (world, int list) oper" where
  "sleeperthread n = sleeperthread_from n NET_MAXLATENCY"

end
