(* ===== verification/Delivery.thy ===== *)
theory Delivery
  imports Net "HOL-Library.Sublist"
begin

text \<open>
  What sending delivers: the exact effect of one send, and, over any run of the program, the
  guarantee of each kind of message (a sync message is received once, the buffer of a raw message
  is not shared).
\<close>

section \<open>What an operation leaves alone\<close>

definition queue :: "world \<Rightarrow> nat \<Rightarrow> message list" where
  "queue w i = vec (messages (eps w i))"

text \<open>The heap only grew.\<close>

definition heap_grows :: "heap \<Rightarrow> heap \<Rightarrow> bool" where
  "heap_grows h h' \<longleftrightarrow>
     raw_lim h \<le> raw_lim h' \<and> valid_lim h \<le> valid_lim h' \<and>
     (\<forall>b < raw_lim h. raws h' b = raws h b) \<and> (\<forall>v < valid_lim h. valids h' v = valids h v) \<and>
     (heap_wf h \<longrightarrow> heap_wf h')"

text \<open>The queues only got longer at the end.\<close>

definition grows :: "world \<Rightarrow> world \<Rightarrow> bool" where
  "grows w w' \<longleftrightarrow>
     heap_grows (heap w) (heap w') \<and> ep_lim w \<le> ep_lim w' \<and>
     (\<forall>i < ep_lim w. prefix (queue w i) (queue w' i))"

lemma heap_grows_refl [simp]: "heap_grows h h"
  by (simp add: heap_grows_def)

lemma heap_grows_trans: "heap_grows h1 h2 \<Longrightarrow> heap_grows h2 h3 \<Longrightarrow> heap_grows h1 h3"
  by (auto simp: heap_grows_def)

lemma grows_refl [simp]: "grows w w"
  by (simp add: grows_def)

lemma grows_trans: "grows w1 w2 \<Longrightarrow> grows w2 w3 \<Longrightarrow> grows w1 w3"
  unfolding grows_def by (auto intro: heap_grows_trans elim!: prefix_order.trans)

lemma grows_same: "heap w' = heap w \<Longrightarrow> ep_lim w' = ep_lim w \<Longrightarrow> (\<And>i. queue w' i = queue w i) \<Longrightarrow> grows w w'"
  by (simp add: grows_def)

lemma heap_grows_alloc: "raw_wf i \<Longrightarrow> heap_grows h (snd (alloc_raw i h))"
  by (auto simp: heap_grows_def alloc_raw_wf)

lemma message_dup_grows:
  assumes "heap_wf h"
  shows "heap_grows h (snd (message_dup m h))"
proof -
  have "heap_grows h (snd (raw_dup r h))" for r
    using assms
    by (cases "poisoned (raws h r)")
      (simp_all add: raw_dup_free heap_grows_alloc raw_wf_def heap_wfD [unfolded raw_wf_def])
  then show ?thesis by (simp add: message_dup_def failO_def split: payload.splits)
qed

lemma writestruct_grows:
  "heap_grows h (snd (raw_writestruct (raw_lim h) off t (snd (raw_new c h))))"
proof -
  have "heap_wf (snd (on_raw (raw_lim h) (raw_internal_writestructref off t) (snd (raw_new c h))))"
    if "heap_wf h"
    using that by (intro write_struct_op.on_raw_wf raw_new_wf)
  then show ?thesis
    by (simp add: heap_grows_def raw_writestruct_def raw_writestructref_def on_raw_frame raw_new_frame)
      (simp add: raw_new_def)
qed

lemma alloc_valid_grows: "heap_grows h (snd (alloc_valid h))"
  by (auto simp: heap_grows_def alloc_valid_def heap_wf_def)

text \<open>Everything \<open>give\<close> leaves alone, also when it panics.\<close>

lemma give_put_frame:
  assumes "give_put m (h, e) = (r, (h', e'))"
  shows "h' = h \<and> prefix (vec (messages e)) (vec (messages e')) \<and>
    refcnt e' = refcnt e \<and> dropped e' = dropped e \<and> net e' = net e"
proof (cases "addressed e m \<and> has_room e")
  case True
  with assms show ?thesis
    by (cases "poisoned (raws h (buffer_of m))")
      (auto simp: give_put_take Let_def split: if_splits)
next
  case False
  with assms show ?thesis by (simp add: give_put_refuse)
qed

lemma give_frame:
  assumes "give m (h, e) = (r, (h', e'))"
  shows "h' = h \<and> prefix (vec (messages e)) (vec (messages e')) \<and>
    refcnt e' = refcnt e \<and> dropped e' = dropped e \<and> net e' = net e"
proof -
  obtain r1 h1 e1 where g: "give_put m (h, e) = (r1, (h1, e1))" by (metis prod.collapse)
  from give_put_frame [OF g] g assms show ?thesis
    by (auto simp: give_def wakeonewaiter_def split: sum.splits bool.splits)
qed

lemma on_ep_simps [simp]:
  "heap (on_ep i f w) = heap w" "ep_lim (on_ep i f w) = ep_lim w" "nets (on_ep i f w) = nets w"
  "net_lim (on_ep i f w) = net_lim w" "eps (on_ep i f w) = (eps w)(i := f (eps w i))"
  by (simp_all add: on_ep_def)

lemma on_ep_queue: "(\<And>e. messages (f e) = messages e) \<Longrightarrow> queue (on_ep i f w) j = queue w j"
  by (simp add: queue_def)

lemma on_ep_grows: "(\<And>e. messages (f e) = messages e) \<Longrightarrow> grows w (on_ep i f w)"
  by (intro grows_same on_ep_queue) simp_all

lemma give_grows: "grows w (snd (at_ep i (give m) w))"
proof -
  obtain r h e where g: "give m (heap w, eps w i) = (r, (h, e))" by (metis prod.collapse)
  from give_frame [OF g] g show ?thesis by (auto simp: at_ep_def grows_def queue_def)
qed

lemma give_all_grows: "grows w (snd (give_all m is cnt w))"
proof (induction "is" arbitrary: cnt w)
  case Nil
  then show ?case by simp
next
  case (Cons i "is")
  obtain r w1 where g: "at_ep i (give m) w = (r, w1)" by (meson surj_pair)
  with give_grows [of w i m] have "grows w w1" by simp
  with g Cons.IH show ?case by (auto split: sum.splits intro: grows_trans)
qed

lemma ep_clone_grows: "grows w (ep_clone i w)"
  by (simp add: ep_clone_def on_ep_grows)

lemma clones_grow: "grows w (fold ep_clone is w)"
  by (induction "is" arbitrary: w) (auto intro: grows_trans ep_clone_grows)

lemma drop_count_grows: "grows w (snd (drop_count i w))"
  by (auto simp: drop_count_def Let_def grows_def queue_def)

lemma set_nets_grows: "grows w w' \<Longrightarrow> grows w (w'\<lparr>nets := ns\<rparr>)" "grows (w\<lparr>nets := ns\<rparr>) w' \<Longrightarrow> grows w w'"
  by (simp_all add: grows_def queue_def)

lemma net_drop_grows: "grows w (snd (net_drop_endpoint n i w))"
proof -
  have d: "grows w w2" if "drop_count j (w\<lparr>nets := ns\<rparr>) = (b, w2)" for j ns b w2
    using drop_count_grows [of "w\<lparr>nets := ns\<rparr>" j] that by (auto intro: set_nets_grows(2))
  show ?thesis
    by (auto simp: net_drop_endpoint_def Let_def set_nets_grows(1) split: sum.splits option.splits
        prod.splits bool.splits intro: d)
qed

lemma ep_drop_grows: "grows w (snd (ep_drop i w))"
proof -
  obtain b w1 where d: "drop_count i w = (b, w1)" by (meson surj_pair)
  with drop_count_grows [of w i] have "grows w w1" by simp
  with d net_drop_grows show ?thesis by (auto simp: ep_drop_def split: bool.splits intro: grows_trans)
qed

lemma drop_all_grows: "grows w (snd (drop_all is w))"
proof (induction "is" arbitrary: w)
  case Nil
  then show ?case by simp
next
  case (Cons i "is")
  obtain r w1 where g: "ep_drop i w = (r, w1)" by (meson surj_pair)
  with ep_drop_grows [of w i] have "grows w w1" by simp
  with g Cons.IH show ?case by (auto split: sum.splits intro: grows_trans)
qed

lemma send_internal_grows: "grows w (snd (send_internal n m w))"
proof -
  let ?is = "endpoints (guarded (nets w (net_i n)))"
  obtain r w2 where g: "give_all m ?is 0 (fold ep_clone ?is w) = (r, w2)" by (meson surj_pair)
  obtain s w3 where d: "drop_all ?is w2 = (s, w3)" by (meson surj_pair)
  have "grows w w3"
    using clones_grow [of w ?is] give_all_grows [of "fold ep_clone ?is w" m ?is 0]
      drop_all_grows [of w2 ?is] g d by (auto intro: grows_trans)
  with g d show ?thesis by (simp add: send_internal_def Let_def split: sum.splits)
qed

lemma bindO_grows:
  "grows w (snd (f w)) \<Longrightarrow> (\<And>x v. f w = (Inr x, v) \<Longrightarrow> grows v (snd (k x v))) \<Longrightarrow> grows w (snd (bindO f k w))"
  by (cases "f w"; cases "fst (f w)") (auto intro: grows_trans)

lemma on_heap_grows: "heap_grows (heap w) (snd (f (heap w))) \<Longrightarrow> grows w (snd (on_heap f w))"
  by (auto simp: on_heap_def grows_def queue_def split: prod.splits)

lemma net_send_grows: "heap_wf (heap w) \<Longrightarrow> grows w (snd (net_send n m w))"
  by (simp add: net_send_def send_internal_grows bindO_grows on_heap_grows message_dup_grows)

lemma heap_wf_grows: "grows w w' \<Longrightarrow> heap_wf (heap w) \<Longrightarrow> heap_wf (heap w')"
  by (simp add: grows_def heap_grows_def)

section \<open>Runs of a program\<close>

text \<open>The calls a program can make, one after another; a call that panics ends with its failure.\<close>

datatype call =
    CallNet u64
  | CallNewEndpoint net_handle
  | CallNewEndpointWithId net_handle u64
  | CallClone nat
  | CallDrop nat
  | CallSend nat message
  | CallSendx nat message
  | CallSendSync nat rtype "cell list"
  | CallSendClone nat rtype "cell list"
  | CallRecv nat
  | CallRaw raw_cmd
  | CallSetLimitPending nat usize
  | CallSetLimitMemory nat usize
  | CallSetEid nat u64
  | CallSetSid nat u64
  | CallSetGid nat u64

datatype outcome =
    Done
  | Handle nat
  | NetHandle net_handle
  | Count usize
  | Got "message io_result"
  | Panicked failure

definition outcome_of :: "('a \<Rightarrow> outcome) \<Rightarrow> (failure + 'a) \<times> world \<Rightarrow> outcome \<times> world" where
  "outcome_of k rw = (case rw of (Inl f, w) \<Rightarrow> (Panicked f, w) | (Inr x, w) \<Rightarrow> (k x, w))"

fun run_call :: "call \<Rightarrow> world \<Rightarrow> outcome \<times> world" where
  "run_call (CallNet s) w = (case net_new s w of (n, w') \<Rightarrow> (NetHandle n, w'))"
| "run_call (CallNewEndpoint n) w = outcome_of Handle (new_endpoint n w)"
| "run_call (CallNewEndpointWithId n e) w = outcome_of Handle (new_endpoint_withid n e w)"
| "run_call (CallClone i) w = (Handle i, ep_clone i w)"
| "run_call (CallDrop i) w = outcome_of (\<lambda>_. Done) (ep_drop i w)"
| "run_call (CallSend i m) w = outcome_of Count (ep_send i m w)"
| "run_call (CallSendx i m) w = outcome_of Count (ep_sendx i m w)"
| "run_call (CallSendSync i T t) w = outcome_of Count (sendsynctype i T t w)"
| "run_call (CallSendClone i T t) w = outcome_of Count (sendclonetype i T t w)"
| "run_call (CallRecv i) w = outcome_of Got (at_ep i ep_recv w)"
| "run_call (CallRaw c) w = outcome_of (\<lambda>_. Done) (on_heap (raw_exec c) w)"
| "run_call (CallSetLimitPending i l) w = (Done, on_ep i (setlimitpending l) w)"
| "run_call (CallSetLimitMemory i l) w = (Done, on_ep i (setlimitmemory l) w)"
| "run_call (CallSetEid i x) w = (Done, on_ep i (seteid x) w)"
| "run_call (CallSetSid i x) w = (Done, on_ep i (setsid x) w)"
| "run_call (CallSetGid i x) w = (Done, on_ep i (setgid x) w)"

fun run_calls :: "call list \<Rightarrow> world \<Rightarrow> outcome list \<times> world" where
  "run_calls [] w = ([], w)"
| "run_calls (c # cs) w =
     (case run_call c w of (r, w1) \<Rightarrow> (case run_calls cs w1 of (rs, w2) \<Rightarrow> (r # rs, w2)))"

lemma snd_outcome_of [simp]: "snd (outcome_of k rw) = snd rw"
  by (simp add: outcome_of_def split: prod.splits sum.splits)

lemma new_endpoint_grows:
  "grows w (snd (new_endpoint n w))" "grows w (snd (new_endpoint_withid n e w))"
  by (auto simp: new_endpoint_def new_endpoint_withid_def Let_def ep_alloc_def ep_clone_def grows_def
      queue_def)

lemma new_messages_grow:
  "heap_grows h (snd (new_sync T t h))" "heap_grows h (snd (new_clone T t h))"
proof -
  let ?w = "raw_writestruct (raw_lim h) 0 t (snd (raw_new (of_nat (ty_size T)) h))"
  obtain r h2 where w: "?w = (r, h2)" by (meson surj_pair)
  have g: "heap_grows h h2"
    using writestruct_grows [of h 0 t "of_nat (ty_size T)"] w by simp
  have "heap_grows h (snd (alloc_valid h2))" using g alloc_valid_grows by (rule heap_grows_trans)
  with w g show "heap_grows h (snd (new_clone T t h))" and "heap_grows h (snd (new_sync T t h))"
    by (cases r; simp add: new_clone_def clone_new_def new_sync_def sync_new_def raw_new_def
      alloc_raw_def alloc_valid_def bindO_def)+
qed

lemma ep_send_grows:
  "heap_wf (heap w) \<Longrightarrow> grows w (snd (ep_send i m w))"
  "heap_wf (heap w) \<Longrightarrow> grows w (snd (ep_sendx i m w))"
  by (simp_all add: ep_send_def ep_sendx_def sendas_def net_send_grows)

lemma sendtype_grows:
  assumes "heap_wf (heap w)" and "heap_grows (heap w) (snd (f (heap w)))"
  shows "grows w (snd (bindO (on_heap f) (\<lambda>m. ep_send i (g m)) w))"
proof (rule bindO_grows)
  show g: "grows w (snd (on_heap f w))" using assms(2) by (rule on_heap_grows)
  fix x v
  assume "on_heap f w = (Inr x, v)"
  with g assms(1) heap_wf_grows [of w v] show "grows v (snd (ep_send i (g x) v))"
    by (simp add: ep_send_grows)
qed

lemma run_call_grows:
  assumes "heap_wf (heap w)" and "\<And>i. c \<noteq> CallRecv i" and "\<And>x. c \<noteq> CallRaw x"
  shows "grows w (snd (run_call c w))"
  using assms
  by (cases c)
    (simp_all add: net_new_def grows_same queue_def new_endpoint_grows ep_clone_grows ep_drop_grows
      ep_send_grows sendsynctype_def sendclonetype_def sendtype_grows new_messages_grow on_ep_grows
      setlimitpending_def setlimitmemory_def seteid_def setsid_def setgid_def, blast+)

section \<open>Sync messages\<close>

definition carries :: "nat \<Rightarrow> message \<Rightarrow> bool" where
  "carries v m = (case payload m of Sync s \<Rightarrow> sm_valid s = v | _ \<Rightarrow> False)"

text \<open>An outcome that hands the sync message with flag \<open>v\<close> to a receiver.\<close>

definition takes :: "nat \<Rightarrow> outcome \<Rightarrow> bool" where
  "takes v o' = (case o' of Got (Ok m) \<Rightarrow> carries v m | _ \<Rightarrow> False)"

definition panicked :: "outcome \<Rightarrow> bool" where
  "panicked o' = (case o' of Panicked f \<Rightarrow> True | _ \<Rightarrow> False)"

lemma takes_simps [simp]:
  "\<not> takes v Done" "\<not> takes v (Handle i)" "\<not> takes v (NetHandle n)" "\<not> takes v (Count k)"
  "\<not> takes v (Panicked f)" "takes v (Got (Ok m)) = carries v m" "\<not> takes v (Got (Err er))"
  by (simp_all add: takes_def)

lemma carries_received [simp]: "carries v (fst (received m h)) = carries v m"
  by (simp add: received_def carries_def split: payload.splits)

lemma valids_received:
  "\<not> stale h m \<Longrightarrow> valids (snd (received m h)) v = (valids h v \<and> \<not> carries v m)"
  by (auto simp: received_def carries_def stale_def split: payload.splits)

lemma carries_fresh: "\<not> stale h m \<Longrightarrow> carries v m \<Longrightarrow> valids h v"
  by (auto simp: carries_def stale_def split: payload.splits)

text \<open>
  A receive, panicking or not: it takes the flag of the message it returns and no other, and every
  message that is not stale stays in the queue unless it is the one returned.
\<close>

lemma recv_flags:
  assumes "ep_recv (h, e) = (r, (h', e'))" and "heap_wf h"
  shows "(\<forall>v. valids h' v = (valids h v \<and> \<not> takes v (fst (outcome_of Got (r, w))))) \<and>
    (\<forall>v. takes v (fst (outcome_of Got (r, w))) \<longrightarrow> valids h v) \<and>
    heap_wf h' \<and> raw_lim h \<le> raw_lim h' \<and> valid_lim h' = valid_lim h \<and>
    (\<forall>b < raw_lim h. raws h' b = raws h b) \<and>
    (\<forall>m v. m \<in> set (vec (messages e)) \<and> carries v m \<and> valids h v \<and> (\<exists>x. r = Inr x) \<longrightarrow>
       takes v (fst (outcome_of Got (r, w))) \<or> m \<in> set (vec (messages e')))"
  using assms(1)
proof (induction "length (vec (messages e))" arbitrary: e)
  case 0
  with assms(2) show ?case by (auto simp: recv_empty outcome_of_def)
next
  case (Suc n)
  then obtain m ms where q: "vec (messages e) = m # ms" by (cases "vec (messages e)") auto
  consider (poisoned) "poisoned (raws h (buffer_of m))"
    | (stale) "\<not> poisoned (raws h (buffer_of m))" "stale h m"
    | (fresh) "\<not> poisoned (raws h (buffer_of m))" "\<not> stale h m" by blast
  then show ?case
  proof cases
    case poisoned
    from Suc.prems assms(2) show ?thesis
      unfolding recv_poisoned [OF q poisoned] by (auto simp: outcome_of_def)
  next
    case stale
    let ?e = "e\<lparr>messages := \<lparr>vec = ms\<rparr>,
      memoryused := memoryused e - rcap (guarded (raws h (buffer_of m)))\<rparr>"
    have n: "n = length (vec (messages ?e))" using q Suc.hyps(2) by simp
    have live: "\<not> (carries v m \<and> valids h v)" for v
      using stale(2) by (auto simp: stale_def carries_def split: payload.splits)
    from Suc.prems have "ep_recv (h, ?e) = (r, (h', e'))" unfolding recv_stale [OF q stale(2,1)] .
    from Suc.hyps(1) [OF n this] live q show ?thesis by (simp, blast)
  next
    case fresh
    from Suc.prems have eqs: "r = Inr (Ok (fst (received m h)))" "h' = snd (received m h)"
      "vec (messages e') = ms"
      unfolding recv_fresh [OF q fresh(2,1) assms(2)] by auto
    have "valid_lim (snd (received m h)) = valid_lim h"
      by (simp add: received_def split: payload.splits)
    with eqs q fresh(2) received_frame(1,2) [of h m] received_frame(3) [of _ h m] assms(2) show ?thesis
      by (auto simp: outcome_of_def valids_received intro: carries_fresh)
  qed
qed

text \<open>One call, seen from a sync message in the queue of endpoint \<open>i\<close>.\<close>

lemma raw_exec_frame:
  assumes "heap_wf (heap w)"
  shows "heap_wf (heap (snd (on_heap (raw_exec c) w)))"
    "raw_lim (heap w) \<le> raw_lim (heap (snd (on_heap (raw_exec c) w)))"
    "valids (heap (snd (on_heap (raw_exec c) w))) = valids (heap w)"
    "valid_lim (heap (snd (on_heap (raw_exec c) w))) = valid_lim (heap w)"
    "eps (snd (on_heap (raw_exec c) w)) = eps w"
    "ep_lim (snd (on_heap (raw_exec c) w)) = ep_lim w"
  using raw_step_wf [OF assms, of c] raw_step_lim [OF assms, of c] raw_step_valids [of "heap w" c]
  by (auto simp: on_heap_def raw_step_def split: prod.splits)

lemma recv_call_frame:
  assumes "heap_wf (heap w)" and "at_ep j ep_recv w = (r, w')"
  shows "(\<forall>v. valids (heap w') v = (valids (heap w) v \<and> \<not> takes v (fst (outcome_of Got (r, w'))))) \<and>
    (\<forall>v. takes v (fst (outcome_of Got (r, w'))) \<longrightarrow> valids (heap w) v) \<and>
    heap_wf (heap w') \<and> raw_lim (heap w) \<le> raw_lim (heap w') \<and>
    valid_lim (heap w') = valid_lim (heap w) \<and> ep_lim w' = ep_lim w \<and>
    (\<forall>b < raw_lim (heap w). raws (heap w') b = raws (heap w) b) \<and>
    (\<forall>m v i. m \<in> set (queue w i) \<and> carries v m \<and> valids (heap w) v \<and> (\<exists>x. r = Inr x) \<longrightarrow>
       takes v (fst (outcome_of Got (r, w'))) \<or> m \<in> set (queue w' i))"
proof -
  obtain h e where r: "ep_recv (heap w, eps w j) = (r, (h, e))" and w': "w' = w\<lparr>heap := h, eps := (eps w)(j := e)\<rparr>"
    using assms(2) by (auto simp: at_ep_def split: prod.splits)
  from recv_flags [OF r assms(1), of w'] show ?thesis by (auto simp: w' queue_def)
qed

lemma panicked_outcome: "(\<And>x. \<not> panicked (k x)) \<Longrightarrow> panicked (fst (outcome_of k (r, w))) \<longleftrightarrow> (\<exists>f. r = Inl f)"
  by (auto simp: outcome_of_def panicked_def split: sum.splits)

lemma not_takes_call: "(\<And>j. c \<noteq> CallRecv j) \<Longrightarrow> run_call c w = (o', w') \<Longrightarrow> \<not> takes v o'"
  by (cases c) (auto simp: outcome_of_def split: prod.splits sum.splits)

lemma call_flag:
  assumes "heap_wf (heap w)" and "v < valid_lim (heap w)" and "run_call c w = (o', w')"
  shows "valids (heap w') v = (valids (heap w) v \<and> \<not> takes v o') \<and> (takes v o' \<longrightarrow> valids (heap w) v) \<and>
    heap_wf (heap w') \<and> v < valid_lim (heap w') \<and> ep_lim w \<le> ep_lim w' \<and>
    (\<forall>i m. i < ep_lim w \<and> m \<in> set (queue w i) \<and> carries v m \<and> valids (heap w) v \<and> \<not> panicked o' \<longrightarrow>
       takes v o' \<or> m \<in> set (queue w' i))"
proof (cases "\<exists>j. c = CallRecv j")
  case True
  then obtain j where c: "c = CallRecv j" ..
  obtain r w1 where a: "at_ep j ep_recv w = (r, w1)" by (meson surj_pair)
  have "w1 = w'" and o': "o' = fst (outcome_of Got (r, w'))"
    using assms(3) a c by (auto simp: outcome_of_def split: sum.splits)
  have p: "panicked o' \<longleftrightarrow> (\<exists>f. r = Inl f)"
    unfolding o' by (rule panicked_outcome) (simp add: panicked_def)
  show ?thesis
    using recv_call_frame [OF assms(1) a [unfolded \<open>w1 = w'\<close>]] assms(2) p
    unfolding o' [symmetric] by (cases r) auto
next
  case False
  then have nt: "\<not> takes v o'" by (intro not_takes_call [OF _ assms(3)]) blast
  show ?thesis
  proof (cases "\<exists>x. c = CallRaw x")
    case True
    then obtain x where c: "c = CallRaw x" ..
    then have "w' = snd (on_heap (raw_exec x) w)" using assms(3) by (simp add: prod_eq_iff)
    with raw_exec_frame [OF assms(1), of x] assms(2) nt show ?thesis by (simp add: queue_def)
  next
    case no_raw: False
    with False run_call_grows [OF assms(1), of c] assms(3) have "grows w w'" by simp
    moreover have "set (queue w i) \<subseteq> set (queue w' i)" if "i < ep_lim w" for i
      using \<open>grows w w'\<close> that by (simp add: grows_def set_mono_prefix)
    ultimately show ?thesis using assms(1,2) nt by (auto simp: grows_def heap_grows_def)
  qed
qed

definition times_taken :: "nat \<Rightarrow> outcome list \<Rightarrow> nat" where
  "times_taken v os = length (filter (takes v) os)"

lemma calls_flag:
  assumes "heap_wf (heap w)" and "v < valid_lim (heap w)" and "run_calls cs w = (os, w')"
  shows "times_taken v os + of_bool (valids (heap w') v) = of_bool (valids (heap w) v) \<and>
    (\<forall>i m. i < ep_lim w \<and> m \<in> set (queue w i) \<and> carries v m \<and> valids (heap w') v \<and>
       list_all (\<lambda>x. \<not> panicked x) os \<longrightarrow> m \<in> set (queue w' i))"
  using assms
proof (induction cs arbitrary: w os)
  case Nil
  then show ?case by (simp add: times_taken_def)
next
  case (Cons c cs)
  obtain x w1 where c: "run_call c w = (x, w1)" by (meson surj_pair)
  obtain xs w2 where t: "run_calls cs w1 = (xs, w2)" by (meson surj_pair)
  have os: "os = x # xs" "w2 = w'" using Cons.prems(3) c t by simp_all
  note f = call_flag [OF Cons.prems(1,2) c]
  from f have w1: "heap_wf (heap w1)" "v < valid_lim (heap w1)" by blast+
  note IH = Cons.IH [OF w1 t [unfolded os]]
  show ?case
  proof (cases "takes v x")
    case True
    with f IH show ?thesis by (simp add: os times_taken_def)
  next
    case False
    with f IH show ?thesis by (auto simp: os times_taken_def)
  qed
qed

section \<open>The effect of one send\<close>

definition accepts :: "endpoint \<Rightarrow> message \<Rightarrow> bool" where
  "accepts e m \<longleftrightarrow> addressed e m \<and> has_room e"

text \<open>
  A net on which nothing panicked, whose endpoints have a handle outside the net (or are being
  removed).
\<close>

definition ready :: "net_handle \<Rightarrow> world \<Rightarrow> bool" where
  "ready n w \<longleftrightarrow>
     \<not> poisoned (nets w (net_i n)) \<and> distinct (endpoints (guarded (nets w (net_i n)))) \<and>
     (\<forall>i \<in> set (endpoints (guarded (nets w (net_i n)))).
        \<not> poisoned (waitmutex (eps w i)) \<and> (refcnt (eps w i) \<noteq> 1 \<or> dropped (eps w i)))"

definition map_eps :: "nat set \<Rightarrow> (endpoint \<Rightarrow> endpoint) \<Rightarrow> world \<Rightarrow> world" where
  "map_eps A f w = w\<lparr>eps := (\<lambda>i. if i \<in> A then f (eps w i) else eps w i)\<rparr>"

lemma map_eps_simps [simp]:
  "heap (map_eps A f w) = heap w" "nets (map_eps A f w) = nets w"
  "eps (map_eps A f w) i = (if i \<in> A then f (eps w i) else eps w i)"
  by (simp_all add: map_eps_def)

lemma map_eps_empty [simp]: "map_eps {} f w = w"
  by (simp add: map_eps_def)

lemma map_eps_on_ep: "i \<notin> A \<Longrightarrow> map_eps A f (on_ep i f w) = map_eps (insert i A) f w"
  by (auto simp: map_eps_def on_ep_def fun_eq_iff)

lemma clones_eq:
  "distinct is \<Longrightarrow> fold ep_clone is w = map_eps (set is) (\<lambda>e. e\<lparr>refcnt := refcnt e + 1\<rparr>) w"
  by (induction "is" arbitrary: w) (simp_all add: ep_clone_def map_eps_on_ep)

definition take_message :: "heap \<Rightarrow> message \<Rightarrow> endpoint \<Rightarrow> endpoint" where
  "take_message h m e = (if accepts e m then wakeonewaiter (enqueue h m e) else e)"

lemma at_give_eq:
  assumes "\<not> poisoned (waitmutex (eps w i))" and "\<not> poisoned (raws (heap w) (buffer_of m))"
  shows "at_ep i (give m) w = (Inr (accepts (eps w i) m), on_ep i (take_message (heap w) m) w)"
  using assms by (simp add: at_ep_def give_eq accepts_def take_message_def on_ep_def)

lemma give_all_eq:
  assumes "distinct is" and "\<forall>i \<in> set is. \<not> poisoned (waitmutex (eps w i))"
    and "\<not> poisoned (raws (heap w) (buffer_of m))"
  shows "give_all m is cnt w =
    (Inr (cnt + of_nat (length (filter (\<lambda>i. accepts (eps w i) m) is))),
     map_eps (set is) (take_message (heap w) m) w)"
  using assms
proof (induction "is" arbitrary: cnt w)
  case Nil
  then show ?case by simp
next
  case (Cons i "is")
  let ?w = "on_ep i (take_message (heap w) m) w"
  have "filter (\<lambda>j. accepts (eps ?w j) m) is = filter (\<lambda>j. accepts (eps w j) m) is"
    using Cons.prems(1) by (intro filter_cong) auto
  with Cons.IH [of ?w] Cons.prems show ?case
    by (simp add: at_give_eq map_eps_on_ep ac_simps)
qed

lemma drop_all_eq:
  assumes "distinct is" and "\<forall>i \<in> set is. refcnt (eps w i) \<noteq> 2 \<or> dropped (eps w i)"
  shows "drop_all is w = (Inr (), map_eps (set is) (\<lambda>e. e\<lparr>refcnt := refcnt e - 1\<rparr>) w)"
  using assms
proof (induction "is" arbitrary: w)
  case Nil
  then show ?case by simp
next
  case (Cons i "is")
  let ?w = "on_ep i (\<lambda>e. e\<lparr>refcnt := refcnt e - 1\<rparr>) w"
  have "refcnt (eps w i) - 1 = 1 \<longleftrightarrow> refcnt (eps w i) = 2" by (simp add: diff_eq_eq)
  then have "ep_drop i w = (Inr (), ?w)"
    using Cons.prems(2) by (auto simp: ep_drop_def drop_count_def Let_def)
  with Cons.IH [of ?w] Cons.prems show ?case by (simp add: map_eps_on_ep)
qed

lemma map_eps_comp: "map_eps A g (map_eps A f w) = map_eps A (g \<circ> f) w"
  by (simp add: map_eps_def fun_eq_iff)

lemma accepts_refcnt [simp]: "accepts (e\<lparr>refcnt := k\<rparr>) m = accepts e m"
  by (simp add: accepts_def addressed_def has_room_def)

lemma take_message_frame [simp]:
  "refcnt (take_message h m e) = refcnt e" "dropped (take_message h m e) = dropped e"
  by (simp_all add: take_message_def wakeonewaiter_def enqueue_def)

lemma send_internal_eq:
  assumes "ready n w" and "\<not> poisoned (raws (heap w) (buffer_of m))"
  defines "is \<equiv> endpoints (guarded (nets w (net_i n)))"
  shows "send_internal n m w =
    (Inr (of_nat (length (filter (\<lambda>i. accepts (eps w i) m) is))),
     map_eps (set is) (take_message (heap w) m) w)"
proof -
  let ?up = "\<lambda>e. e\<lparr>refcnt := refcnt e + 1\<rparr>" and ?down = "\<lambda>e. e\<lparr>refcnt := refcnt e - 1\<rparr>"
  let ?w1 = "map_eps (set is) ?up w"
  let ?w2 = "map_eps (set is) (take_message (heap w) m) ?w1"
  have d: "distinct is" using assms(1) by (simp add: ready_def is_def)
  have "give_all m is 0 ?w1 =
      (Inr (of_nat (length (filter (\<lambda>i. accepts (eps ?w1 i) m) is))), ?w2)"
    using assms(1,2) by (subst give_all_eq [OF d]) (auto simp: ready_def is_def)
  moreover have "filter (\<lambda>i. accepts (eps ?w1 i) m) is = filter (\<lambda>i. accepts (eps w i) m) is"
    by (intro filter_cong) auto
  ultimately have g: "give_all m is 0 ?w1 =
      (Inr (of_nat (length (filter (\<lambda>i. accepts (eps w i) m) is))), ?w2)" by simp
  have "refcnt e + 1 = 2 \<longleftrightarrow> refcnt e = 1" for e by (metis add_right_cancel one_add_one)
  then have "drop_all is ?w2 = (Inr (), map_eps (set is) ?down ?w2)"
    using assms(1) by (intro drop_all_eq [OF d]) (auto simp: ready_def is_def)
  moreover have "?down \<circ> (take_message (heap w) m \<circ> ?up) = take_message (heap w) m"
    by (rule ext) (simp add: take_message_def wakeonewaiter_def enqueue_def)
  ultimately have "drop_all is ?w2 = (Inr (), map_eps (set is) (take_message (heap w) m) w)"
    by (simp add: map_eps_comp)
  with g assms(1) show ?thesis
    by (simp add: send_internal_def Let_def ready_def flip: is_def) (simp add: clones_eq [OF d])
qed

text \<open>What \<open>send\<close> passes on: a raw message as a duplicate, the others as they are.\<close>

definition posted :: "message \<Rightarrow> heap \<Rightarrow> message \<times> heap" where
  "posted m h =
     (case payload m of
        Raw r \<Rightarrow> (m\<lparr>payload := Raw (raw_lim h)\<rparr>, snd (alloc_raw (dup_of (guarded (raws h r))) h))
      | _ \<Rightarrow> (m, h))"

lemma message_dup_posted:
  assumes "is_raw m" and "heap_wf h" and "\<not> poisoned (raws h (buffer_of m))"
  shows "message_dup m h = (Inr (fst (posted m h)), snd (posted m h))"
proof (cases "payload m")
  case (Raw r)
  with assms show ?thesis
    by (cases m) (simp add: message_dup_def posted_def buffer_of_def raw_dup_eq)
qed (use assms(1) in \<open>simp_all add: is_raw_def\<close>)

lemma posted_not_raw: "\<not> is_raw m \<Longrightarrow> posted m h = (m, h)"
  by (simp add: is_raw_def posted_def split: payload.splits)

lemma posted_free:
  "\<not> poisoned (raws h (buffer_of m)) \<Longrightarrow> \<not> poisoned (raws (snd (posted m h)) (buffer_of (fst (posted m h))))"
  by (simp add: posted_def buffer_of_def split: payload.splits)

lemma net_send_eq:
  assumes "ready n w" and "heap_wf (heap w)" and "\<not> poisoned (raws (heap w) (buffer_of m))"
  shows "net_send n m w =
    (let is = endpoints (guarded (nets w (net_i n))); (m', h') = posted m (heap w)
     in (Inr (of_nat (length (filter (\<lambda>i. accepts (eps w i) m') is))),
         map_eps (set is) (take_message h' m') (w\<lparr>heap := h'\<rparr>)))"
proof -
  obtain m' h' where p: "posted m (heap w) = (m', h')" by (meson surj_pair)
  let ?w = "w\<lparr>heap := h'\<rparr>"
  have s: "send_internal n m' ?w =
    (Inr (of_nat (length (filter (\<lambda>i. accepts (eps w i) m') (endpoints (guarded (nets w (net_i n))))))),
     map_eps (set (endpoints (guarded (nets w (net_i n))))) (take_message h' m') ?w)"
    using assms(1) posted_free [OF assms(3)] p
    by (subst send_internal_eq) (simp_all add: ready_def)
  show ?thesis
  proof (cases "is_raw m")
    case True
    with message_dup_posted [OF True assms(2,3)] p
    have "on_heap (message_dup m) w = (Inr m', ?w)" by (simp add: on_heap_def)
    with True s p show ?thesis by (simp add: net_send_def Let_def)
  next
    case False
    with p have "m' = m" "h' = heap w" by (simp_all add: posted_not_raw)
    with False s p show ?thesis by (simp add: net_send_def Let_def)
  qed
qed

lemma ep_send_eq:
  assumes "ready (net_of w i) w" and "heap_wf (heap w)"
    and "\<not> poisoned (raws (heap w) (buffer_of m))"
  shows "ep_send i m w =
    (let is = endpoints (guarded (nets w (net_i (net_of w i))));
         (m', h') = posted (m\<lparr>srcsid := getsid (eps w i), srceid := geteid (eps w i)\<rparr>) (heap w)
     in (Inr (of_nat (length (filter (\<lambda>j. accepts (eps w j) m') is))),
         w\<lparr>heap := h', eps := (\<lambda>j. if j \<in> set is \<and> accepts (eps w j) m'
             then wakeonewaiter (enqueue h' m' (eps w j)) else eps w j)\<rparr>))"
proof -
  let ?m = "m\<lparr>srcsid := getsid (eps w i), srceid := geteid (eps w i)\<rparr>"
  have "buffer_of ?m = buffer_of m" by (simp add: buffer_of_def)
  then show ?thesis
    using net_send_eq [OF assms(1,2), of ?m] assms(3)
    by (cases "posted ?m (heap w)")
      (simp add: ep_send_def sendas_def Let_def getsid_def geteid_def map_eps_def take_message_def
        if_distrib [where f = "\<lambda>e. _ e"] cong: if_cong conj_cong, auto simp: fun_eq_iff)
qed

text \<open>
  C3. Sending from an endpoint gives the message, with the endpoint's own address as its source,
  to exactly those endpoints of the net that it is addressed to and that are below their limits,
  each once, and the result is their number. A raw message is duplicated first, so the receivers'
  buffer is not the sender's. Nothing else changes: no reference count, no other endpoint, no net.
\<close>

theorem send_outcome:
  assumes "ready (net_of w i) w" and "heap_wf (heap w)"
    and "\<not> poisoned (raws (heap w) (buffer_of m))"
  shows "ep_send i m w =
    (let is = endpoints (guarded (nets w (net_i (net_of w i))));
         (m', h') = posted (m\<lparr>srcsid := getsid (eps w i), srceid := geteid (eps w i)\<rparr>) (heap w)
     in (Inr (of_nat (length (filter (\<lambda>j. accepts (eps w j) m') is))),
         w\<lparr>heap := h', eps := (\<lambda>j. if j \<in> set is \<and> accepts (eps w j) m'
             then wakeonewaiter (enqueue h' m' (eps w j)) else eps w j)\<rparr>))"
  using assms by (rule ep_send_eq)

text \<open>A net with two endpoints, and a heap with one buffer.\<close>

definition world_empty :: world where
  "world_empty = \<lparr>heap = heap_empty, eps = (\<lambda>_. endpoint_new 0 0 \<lparr>net_i = 0, net_sid = 0\<rparr>), ep_lim = 0,
     nets = (\<lambda>_. mutex_new \<lparr>endpoints = [], hueid = 0\<rparr>), net_lim = 0\<rparr>"

definition demo_world :: world where
  "demo_world = (snd (run_calls [CallNet 100, CallNewEndpoint demo_net, CallNewEndpoint demo_net]
     world_empty))\<lparr>heap := demo_heap\<rparr>"

lemma demo_world_simps [simp]:
  "heap demo_world = demo_heap" "ep_lim demo_world = 2"
  "guarded (nets demo_world 0) = \<lparr>endpoints = [0, 1], hueid = 0x10002\<rparr>"
  "\<not> poisoned (nets demo_world 0)"
  "eps demo_world 0 = (endpoint_new 100 0x10000 demo_net)\<lparr>refcnt := 2\<rparr>"
  "eps demo_world (Suc 0) = (endpoint_new 100 0x10001 demo_net)\<lparr>refcnt := 2\<rparr>"
  by (simp_all add: demo_world_def world_empty_def net_new_def new_endpoint_def outcome_of_def
      ep_alloc_def ep_clone_def on_ep_def Let_def demo_net_def net_clone_def endpoint_new_def)

lemma demo_world_queues: "j \<noteq> 0 \<Longrightarrow> j \<noteq> 1 \<Longrightarrow> messages (eps demo_world j) = \<lparr>vec = []\<rparr>"
  by (simp add: demo_world_def world_empty_def net_new_def new_endpoint_def outcome_of_def
      ep_alloc_def ep_clone_def on_ep_def Let_def demo_net_def net_clone_def endpoint_new_def sq_new_def)

lemma demo_ready: "ready demo_net demo_world"
  by (simp add: ready_def demo_net_def endpoint_new_def)

lemma demo_net_of: "net_of demo_world 0 = demo_net" "net_of demo_world (Suc 0) = demo_net"
  by (simp_all add: net_of_def endpoint_new_def)

theorem send_outcome_witness:
  "fst (ep_send 0 (demo_msg 1 0) demo_world) = Inr 1 \<and>
   queue (snd (ep_send 0 (demo_msg 1 0) demo_world)) 0 = [] \<and>
   length (queue (snd (ep_send 0 (demo_msg 1 0) demo_world)) 1) = 1"
proof -
  have "\<not> poisoned (raws (heap demo_world) (buffer_of (demo_msg 1 0)))"
    by (simp add: demo_msg_def new_fromraw_def buffer_of_def)
  with demo_ready demo_heap_wf show ?thesis
    by (subst (1 2 3) send_outcome)
      (simp_all add: demo_net_of demo_net_def posted_def demo_msg_def new_fromraw_def accepts_def
        addressed_def has_room_def endpoint_new_def sq_new_def sq_len_def queue_def enqueue_def
        wakeonewaiter_def getsid_def geteid_def Let_def)
qed

section \<open>A sync message is received once\<close>

lemma grows_queue: "grows w w' \<Longrightarrow> i < ep_lim w \<Longrightarrow> m \<in> set (queue w i) \<Longrightarrow> m \<in> set (queue w' i)"
  by (auto simp: grows_def dest: set_mono_prefix)

lemma give_all_some:
  "give_all m is cnt w = (Inr k, w') \<Longrightarrow> k \<noteq> cnt \<Longrightarrow> \<forall>i \<in> set is. i < ep_lim w \<Longrightarrow>
     \<exists>i \<in> set is. m \<in> set (queue w' i)"
proof (induction "is" arbitrary: cnt w)
  case Nil
  then show ?case by simp
next
  case (Cons i "is")
  obtain r w1 where g: "at_ep i (give m) w = (r, w1)" by (meson surj_pair)
  with Cons.prems(1) obtain b where r: "r = Inr b" by (cases r) auto
  have lim: "ep_lim w1 = ep_lim w" using g by (auto simp: at_ep_def split: prod.splits)
  from g r Cons.prems(1) have rest: "give_all m is (if b then cnt + 1 else cnt) w1 = (Inr k, w')" by simp
  show ?case
  proof (cases b)
    case True
    obtain h e where ge: "give m (heap w, eps w i) = (Inr b, (h, e))" and w1: "eps w1 i = e"
      using g r by (auto simp: at_ep_def split: prod.splits)
    from give_Inr [OF ge] True w1 have "m \<in> set (queue w1 i)"
      by (simp add: queue_def enqueue_def wakeonewaiter_def)
    moreover have "grows w1 w'" using give_all_grows rest by (metis snd_conv)
    ultimately have "m \<in> set (queue w' i)" using Cons.prems(3) lim by (auto intro: grows_queue)
    then show ?thesis by simp
  next
    case False
    with Cons.IH [OF rest] Cons.prems lim show ?thesis by auto
  qed
qed

lemma send_internal_some:
  assumes "send_internal n m w = (Inr k, w')" and "k \<noteq> 0"
    and "\<forall>i \<in> set (endpoints (guarded (nets w (net_i n)))). i < ep_lim w"
  shows "\<exists>i < ep_lim w. m \<in> set (queue w' i)"
proof -
  let ?is = "endpoints (guarded (nets w (net_i n)))"
  let ?w1 = "fold ep_clone ?is w"
  obtain r w2 where g: "give_all m ?is 0 ?w1 = (r, w2)" by (meson surj_pair)
  obtain s w3 where d: "drop_all ?is w2 = (s, w3)" by (meson surj_pair)
  have eqs: "r = Inr k" "w3 = w'"
    using assms(1) g d by (auto simp: send_internal_def Let_def split: if_splits sum.splits)
  have lim: "ep_lim w \<le> ep_lim ?w1" using clones_grow [of w ?is] by (simp add: grows_def)
  with give_all_some [OF g [unfolded eqs] assms(2)] assms(3) obtain i
    where i: "i \<in> set ?is" "m \<in> set (queue w2 i)" by fastforce
  have "ep_lim ?w1 \<le> ep_lim w2"
    using give_all_grows [of ?w1 m ?is 0] g by (simp add: grows_def)
  with i(1) lim assms(3) have "i < ep_lim w" "i < ep_lim w2" by fastforce+
  moreover have "grows w2 w'" using drop_all_grows [of w2 ?is] d eqs by simp
  ultimately show ?thesis using i(2) by (auto intro: grows_queue)
qed

lemma sendsynctype_sent:
  assumes "heap_wf (heap w)" and "value_of T t" and "sendsynctype i T t w = (Inr k, w')"
    and "\<forall>j \<in> set (endpoints (guarded (nets w (net_i (net_of w i))))). j < ep_lim w"
  shows "heap_wf (heap w') \<and> valid_lim (heap w) < valid_lim (heap w') \<and>
    valids (heap w') (valid_lim (heap w)) \<and> ep_lim w \<le> ep_lim w' \<and>
    (k \<noteq> 0 \<longrightarrow> (\<exists>j < ep_lim w. \<exists>m \<in> set (queue w' j). carries (valid_lim (heap w)) m))"
proof -
  let ?v = "valid_lim (heap w)"
  obtain b where "stored T t b" and
    s: "sync_new T t (heap w) = (Inr \<lparr>sm_tyid = ty_id T, sm_valid = ?v, sm_payload = raw_lim (heap w)\<rparr>,
       snd (alloc_valid (snd (alloc_raw b (heap w)))))"
    using sync_new_eq [OF assms(2)] .
  define h1 where "h1 = snd (alloc_valid (snd (alloc_raw b (heap w))))"
  define w1 where "w1 = w\<lparr>heap := h1\<rparr>"
  obtain m where m: "on_heap (new_sync T t) w = (Inr m, w1)" and c: "carries ?v m"
    using s by (simp add: on_heap_def new_sync_def carries_def w1_def h1_def)
  define m1 where "m1 = m\<lparr>dstsid := 1, dsteid := 0, srcsid := sid (address (eps w i)), srceid := eid (address (eps w i))\<rparr>"
  have c1: "carries ?v m1" using c by (simp add: carries_def m1_def)
  then have "\<not> is_raw m1" by (simp add: carries_def is_raw_def split: payload.splits)
  then have "sendsynctype i T t w = send_internal (net_of w i) m1 w1"
    using m by (simp add: sendsynctype_def ep_send_def sendas_def Let_def net_send_def m1_def w1_def net_of_def)
  with assms(3) have si: "send_internal (net_of w i) m1 w1 = (Inr k, w')" by simp
  have g: "grows w1 w'" using send_internal_grows si by (metis snd_conv)
  have g1: "grows w w1"
    using on_heap_grows [of w "new_sync T t", OF new_messages_grow(1)] m by simp
  have "?v < valid_lim h1" "valids h1 ?v" by (simp_all add: h1_def alloc_valid_def)
  moreover have "heap_wf h1" using heap_wf_grows [OF g1 assms(1)] by (simp add: w1_def)
  moreover have "\<exists>j < ep_lim w. \<exists>m \<in> set (queue w' j). carries ?v m" if "k \<noteq> 0"
    using send_internal_some [OF si that] assms(4) c1 by (auto simp: w1_def)
  ultimately show ?thesis using g by (auto simp: grows_def heap_grows_def w1_def)
qed

text \<open>
  C4. A sync message is received at most once, whatever the program does after the send, on however
  many endpoints it was delivered and however their receives are ordered. If it was delivered
  at all, nothing panics, and in the end every queue has been read empty, it was received exactly
  once.
\<close>

theorem sync_exactly_once:
  assumes "heap_wf (heap w0)" and "value_of T t"
    and "\<forall>j \<in> set (endpoints (guarded (nets w0 (net_i (net_of w0 i))))). j < ep_lim w0"
    and "sendsynctype i T t w0 = (Inr k, w)" and "run_calls cs w = (os, w')"
  shows "times_taken (valid_lim (heap w0)) os \<le> 1 \<and>
    (k \<noteq> 0 \<and> list_all (\<lambda>x. \<not> panicked x) os \<and> (\<forall>j. queue w' j = []) \<longrightarrow>
       times_taken (valid_lim (heap w0)) os = 1)"
proof -
  let ?v = "valid_lim (heap w0)"
  note s = sendsynctype_sent [OF assms(1,2,4,3)]
  from s have "heap_wf (heap w)" and "?v < valid_lim (heap w)" by blast+
  note f = calls_flag [OF this assms(5)]
  from s f have 1: "times_taken ?v os + of_bool (valids (heap w') ?v) = 1" by simp
  moreover have "\<not> valids (heap w') ?v"
    if "k \<noteq> 0" and np: "list_all (\<lambda>x. \<not> panicked x) os" and q: "\<forall>j. queue w' j = []"
  proof
    assume v: "valids (heap w') ?v"
    from s \<open>k \<noteq> 0\<close> obtain j m where "j < ep_lim w" "m \<in> set (queue w j)" "carries ?v m"
      by (meson order.strict_trans2)
    with f np v have "m \<in> set (queue w' j)" by blast
    with q show False by simp
  qed
  ultimately show ?thesis by (cases "valids (heap w') ?v") auto
qed

definition demo_type :: rtype where
  "demo_type = \<lparr>ty_id = 5, ty_size = 1\<rparr>"

lemma demo_send_sync:
  "\<exists>w m. sendsynctype 0 demo_type [Some 7] demo_world = (Inr 1, w) \<and>
     carries (valid_lim demo_heap) m \<and> \<not> poisoned (raws (heap w) (buffer_of m)) \<and>
     vec (messages (eps w 1)) = [m] \<and> (\<forall>j. j \<noteq> 1 \<longrightarrow> queue w j = [])"
proof -
  have v: "value_of demo_type [Some 7]" by (simp add: value_of_def demo_type_def)
  obtain b where
    s: "sync_new demo_type [Some 7] demo_heap = (Inr \<lparr>sm_tyid = ty_id demo_type,
       sm_valid = valid_lim demo_heap, sm_payload = raw_lim demo_heap\<rparr>,
       snd (alloc_valid (snd (alloc_raw b demo_heap))))"
    using sync_new_eq [OF v, of demo_heap] by blast
  define h where "h = snd (alloc_valid (snd (alloc_raw b demo_heap)))"
  define m where "m = \<lparr>srcsid = 100, srceid = 0x10000, dstsid = 1, dsteid = 0, canloop = False,
    payload = Sync \<lparr>sm_tyid = ty_id demo_type, sm_valid = valid_lim demo_heap, sm_payload = 1\<rparr>\<rparr>"
  let ?w0 = "demo_world\<lparr>heap := h\<rparr>"
  have np: "\<not> poisoned (raws h (buffer_of m))" by (simp add: h_def m_def buffer_of_def alloc_valid_def)
  have "sendsynctype 0 demo_type [Some 7] demo_world = send_internal demo_net m ?w0"
    using s
    by (simp add: sendsynctype_def on_heap_def new_sync_def h_def [symmetric] ep_send_def sendas_def
        net_send_def is_raw_def net_of_def m_def endpoint_new_def)
  also have "\<dots> = (Inr 1, map_eps {0, 1} (take_message h m) ?w0)"
  proof -
    have "ready demo_net ?w0" using demo_ready by (simp add: ready_def)
    from send_internal_eq [OF this, of m] np show ?thesis
      by (simp add: m_def demo_net_def accepts_def addressed_def has_room_def endpoint_new_def)
  qed
  finally have 1: "sendsynctype 0 demo_type [Some 7] demo_world =
    (Inr 1, map_eps {0, 1} (take_message h m) ?w0)" .
  have "vec (messages (eps (map_eps {0, 1} (take_message h m) ?w0) 1)) = [m]"
    "\<forall>j. j \<noteq> 1 \<longrightarrow> queue (map_eps {0, 1} (take_message h m) ?w0) j = []"
    by (auto simp: queue_def take_message_def m_def accepts_def addressed_def has_room_def enqueue_def
        endpoint_new_def sq_new_def wakeonewaiter_def demo_world_queues demo_net_def)
  with 1 np show ?thesis
    by (intro exI [of _ "map_eps {0, 1} (take_message h m) ?w0"] exI [of _ m])
      (simp add: carries_def m_def)
qed

theorem sync_exactly_once_witness:
  "\<exists>w os w'. sendsynctype 0 demo_type [Some 7] demo_world = (Inr 1, w) \<and>
     run_calls [CallRecv 1, CallRecv 1] w = (os, w') \<and> times_taken (valid_lim demo_heap) os = 1"
proof -
  obtain w m where s: "sendsynctype 0 demo_type [Some 7] demo_world = (Inr 1, w)"
    and m: "carries (valid_lim demo_heap) m" "\<not> poisoned (raws (heap w) (buffer_of m))"
      "vec (messages (eps w 1)) = [m]" and q: "\<forall>j. j \<noteq> 1 \<longrightarrow> queue w j = []"
    using demo_send_sync by blast
  have h: "heap_wf (heap demo_world)" "value_of demo_type [Some 7]"
    "\<forall>j \<in> set (endpoints (guarded (nets demo_world (net_i (net_of demo_world 0))))). j < ep_lim demo_world"
    by (simp_all add: demo_heap_wf value_of_def demo_type_def demo_net_of) (simp add: demo_net_def)
  from sendsynctype_sent [OF h(1,2) s h(3)] m(1)
  have "heap_wf (heap w)" and "\<not> stale (heap w) m"
    by (auto simp: stale_def carries_def split: payload.splits)
  from recv_fresh [OF m(3) this(2) m(2) this(1)] obtain h1 e1 where
    1: "ep_recv (heap w, eps w 1) = (Inr (Ok (fst (received m (heap w)))), (h1, e1))" "vec (messages e1) = []"
    by simp
  define w' where "w' = w\<lparr>heap := h1, eps := (eps w)(1 := e1)\<rparr>"
  have r: "run_calls [CallRecv 1, CallRecv 1] w =
    ([Got (Ok (fst (received m (heap w)))), Got (Err \<lparr>code = NoMessages\<rparr>)], w')"
    using 1 recv_empty [OF 1(2), of h1] by (simp add: at_ep_def outcome_of_def w'_def)
  have "\<forall>j. queue w' j = []" using q 1(2) by (simp add: queue_def w'_def)
  with sync_exactly_once [OF h s r] s r show ?thesis by (auto simp: panicked_def)
qed

section \<open>Raw buffers are not shared\<close>

text \<open>A call that does not write to buffer \<open>b\<close> through a handle of its own.\<close>

definition spares :: "nat \<Rightarrow> call \<Rightarrow> bool" where
  "spares b c = (case c of CallRaw x \<Rightarrow> \<not> raw_target x b | _ \<Rightarrow> True)"

lemma call_raw_frame:
  assumes "heap_wf (heap w)" and "run_call c w = (o', w')"
  shows "heap_wf (heap w') \<and> raw_lim (heap w) \<le> raw_lim (heap w') \<and>
    (\<forall>b < raw_lim (heap w). spares b c \<longrightarrow> raws (heap w') b = raws (heap w) b)"
proof -
  consider (recv) j where "c = CallRecv j" | (raw) x where "c = CallRaw x"
    | (other) "\<And>j. c \<noteq> CallRecv j" "\<And>x. c \<noteq> CallRaw x" by blast
  then show ?thesis
  proof cases
    case recv
    then have "w' = snd (at_ep j ep_recv w)" using assms(2) by (simp add: prod_eq_iff)
    with recv_call_frame [OF assms(1), of j] show ?thesis by (metis prod.collapse)
  next
    case raw
    then have "w' = snd (on_heap (raw_exec x) w)" using assms(2) by (simp add: prod_eq_iff)
    moreover have "heap (snd (on_heap (raw_exec x) w)) = raw_step (heap w) x"
      by (simp add: on_heap_def raw_step_def split: prod.splits)
    ultimately show ?thesis
      using raw raw_step_wf [OF assms(1)] raw_step_lim [OF assms(1)] raw_step_frame [OF assms(1)]
      by (simp add: spares_def)
  next
    case other
    with run_call_grows [OF assms(1), of c] assms show ?thesis
      by (simp add: grows_def heap_grows_def)
  qed
qed

lemma calls_raw_frame:
  "heap_wf (heap w) \<Longrightarrow> run_calls cs w = (os, w') \<Longrightarrow> b < raw_lim (heap w) \<Longrightarrow> list_all (spares b) cs \<Longrightarrow>
     heap_wf (heap w') \<and> raws (heap w') b = raws (heap w) b"
proof (induction cs arbitrary: w os)
  case Nil
  then show ?case by simp
next
  case (Cons c cs)
  obtain x w1 where c: "run_call c w = (x, w1)" by (meson surj_pair)
  obtain xs w2 where t: "run_calls cs w1 = (xs, w2)" by (meson surj_pair)
  have w2: "w2 = w'" using Cons.prems(2) c t by simp
  from Cons.IH [OF _ t [unfolded w2]] Cons.prems call_raw_frame [OF Cons.prems(1) c] show ?case by auto
qed

text \<open>
  C11. Raw messages are isolated: whatever is called after the send, writes to the sender's
  own buffer included, an endpoint that receives the message gets the bytes that were there when it
  was sent, in a buffer that nobody else has, and its receive leaves all other buffers alone. Only
  a handle on the buffer in transit could change that, and no call returns one.
\<close>

theorem raw_not_shared:
  assumes "ready (net_of w i) w" and "heap_wf (heap w)" and "payload m = Raw r"
    and "\<not> poisoned (raws (heap w) r)"
    and "run_calls cs (snd (ep_send i m w)) = (os, w2)"
    and "list_all (spares (raw_lim (heap w))) cs"
    and "queue w2 j = m1 # ms" and "payload m1 = Raw (raw_lim (heap w))"
  shows "\<exists>m2 r2 w3. at_ep j ep_recv w2 = (Inr (Ok m2), w3) \<and> payload m2 = Raw r2 \<and>
    raw_lim (heap w2) \<le> r2 \<and> raws (heap w3) r2 = mutex_new (dup_of (guarded (raws (heap w) r))) \<and>
    (\<forall>b < raw_lim (heap w2). raws (heap w3) b = raws (heap w2) b)"
proof -
  let ?b = "raw_lim (heap w)" and ?i = "guarded (raws (heap w) r)"
  have "buffer_of m = r" using assms(3) by (simp add: buffer_of_def)
  then have h1: "heap (snd (ep_send i m w)) = snd (alloc_raw (dup_of ?i) (heap w))"
    using ep_send_eq [OF assms(1,2)] assms(3,4) by (simp add: posted_def Let_def)
  then have wf1: "heap_wf (heap (snd (ep_send i m w)))"
    using assms(2) by (simp add: alloc_raw_wf heap_wfD)
  from calls_raw_frame [OF wf1 assms(5), of ?b] assms(6) h1
  have wf2: "heap_wf (heap w2)" and b2: "raws (heap w2) ?b = mutex_new (dup_of ?i)" by simp_all
  have "\<not> stale (heap w2) m1" "buffer_of m1 = ?b" using assms(8) by (simp_all add: stale_def buffer_of_def)
  with recv_fresh [of "eps w2 j" m1 ms "heap w2"] assms(7) b2 wf2
  have "at_ep j ep_recv w2 = (Inr (Ok (fst (received m1 (heap w2)))),
      w2\<lparr>heap := snd (received m1 (heap w2)), eps := (eps w2)(j := (eps w2 j)\<lparr>messages := \<lparr>vec = ms\<rparr>,
        memoryused := memoryused (eps w2 j) - rcap (dup_of ?i)\<rparr>)\<rparr>)"
    by (simp add: at_ep_def queue_def)
  moreover have "payload (fst (received m1 (heap w2))) = Raw (Suc (raw_lim (heap w2)))"
    and "raws (snd (received m1 (heap w2))) (Suc (raw_lim (heap w2))) = mutex_new (dup_of ?i)"
    using assms(8) b2 by (simp_all add: received_def)
  ultimately show ?thesis
    using received_frame(3) [of _ "heap w2" m1] by (auto intro: exI [of _ "Suc (raw_lim (heap w2))"])
qed

theorem raw_not_shared_witness:
  "\<exists>w2 os m2 r2 w3.
     run_calls [CallRaw (CWriteSlice 0 0 [Some 9])] (snd (ep_send 0 (demo_msg 1 0) demo_world)) = (os, w2) \<and>
     at_ep 1 ep_recv w2 = (Inr (Ok m2), w3) \<and> payload m2 = Raw r2 \<and>
     raws (heap w3) r2 = mutex_new (dup_of (guarded (raws demo_heap 0)))"
proof -
  let ?w1 = "snd (ep_send 0 (demo_msg 1 0) demo_world)"
  let ?cs = "[CallRaw (CWriteSlice 0 0 [Some 9])]"
  obtain os w2 where r: "run_calls ?cs ?w1 = (os, w2)" by (meson surj_pair)
  have ready: "ready (net_of demo_world 0) demo_world" using demo_ready by (simp add: demo_net_of)
  have wf: "heap_wf (heap demo_world)" by (simp add: demo_heap_wf)
  have m: "payload (demo_msg 1 0) = Raw 0" and p: "\<not> poisoned (raws (heap demo_world) 0)"
    by (simp_all add: demo_msg_def new_fromraw_def)
  have "\<not> poisoned (raws (heap demo_world) (buffer_of (demo_msg 1 0)))"
    by (simp add: demo_msg_def new_fromraw_def buffer_of_def)
  with ready wf have q1: "queue ?w1 1 = [(demo_msg 1 0)\<lparr>srcsid := 100, srceid := 0x10000, payload := Raw 1\<rparr>]"
    by (subst ep_send_eq)
      (simp_all add: demo_net_of demo_net_def posted_def demo_msg_def new_fromraw_def accepts_def
        addressed_def has_room_def endpoint_new_def sq_new_def sq_len_def queue_def enqueue_def
        wakeonewaiter_def getsid_def geteid_def Let_def)
  have "eps w2 = eps ?w1"
    using r by (auto simp: on_heap_def outcome_of_def split: prod.splits sum.splits)
  with q1 have q2: "queue w2 1 = [(demo_msg 1 0)\<lparr>srcsid := 100, srceid := 0x10000, payload := Raw 1\<rparr>]"
    by (simp add: queue_def)
  from raw_not_shared [OF ready wf m p r _ q2] r show ?thesis
    by (simp add: spares_def) blast
qed

end
