(* ===== verification/Lifetime.thy ===== *)
theory Lifetime
  imports Delivery
begin

text \<open>
  The life of an endpoint (\<open>clone\<close> and \<open>drop\<close> of \<open>src/endpoint.rs\<close>, \<open>drop_endpoint\<close> and the
  snapshot of \<open>send_internal\<close> of \<open>src/net.rs\<close>) when several threads work on it: the reference
  count must tell when only the net still holds the endpoint, while sends in other threads hold
  handles of their own. A drop is two steps, the count and the removal, with other threads
  in between; so is a send: snapshot, gives, drops.
\<close>

section \<open>The protocol\<close>

text \<open>
  The world, and what the threads hold: for each endpoint, the program's handles on it, the handles
  in snapshots of sends, and whether some thread is about to remove it from its net.
\<close>

record life =
  lw :: world
  uh :: "nat \<Rightarrow> nat"
  sn :: "nat \<Rightarrow> nat"
  removing :: "nat \<Rightarrow> bool"

definition life_start :: life where
  "life_start = \<lparr>lw = world_empty, uh = (\<lambda>_. 0), sn = (\<lambda>_. 0), removing = (\<lambda>_. False)\<rparr>"

abbreviation listing :: "world \<Rightarrow> nat \<Rightarrow> nat list" where
  "listing w n \<equiv> endpoints (guarded (nets w n))"

definition listed :: "world \<Rightarrow> nat \<Rightarrow> bool" where
  "listed w i \<longleftrightarrow> i \<in> set (listing w (net_i (net (eps w i))))"

definition setters :: "(endpoint \<Rightarrow> endpoint) set" where
  "setters = {f. \<exists>x. f = setlimitpending x \<or> f = setlimitmemory x \<or> f = seteid x \<or> f = setsid x \<or> f = setgid x}"

text \<open>
  A program can clone and drop only handles it holds, and holds fewer than \<open>2 ^ 63\<close> of them,
  which is more than an address space of 64 bits has room for.
\<close>

inductive life_step :: "life \<Rightarrow> life \<Rightarrow> bool" where
  l_net: "net_new x (lw s) = (n, w) \<Longrightarrow> life_step s (s\<lparr>lw := w\<rparr>)"
| l_new: "net_i n < net_lim (lw s) \<Longrightarrow> new_endpoint n (lw s) = (Inr i, w) \<Longrightarrow>
     life_step s (s\<lparr>lw := w, uh := (uh s)(i := 1)\<rparr>)"
| l_new_withid: "net_i n < net_lim (lw s) \<Longrightarrow> new_endpoint_withid n e (lw s) = (Inr i, w) \<Longrightarrow>
     life_step s (s\<lparr>lw := w, uh := (uh s)(i := 1)\<rparr>)"
| l_clone: "uh s i > 0 \<Longrightarrow> uh s i + sn s i < 2 ^ 63 \<Longrightarrow>
     life_step s (s\<lparr>lw := ep_clone i (lw s), uh := (uh s)(i := Suc (uh s i))\<rparr>)"
| l_snapshot: "\<forall>i \<in> set (listing (lw s) n). uh s i + sn s i < 2 ^ 63 \<Longrightarrow>
     life_step s (s\<lparr>lw := fold ep_clone (listing (lw s) n) (lw s),
       sn := (\<lambda>i. if i \<in> set (listing (lw s) n) then Suc (sn s i) else sn s i)\<rparr>)"
| l_give: "sn s i > 0 \<Longrightarrow> at_ep i (give m) (lw s) = (r, w) \<Longrightarrow> life_step s (s\<lparr>lw := w\<rparr>)"
| l_drop: "uh s i > 0 \<Longrightarrow> drop_count i (lw s) = (b, w) \<Longrightarrow>
     life_step s (s\<lparr>lw := w, uh := (uh s)(i := uh s i - 1), removing := (removing s)(i := b \<or> removing s i)\<rparr>)"
| l_drop_snap: "sn s i > 0 \<Longrightarrow> drop_count i (lw s) = (b, w) \<Longrightarrow>
     life_step s (s\<lparr>lw := w, sn := (sn s)(i := sn s i - 1), removing := (removing s)(i := b \<or> removing s i)\<rparr>)"
| l_remove: "removing s i \<Longrightarrow> net_drop_endpoint (net_of (lw s) i) i (lw s) = (r, w) \<Longrightarrow>
     life_step s (s\<lparr>lw := w, removing := (removing s)(i := False)\<rparr>)"
| l_recv: "uh s i > 0 \<Longrightarrow> at_ep i ep_recv (lw s) = (r, w) \<Longrightarrow> life_step s (s\<lparr>lw := w\<rparr>)"
| l_set: "uh s i > 0 \<Longrightarrow> f \<in> setters \<Longrightarrow> life_step s (s\<lparr>lw := on_ep i f (lw s)\<rparr>)"

section \<open>The invariant\<close>

definition nets_ok :: "world \<Rightarrow> bool" where
  "nets_ok w \<longleftrightarrow>
     (\<forall>n. \<not> poisoned (nets w n) \<and> distinct (listing w n) \<and>
        (\<forall>i \<in> set (listing w n). i < ep_lim w \<and> net_i (net (eps w i)) = n))"

text \<open>One endpoint: \<open>u\<close> and \<open>s\<close> count its handles, \<open>r\<close> says whether it is being removed.\<close>

definition ep_ok :: "world \<Rightarrow> nat \<Rightarrow> nat \<Rightarrow> bool \<Rightarrow> nat \<Rightarrow> bool" where
  "ep_ok w u s r i \<longleftrightarrow>
     refcnt (eps w i) = of_nat (u + s + of_bool (listed w i)) \<and> u + s \<le> 2 ^ 63 \<and>
     (u > 0 \<longrightarrow> \<not> dropped (eps w i)) \<and> (\<not> dropped (eps w i) \<longrightarrow> listed w i \<and> u + s > 0) \<and>
     r = (dropped (eps w i) \<and> listed w i) \<and> net_i (net (eps w i)) < net_lim w"

definition life_ok :: "life \<Rightarrow> bool" where
  "life_ok s \<longleftrightarrow>
     nets_ok (lw s) \<and>
     (\<forall>i. if i < ep_lim (lw s) then ep_ok (lw s) (uh s i) (sn s i) (removing s i) i
          else uh s i = 0 \<and> sn s i = 0 \<and> \<not> removing s i)"

lemma life_okD:
  "life_ok s \<Longrightarrow> nets_ok (lw s)"
  "life_ok s \<Longrightarrow> i < ep_lim (lw s) \<Longrightarrow> ep_ok (lw s) (uh s i) (sn s i) (removing s i) i"
  "life_ok s \<Longrightarrow> \<not> i < ep_lim (lw s) \<Longrightarrow> uh s i = 0 \<and> sn s i = 0 \<and> \<not> removing s i"
  by (simp_all add: life_ok_def)

lemma life_okI:
  assumes "lw t = w" and "uh t = u" and "sn t = v" and "removing t = r"
    and "nets_ok w" and "\<And>i. i < ep_lim w \<Longrightarrow> ep_ok w (u i) (v i) (r i) i"
    and "\<And>i. \<not> i < ep_lim w \<Longrightarrow> u i = 0 \<and> v i = 0 \<and> \<not> r i"
  shows "life_ok t"
  using assms by (simp add: life_ok_def)

lemma find_absent: "this \<notin> set xs \<Longrightarrow> find_endpoint this xs i fnd = Inr fnd"
  by (induction xs arbitrary: i fnd) (auto simp: endpoint_id_def)

lemma find_present:
  "distinct xs \<Longrightarrow> this \<in> set xs \<Longrightarrow>
     \<exists>k < length xs. xs ! k = this \<and> find_endpoint this xs i None = Inr (Some (i + k))"
proof (induction xs arbitrary: i)
  case Nil
  then show ?case by simp
next
  case (Cons x xs)
  show ?case
  proof (cases "x = this")
    case True
    with Cons.prems show ?thesis by (intro exI [of _ 0]) (simp add: find_absent endpoint_id_def)
  next
    case False
    with Cons.IH [of "Suc i"] Cons.prems obtain k where "k < length xs" "xs ! k = this"
      "find_endpoint this xs (Suc i) None = Inr (Some (Suc i + k))" by auto
    with False show ?thesis by (intro exI [of _ "Suc k"]) (simp add: endpoint_id_def)
  qed
qed

lemma remove_index:
  assumes "distinct xs" and "k < length xs"
  shows "distinct (take k xs @ drop (Suc k) xs) \<and> set (take k xs @ drop (Suc k) xs) = set xs - {xs ! k}"
proof -
  have "distinct (take k xs @ xs ! k # drop (Suc k) xs)"
    and "set (take k xs @ xs ! k # drop (Suc k) xs) = set xs"
    using assms by (simp_all only: id_take_nth_drop [symmetric])
  then show ?thesis by auto
qed

definition same_life :: "endpoint \<Rightarrow> endpoint \<Rightarrow> bool" where
  "same_life e e' \<longleftrightarrow> refcnt e' = refcnt e \<and> dropped e' = dropped e \<and> net e' = net e"

lemma same_lifeD:
  "same_life e e' \<Longrightarrow> refcnt e' = refcnt e" "same_life e e' \<Longrightarrow> dropped e' = dropped e"
  "same_life e e' \<Longrightarrow> net e' = net e"
  by (simp_all add: same_life_def)

lemma same_life_refl [simp]: "same_life e e"
  by (simp add: same_life_def)

lemma recv_keeps: "same_life e (snd (snd (ep_recv (h, e))))"
proof (induction "length (vec (messages e))" arbitrary: h e rule: less_induct)
  case less
  show ?case
  proof (cases "vec (messages e)")
    case Nil
    then show ?thesis by (simp add: recv_empty)
  next
    case (Cons m ms)
    let ?q = "\<lparr>vec = ms\<rparr>"
    have g: "sq_get (messages e) = (Some m, ?q)" using Cons by simp
    obtain r1 h1 where d: "message_dup_ifok m h = (r1, h1)" by (meson surj_pair)
    show ?thesis
    proof (cases r1)
      case (Inl f)
      with d g show ?thesis by (subst ep_recv.simps) (simp add: Let_def same_life_def)
    next
      case (Inr m1)
      obtain r2 h2 where c: "message_cap m1 h1 = (r2, h2)" by (meson surj_pair)
      show ?thesis
      proof (cases r2)
        case (Inl f)
        with d g c Inr show ?thesis by (subst ep_recv.simps) (simp add: Let_def same_life_def)
      next
        case sz: (Inr sz)
        let ?e = "e\<lparr>messages := ?q, memoryused := memoryused e - sz\<rparr>"
        have "same_life e (snd (snd (ep_recv (h3, ?e))))" for h3
          using less [of ?e h3] Cons by (simp add: same_life_def)
        with d g c Inr sz show ?thesis
          by (subst ep_recv.simps)
            (auto simp: Let_def same_life_def split: payload.splits prod.splits sum.splits bool.splits)
      qed
    qed
  qed
qed

text \<open>A change of one endpoint that keeps its count, flag and net.\<close>

lemma life_ok_quiet:
  assumes "life_ok s" and "nets w = nets (lw s)" and "net_lim w = net_lim (lw s)"
    and "ep_lim w = ep_lim (lw s)" and same: "\<And>i. same_life (eps (lw s) i) (eps w i)"
  shows "life_ok (s\<lparr>lw := w\<rparr>)"
proof -
  note same_lifeD [OF same, simp]
  have [simp]: "listed w i = listed (lw s) i" for i by (simp add: listed_def assms(2))
  have "nets_ok w = nets_ok (lw s)" by (simp add: nets_ok_def assms(2,4))
  moreover have "ep_ok w u v r i = ep_ok (lw s) u v r i" for u v r i
    by (simp add: ep_ok_def assms(3))
  ultimately show ?thesis using assms(1) by (simp add: life_ok_def assms(4))
qed

lemma life_ok_at:
  assumes "life_ok s" and "at_ep i f (lw s) = (r, w)"
    and keeps: "\<And>st. same_life (snd st) (snd (snd (f st)))"
  shows "life_ok (s\<lparr>lw := w\<rparr>)"
proof -
  obtain r1 h e where f: "f (heap (lw s), eps (lw s) i) = (r1, (h, e))" by (metis prod.collapse)
  with assms(2) have "w = (lw s)\<lparr>heap := h, eps := (eps (lw s))(i := e)\<rparr>" by (simp add: at_ep_def)
  with keeps [of "(heap (lw s), eps (lw s) i)"] f show ?thesis
    by (intro life_ok_quiet [OF assms(1)]) simp_all
qed

lemma setters_keep:
  "f \<in> setters \<Longrightarrow> same_life e (f e)"
  by (auto simp: same_life_def setters_def setlimitpending_def setlimitmemory_def seteid_def setsid_def setgid_def)

text \<open>The count going up.\<close>

lemma clone_life_ok:
  assumes "life_ok s" and "uh s i > 0" and "uh s i + sn s i < 2 ^ 63"
  shows "life_ok (s\<lparr>lw := ep_clone i (lw s), uh := (uh s)(i := Suc (uh s i))\<rparr>)"
proof -
  let ?w = "ep_clone i (lw s)"
  have i: "i < ep_lim (lw s)" using life_okD(3) [OF assms(1), of i] assms(2) by auto
  have lims: "ep_lim ?w = ep_lim (lw s)" "net_lim ?w = net_lim (lw s)" "nets ?w = nets (lw s)"
    and net: "net (eps ?w j) = net (eps (lw s) j)" for j
    by (simp_all add: ep_clone_def)
  have l: "listed ?w j = listed (lw s) j" for j by (simp add: listed_def net lims)
  show ?thesis
  proof (rule life_okI [where w = ?w and u = "(uh s)(i := Suc (uh s i))" and v = "sn s" and r = "removing s"];
      (simp; fail)?)
    show "nets_ok ?w" using life_okD(1) [OF assms(1)] by (simp add: nets_ok_def net lims)
    show "ep_ok ?w (((uh s)(i := Suc (uh s i))) j) (sn s j) (removing s j) j" if "j < ep_lim ?w" for j
    proof (cases "j = i")
      case True
      from life_okD(2) [OF assms(1) i] assms(2,3) show ?thesis
        unfolding True ep_ok_def l lims net by (simp add: ep_clone_def)
    next
      case False
      with life_okD(2) [OF assms(1) that [unfolded lims]] show ?thesis
        unfolding ep_ok_def l lims net by (simp add: ep_clone_def)
    qed
    show "((uh s)(i := Suc (uh s i))) j = 0 \<and> sn s j = 0 \<and> \<not> removing s j" if "\<not> j < ep_lim ?w" for j
      using life_okD(3) [OF assms(1) that [unfolded lims]] that i lims by auto
  qed
qed

lemma snapshot_life_ok:
  assumes "life_ok s" and "\<forall>i \<in> set (listing (lw s) n). uh s i + sn s i < 2 ^ 63"
  shows "life_ok (s\<lparr>lw := fold ep_clone (listing (lw s) n) (lw s),
    sn := (\<lambda>i. if i \<in> set (listing (lw s) n) then Suc (sn s i) else sn s i)\<rparr>)"
proof -
  let ?is = "listing (lw s) n"
  let ?w = "map_eps (set ?is) (\<lambda>e. e\<lparr>refcnt := refcnt e + 1\<rparr>) (lw s)"
  note nets = life_okD(1) [OF assms(1)]
  have "distinct ?is" using nets by (simp add: nets_ok_def)
  then have w: "fold ep_clone ?is (lw s) = ?w" by (rule clones_eq)
  have lims: "ep_lim ?w = ep_lim (lw s)" "net_lim ?w = net_lim (lw s)" "nets ?w = nets (lw s)"
    by (simp_all add: map_eps_def)
  have net: "net (eps ?w j) = net (eps (lw s) j)" for j by simp
  have l: "listed ?w j = listed (lw s) j" for j by (simp add: listed_def)
  show ?thesis unfolding w
  proof (rule life_okI [where w = ?w and u = "uh s" and r = "removing s"
        and v = "\<lambda>j. if j \<in> set ?is then Suc (sn s j) else sn s j"]; (simp; fail)?)
    show "nets_ok ?w" using nets unfolding nets_ok_def net lims .
    show "ep_ok ?w (uh s j) (if j \<in> set ?is then Suc (sn s j) else sn s j) (removing s j) j"
      if "j < ep_lim ?w" for j
      using life_okD(2) [OF assms(1) that [unfolded lims]] assms(2) unfolding ep_ok_def l lims net by auto
    show "uh s j = 0 \<and> (if j \<in> set ?is then Suc (sn s j) else sn s j) = 0 \<and> \<not> removing s j"
      if "\<not> j < ep_lim ?w" for j
      using life_okD(3) [OF assms(1) that [unfolded lims]] nets that lims by (auto simp: nets_ok_def)
  qed
qed

text \<open>The count going down.\<close>

lemma of_nat_eq_1: "n \<le> 2 ^ 63 + 1 \<Longrightarrow> (of_nat n :: usize) = 1 \<longleftrightarrow> n = 1"
proof -
  assume "n \<le> 2 ^ 63 + 1"
  then have "n < 2 ^ 64" by simp
  then have "unat (of_nat n :: usize) = n" by (rule unat_of_nat_usize)
  then show ?thesis by (metis of_nat_1 unat_1)
qed

lemma drop_count_ok:
  assumes "ep_ok w u v r i" and "u + v = Suc k" and "drop_count i w = (b, w')"
  shows "b = (\<not> dropped (eps w i) \<and> k = 0) \<and>
    w' = on_ep i (\<lambda>e. e\<lparr>refcnt := of_nat (k + of_bool (listed w i)), dropped := b \<or> dropped e\<rparr>) w"
proof -
  have r: "refcnt (eps w i) - 1 = of_nat (k + of_bool (listed w i))"
    using assms(1,2) by (simp add: ep_ok_def)
  have "k + of_bool (listed w i) \<le> 2 ^ 63 + 1" using assms(1,2) by (auto simp: ep_ok_def)
  from of_nat_eq_1 [OF this] have one: "refcnt (eps w i) - 1 = 1 \<longleftrightarrow> k + of_bool (listed w i) = 1"
    by (simp only: r)
  have l: "\<not> dropped (eps w i) \<Longrightarrow> listed w i" using assms(1) by (simp add: ep_ok_def)
  show ?thesis
  proof (cases "refcnt (eps w i) - 1 = 1 \<and> \<not> dropped (eps w i)")
    case True
    with assms(3) have "b" and "w' = on_ep i (\<lambda>e. e\<lparr>dropped := True\<rparr>) (on_ep i (\<lambda>e. e\<lparr>refcnt := refcnt e - 1\<rparr>) w)"
      by (simp_all add: drop_count_def Let_def)
    with True one r l show ?thesis by (simp add: on_ep_def)
  next
    case False
    with assms(3) have "\<not> b" and w': "w' = on_ep i (\<lambda>e. e\<lparr>refcnt := refcnt e - 1\<rparr>) w"
      by (simp_all add: drop_count_def Let_def split: if_splits)
    moreover have "\<not> dropped (eps w i) \<Longrightarrow> k = 0 \<Longrightarrow> k + of_bool (listed w i) = 1"
      using l by simp
    with False one have "\<not> (\<not> dropped (eps w i) \<and> k = 0)" by blast
    moreover    moreover have "(eps w i)\<lparr>refcnt := refcnt (eps w i) - 1\<rparr> =
        (eps w i)\<lparr>refcnt := of_nat (k + of_bool (listed w i)), dropped := dropped (eps w i)\<rparr>"
      by (simp only: r) simp
    ultimately show ?thesis by (simp add: on_ep_def)
  qed
qed

lemma drop_life_ok:
  assumes "life_ok s" and "uh s i + sn s i = Suc k" and "drop_count i (lw s) = (b, w)"
    and "lw t = w" "uh t = (uh s)(i := u)" "sn t = (sn s)(i := v)"
    and "removing t = (removing s)(i := b \<or> removing s i)"
    and "u + v = k" and "u \<le> uh s i"
  shows "life_ok t"
proof -
  have i: "i < ep_lim (lw s)"
    by (rule ccontr) (use life_okD(3) [OF assms(1), of i] assms(2) in simp)
  note ok = life_okD(2) [OF assms(1) i]
  from drop_count_ok [OF ok assms(2,3)] have b: "b = (\<not> dropped (eps (lw s) i) \<and> k = 0)"
    and w: "w = on_ep i (\<lambda>e. e\<lparr>refcnt := of_nat (k + of_bool (listed (lw s) i)), dropped := b \<or> dropped e\<rparr>) (lw s)"
    by simp_all
  have lims: "ep_lim w = ep_lim (lw s)" "net_lim w = net_lim (lw s)" "nets w = nets (lw s)"
    and net: "net (eps w j) = net (eps (lw s) j)" for j
    by (simp_all add: w)
  have l: "listed w j = listed (lw s) j" for j by (simp add: listed_def net lims)
  show ?thesis
  proof (rule life_okI [OF assms(4-7)])
    show "nets_ok w" using life_okD(1) [OF assms(1)] by (simp add: nets_ok_def net lims)
    show "ep_ok w (((uh s)(i := u)) j) (((sn s)(i := v)) j) (((removing s)(i := b \<or> removing s i)) j) j"
      if "j < ep_lim w" for j
    proof (cases "j = i")
      case True
      from ok assms(2,8,9) b show ?thesis
        unfolding True ep_ok_def l lims net by (auto simp: w)
    next
      case False
      with life_okD(2) [OF assms(1) that [unfolded lims]] show ?thesis
        unfolding ep_ok_def l lims net by (simp add: w)
    qed
    show "((uh s)(i := u)) j = 0 \<and> ((sn s)(i := v)) j = 0 \<and> \<not> ((removing s)(i := b \<or> removing s i)) j"
      if "\<not> j < ep_lim w" for j
      using life_okD(3) [OF assms(1) that [unfolded lims]] i that lims by auto
  qed
qed

lemma nets_eps_commute: "w\<lparr>nets := x, eps := y\<rparr> = w\<lparr>eps := y, nets := x\<rparr>"
  by simp

text \<open>The removal: it always finds the endpoint, and the drop of the net's handle is the last step.\<close>

lemma remove_outcome:
  assumes "life_ok s" and "removing s i"
  shows "\<exists>ys. net_drop_endpoint (net_of (lw s) i) i (lw s) =
    (Inr (), (on_ep i (\<lambda>e. e\<lparr>refcnt := of_nat (uh s i + sn s i)\<rparr>) (lw s))\<lparr>nets := (nets (lw s))
       (net_i (net (eps (lw s) i)) := \<lparr>guarded = (guarded (nets (lw s) (net_i (net (eps (lw s) i)))))
          \<lparr>endpoints := ys\<rparr>, poisoned = False\<rparr>)\<rparr>) \<and>
    distinct ys \<and> set ys = set (listing (lw s) (net_i (net (eps (lw s) i)))) - {i}"
proof -
  let ?w = "lw s"
  let ?n = "net_i (net (eps ?w i))"
  let ?xs = "listing ?w ?n"
  have i: "i < ep_lim ?w" using life_okD(3) [OF assms(1), of i] assms(2) by auto
  note ok = life_okD(2) [OF assms(1) i]
  note nets = life_okD(1) [OF assms(1)]
  have d: "distinct ?xs" and p: "\<not> poisoned (nets ?w ?n)" using nets by (simp_all add: nets_ok_def)
  have "i \<in> set ?xs" and dr: "dropped (eps ?w i)" and
    r: "refcnt (eps ?w i) = of_nat (uh s i + sn s i) + 1"
    using ok assms(2) by (auto simp: ep_ok_def listed_def)
  from find_present [OF d this(1), of 0] obtain k where
    k: "k < length ?xs" "?xs ! k = i" "find_endpoint i ?xs 0 None = Inr (Some k)" by auto
  let ?ys = "take k ?xs @ drop (Suc k) ?xs"
  obtain g where m: "nets ?w ?n = \<lparr>guarded = g, poisoned = False\<rparr>" using p by (cases "nets ?w ?n") simp
  have "net_drop_endpoint (net_of ?w i) i ?w =
      (Inr (), (on_ep i (\<lambda>e. e\<lparr>refcnt := of_nat (uh s i + sn s i)\<rparr>) ?w)\<lparr>nets := (nets ?w)
         (?n := \<lparr>guarded = (guarded (nets ?w ?n))\<lparr>endpoints := ?ys\<rparr>, poisoned = False\<rparr>)\<rparr>)"
    using k dr r
    by (simp add: net_drop_endpoint_def Let_def net_of_def drop_count_def on_ep_def m nets_eps_commute)
  with remove_index [OF d k(1)] k(2) show ?thesis by (intro exI [of _ ?ys]) simp
qed

lemma remove_life_ok:
  assumes "life_ok s" and "removing s i" and "net_drop_endpoint (net_of (lw s) i) i (lw s) = (r, w)"
  shows "life_ok (s\<lparr>lw := w, removing := (removing s)(i := False)\<rparr>)"
proof -
  let ?n = "net_i (net (eps (lw s) i))"
  obtain ys where
    w: "w = (on_ep i (\<lambda>e. e\<lparr>refcnt := of_nat (uh s i + sn s i)\<rparr>) (lw s))\<lparr>nets := (nets (lw s))
       (?n := \<lparr>guarded = (guarded (nets (lw s) ?n))\<lparr>endpoints := ys\<rparr>, poisoned = False\<rparr>)\<rparr>"
    and ys: "distinct ys" "set ys = set (listing (lw s) ?n) - {i}"
    using remove_outcome [OF assms(1,2)] assms(3) by auto
  have i: "i < ep_lim (lw s)" using life_okD(3) [OF assms(1), of i] assms(2) by auto
  note nets = life_okD(1) [OF assms(1)]
  have lims: "ep_lim w = ep_lim (lw s)" "net_lim w = net_lim (lw s)"
    and net: "net (eps w j) = net (eps (lw s) j)" for j
    by (simp_all add: w)
  have set: "set (listing w n) = set (listing (lw s) n) - {i}" for n
    using nets ys by (auto simp: w nets_ok_def)
  have l: "listed w j = (j \<noteq> i \<and> listed (lw s) j)" for j by (auto simp: listed_def net set)
  show ?thesis
  proof (rule life_okI [where w = w and u = "uh s" and v = "sn s" and r = "(removing s)(i := False)"];
      (simp; fail)?)
    have "\<not> poisoned (nets w n) \<and> distinct (listing w n)" for n
      using nets ys by (simp add: w nets_ok_def)
    moreover have "j < ep_lim w \<and> net_i (net (eps w j)) = n" if "j \<in> set (listing w n)" for j n
      using nets that unfolding net lims set nets_ok_def by blast
    ultimately show "nets_ok w" unfolding nets_ok_def by blast
    show "ep_ok w (uh s j) (sn s j) (((removing s)(i := False)) j) j" if "j < ep_lim w" for j
    proof (cases "j = i")
      case True
      from life_okD(2) [OF assms(1) i] assms(2) show ?thesis
        unfolding True ep_ok_def l lims net by (auto simp: w)
    next
      case False
      with life_okD(2) [OF assms(1) that [unfolded lims]] show ?thesis
        unfolding ep_ok_def l lims net by (simp add: w)
    qed
    show "uh s j = 0 \<and> sn s j = 0 \<and> \<not> ((removing s)(i := False)) j" if "\<not> j < ep_lim w" for j
      using life_okD(3) [OF assms(1) that [unfolded lims]] i that lims by auto
  qed
qed

text \<open>A new endpoint: one handle for the caller, one in the net.\<close>

definition added :: "net_handle \<Rightarrow> world \<Rightarrow> nat \<Rightarrow> world \<Rightarrow> bool" where
  "added n w i w' \<longleftrightarrow>
     i = ep_lim w \<and> ep_lim w' = Suc (ep_lim w) \<and> net_lim w' = net_lim w \<and>
     (\<exists>e. eps w' = (eps w)(i := e) \<and> refcnt e = 2 \<and> \<not> dropped e \<and> net_i (net e) = net_i n) \<and>
     (\<exists>k. nets w' = (nets w)(net_i n := \<lparr>guarded = \<lparr>endpoints = listing w (net_i n) @ [i], hueid = k\<rparr>,
        poisoned = False\<rparr>))"

lemma endpoints_upd: "x\<lparr>endpoints := es\<rparr> = \<lparr>endpoints = es, hueid = hueid x\<rparr>" for x :: net_internal
  by (cases x) simp

lemma new_endpoint_added:
  "new_endpoint n w = (Inr i, w') \<Longrightarrow> added n w i w'"
  "new_endpoint_withid n e w = (Inr i, w') \<Longrightarrow> added n w i w'"
  by (auto simp: new_endpoint_def new_endpoint_withid_def Let_def ep_alloc_def ep_clone_def on_ep_def
      added_def endpoint_new_def net_clone_def endpoints_upd split: if_splits)

lemma added_life_ok:
  assumes "life_ok s" and "added n (lw s) i w" and "net_i n < net_lim (lw s)"
  shows "life_ok (s\<lparr>lw := w, uh := (uh s)(i := 1)\<rparr>)"
proof -
  obtain e k where i: "i = ep_lim (lw s)" and lims: "ep_lim w = Suc (ep_lim (lw s))" "net_lim w = net_lim (lw s)"
    and eps: "eps w = (eps (lw s))(i := e)" and e: "refcnt e = 2" "\<not> dropped e" "net_i (net e) = net_i n"
    and nets': "nets w = (nets (lw s))(net_i n := \<lparr>guarded = \<lparr>endpoints = listing (lw s) (net_i n) @ [i],
      hueid = k\<rparr>, poisoned = False\<rparr>)"
    using assms(2) by (auto simp: added_def)
  note nets = life_okD(1) [OF assms(1), unfolded nets_ok_def]
  have new: "i \<notin> set (listing (lw s) m)" for m using nets i by auto
  have set: "set (listing w m) = set (listing (lw s) m) \<union> (if m = net_i n then {i} else {})" for m
    by (auto simp: nets')
  have net: "j \<noteq> i \<Longrightarrow> net (eps w j) = net (eps (lw s) j)" for j by (simp add: eps)
  have l: "j \<noteq> i \<Longrightarrow> listed w j = listed (lw s) j" for j by (auto simp: listed_def net set)
  have li: "listed w i" using e by (simp add: listed_def eps nets')
  show ?thesis
  proof (rule life_okI [where w = w and u = "(uh s)(i := 1)" and v = "sn s" and r = "removing s"];
      (simp; fail)?)
    have "\<not> poisoned (nets w m) \<and> distinct (listing w m)" for m
      using nets new by (simp add: nets')
    moreover have "j < ep_lim w \<and> net_i (net (eps w j)) = m" if "j \<in> set (listing w m)" for j m
    proof (cases "j = i")
      case True
      with that new [of m] have "m = net_i n" by (auto simp: set split: if_splits)
      with True e i show ?thesis by (simp add: lims eps)
    next
      case False
      with that have "j \<in> set (listing (lw s) m)" by (auto simp: set split: if_splits)
      with nets False show ?thesis unfolding lims by (simp add: net) (metis less_SucI)
    qed
    ultimately show "nets_ok w" unfolding nets_ok_def by blast
    show "ep_ok w (((uh s)(i := 1)) j) (sn s j) (removing s j) j" if "j < ep_lim w" for j
    proof (cases "j = i")
      case True
      from life_okD(3) [OF assms(1), of i] i have "sn s i = 0" "\<not> removing s i" by simp_all
      with True li e assms(3) show ?thesis by (simp add: ep_ok_def eps lims)
    next
      case False
      with that i have "j < ep_lim (lw s)" by (simp add: lims)
      from life_okD(2) [OF assms(1) this] False show ?thesis by (simp add: ep_ok_def l lims eps)
    qed
    show "((uh s)(i := 1)) j = 0 \<and> sn s j = 0 \<and> \<not> removing s j" if "\<not> j < ep_lim w" for j
      using life_okD(3) [OF assms(1), of j] that i by (simp add: lims)
  qed
qed

lemma net_new_life_ok:
  assumes "life_ok s" and "net_new x (lw s) = (n, w)"
  shows "life_ok (s\<lparr>lw := w\<rparr>)"
proof -
  let ?k = "net_lim (lw s)"
  have w: "eps w = eps (lw s)" "ep_lim w = ep_lim (lw s)" "net_lim w = Suc ?k"
    "nets w = (nets (lw s))(?k := mutex_new \<lparr>endpoints = [], hueid = 0x10000\<rparr>)"
    using assms(2) by (auto simp: net_new_def)
  note nets = life_okD(1) [OF assms(1), unfolded nets_ok_def]
  have small: "net_i (net (eps (lw s) j)) < ?k" if "j < ep_lim (lw s)" for j
    using life_okD(2) [OF assms(1) that] by (simp add: ep_ok_def)
  then have l: "listed w j = listed (lw s) j" if "j < ep_lim (lw s)" for j
    using that by (simp add: listed_def w less_imp_neq)
  show ?thesis
  proof (rule life_okI [where w = w and u = "uh s" and v = "sn s" and r = "removing s"]; (simp; fail)?)
    show "nets_ok w" using nets by (simp add: nets_ok_def w)
    show "ep_ok w (uh s j) (sn s j) (removing s j) j" if "j < ep_lim w" for j
      using life_okD(2) [OF assms(1), of j] that l [of j] by (simp add: ep_ok_def w)
    show "uh s j = 0 \<and> sn s j = 0 \<and> \<not> removing s j" if "\<not> j < ep_lim w" for j
      using life_okD(3) [OF assms(1), of j] that by (simp add: w)
  qed
qed

lemma life_step_ok: "life_step s t \<Longrightarrow> life_ok s \<Longrightarrow> life_ok t"
proof (induction rule: life_step.induct)
  case (l_give s i m r w)
  have "same_life (snd st) (snd (snd (give m st)))" for st
    using give_frame [of m "fst st" "snd st"] by (cases "give m st") (auto simp: same_life_def)
  with l_give show ?case by (blast intro: life_ok_at)
next
  case (l_drop s i b w)
  then have h: "life_ok s" "uh s i + sn s i = Suc (uh s i - 1 + sn s i)" "drop_count i (lw s) = (b, w)"
    by simp_all
  show ?case by (rule drop_life_ok [OF h, where u = "uh s i - 1" and v = "sn s i"]) simp_all
next
  case (l_drop_snap s i b w)
  then have h: "life_ok s" "uh s i + sn s i = Suc (uh s i + (sn s i - 1))" "drop_count i (lw s) = (b, w)"
    by simp_all
  show ?case by (rule drop_life_ok [OF h, where u = "uh s i" and v = "sn s i - 1"]) simp_all
next
  case (l_recv s i r w)
  then show ?case using recv_keeps by (intro life_ok_at) auto
next
  case (l_set s i f)
  then show ?case
    by (intro life_ok_quiet) (auto simp: setters_keep)
next
  case (l_new n s i w)
  show ?case by (rule added_life_ok [OF l_new(3) new_endpoint_added(1) [OF l_new(2)] l_new(1)])
next
  case (l_new_withid n s e i w)
  show ?case
    by (rule added_life_ok [OF l_new_withid(3) new_endpoint_added(2) [OF l_new_withid(2)] l_new_withid(1)])
qed (auto intro: net_new_life_ok clone_life_ok snapshot_life_ok remove_life_ok)

lemma life_start_ok: "life_ok life_start"
  by (simp add: life_ok_def life_start_def world_empty_def nets_ok_def)

text \<open>
  C5. The reference count decides rightly when an endpoint leaves its net, however the steps of
  clones, drops and sends in different threads interleave: an endpoint stays on its net as long as
  the program holds a handle on it, and it is off the net once no handle and no removal is left.
  The removal never panics and never waits for the lock it holds. The count is the number of
  handles in the program, in sends, and in the net.
\<close>

theorem endpoint_lifetime:
  assumes "life_step\<^sup>*\<^sup>* life_start s" and "i < ep_lim (lw s)"
  shows "(uh s i > 0 \<longrightarrow> listed (lw s) i) \<and>
    (uh s i = 0 \<and> sn s i = 0 \<and> \<not> removing s i \<longrightarrow> \<not> listed (lw s) i) \<and>
    (removing s i \<longrightarrow> fst (net_drop_endpoint (net_of (lw s) i) i (lw s)) = Inr ()) \<and>
    getrefcnt (eps (lw s) i) = of_nat (uh s i + sn s i + of_bool (listed (lw s) i))"
proof -
  have ok: "life_ok s"
    using assms(1) by (induction rule: rtranclp_induct) (auto intro: life_start_ok life_step_ok)
  have "removing s i \<Longrightarrow> fst (net_drop_endpoint (net_of (lw s) i) i (lw s)) = Inr ()"
    using remove_outcome [OF ok, of i] by fastforce
  moreover note e = life_okD(2) [OF ok assms(2), unfolded ep_ok_def]
  moreover have "uh s i > 0 \<longrightarrow> listed (lw s) i"
    and "uh s i = 0 \<and> sn s i = 0 \<and> \<not> removing s i \<longrightarrow> \<not> listed (lw s) i"
    using e by auto
  ultimately show ?thesis unfolding getrefcnt_def by blast
qed

theorem endpoint_lifetime_witness:
  "\<exists>s. life_step\<^sup>*\<^sup>* life_start s \<and> removing s 0 \<and> uh s 0 = 0 \<and>
     fst (net_drop_endpoint (net_of (lw s) 0) 0 (lw s)) = Inr ()"
proof -
  define w1 where "w1 = snd (net_new 100 world_empty)"
  define w2 where "w2 = snd (new_endpoint demo_net w1)"
  define w3 where "w3 = snd (drop_count 0 w2)"
  define s1 where "s1 = life_start\<lparr>lw := w1\<rparr>"
  define s2 where "s2 = s1\<lparr>lw := w2, uh := (uh s1)(0 := 1)\<rparr>"
  define s3 where "s3 = s2\<lparr>lw := w3, uh := (uh s2)(0 := uh s2 0 - 1),
    removing := (removing s2)(0 := True \<or> removing s2 0)\<rparr>"
  have new: "new_endpoint demo_net w1 = (Inr 0, w2)"
    by (simp add: w2_def w1_def net_new_def new_endpoint_def Let_def demo_net_def ep_alloc_def world_empty_def)
  have e: "refcnt (eps w2 0) = 2" "\<not> dropped (eps w2 0)" "ep_lim w2 = 1"
    using new_endpoint_added(1) [OF new] by (auto simp: added_def)
  have "net_new 100 (lw life_start) = (fst (net_new 100 world_empty), w1)"
    by (simp add: life_start_def w1_def)
  from l_net [OF this] have 1: "life_step life_start s1" by (simp only: s1_def)
  have "net_i demo_net < net_lim (lw s1)" and "new_endpoint demo_net (lw s1) = (Inr 0, w2)"
    using new by (simp_all add: s1_def w1_def net_new_def demo_net_def world_empty_def)
  from l_new [OF this] have 2: "life_step s1 s2" by (simp only: s2_def)
  have "uh s2 0 > 0" and d: "drop_count 0 (lw s2) = (True, w3)"
    using e by (simp_all add: s2_def w3_def drop_count_def Let_def)
  from l_drop [OF this] have 3: "life_step s2 s3" by (simp only: s3_def)
  from 1 2 3 have r: "life_step\<^sup>*\<^sup>* life_start s3" by auto
  have "0 < ep_lim (lw s3)" using e by (simp add: s3_def w3_def drop_count_def Let_def)
  with endpoint_lifetime [OF r] have "removing s3 0 \<longrightarrow>
    fst (net_drop_endpoint (net_of (lw s3) 0) 0 (lw s3)) = Inr ()" by blast
  moreover have "removing s3 0" "uh s3 0 = 0" by (simp_all add: s3_def s2_def)
  ultimately show ?thesis using r by blast
qed

end
