(* ===== verification/Net_Ids.thy ===== *)
theory Net_Ids
  imports Lifetime
begin

text \<open>
  The endpoint ids a net hands out (\<open>get_neweid\<close>, \<open>new_endpoint\<close> and \<open>new_endpoint_withid\<close> of
  \<open>src/net.rs\<close>), and the latency of its sleeper thread.
\<close>

section \<open>Ids\<close>

datatype id_request = IdNew | IdWith u64 | IdFresh

fun id_call :: "net_handle \<Rightarrow> id_request \<Rightarrow> (world, u64) oper" where
  "id_call n IdNew w = bindO (new_endpoint n) (\<lambda>i w1. (Inr (geteid (eps w1 i)), w1)) w"
| "id_call n (IdWith e) w = bindO (new_endpoint_withid n e) (\<lambda>i w1. (Inr (geteid (eps w1 i)), w1)) w"
| "id_call n IdFresh w = get_neweid n w"

fun id_calls :: "net_handle \<Rightarrow> id_request list \<Rightarrow> (world, u64 list) oper" where
  "id_calls n [] w = (Inr [], w)"
| "id_calls n (c # cs) w =
     bindO (id_call n c) (\<lambda>x. bindO (id_calls n cs) (\<lambda>xs. retO (x # xs))) w"

definition next_id :: "net_handle \<Rightarrow> world \<Rightarrow> u64" where
  "next_id n w = hueid (guarded (nets w (net_i n)))"

text \<open>
  Calls that keep the ids apart: a given id is not the very next one, and ids do not run out. The
  first is what \<open>new_endpoint_withid\<close> should not need.
\<close>

definition apart :: "net_handle \<Rightarrow> id_request \<Rightarrow> world \<Rightarrow> bool" where
  "apart n c w =
     (case c of IdWith e \<Rightarrow> e \<noteq> next_id n w \<and> e \<noteq> UNUSED_ID | _ \<Rightarrow> next_id n w \<noteq> UNUSED_ID)"

fun all_apart :: "net_handle \<Rightarrow> id_request list \<Rightarrow> world \<Rightarrow> bool" where
  "all_apart n [] w = True"
| "all_apart n (c # cs) w = (apart n c w \<and> all_apart n cs (snd (id_call n c w)))"

definition given :: "id_request \<Rightarrow> bool" where
  "given c = (case c of IdWith _ \<Rightarrow> True | _ \<Rightarrow> False)"

lemma id_call_outcome:
  assumes "id_call n c w = (Inr x, w')"
  shows "case c of
      IdWith e \<Rightarrow> x = e \<and> next_id n w' = (if e > next_id n w then e + 1 else next_id n w)
    | _ \<Rightarrow> x = next_id n w \<and> next_id n w' = next_id n w + 1"
  using assms
  by (cases c)
    (auto simp: bindO_def new_endpoint_def new_endpoint_withid_def get_neweid_def on_net_def Let_def
      ep_alloc_def ep_clone_def on_ep_def geteid_def endpoint_new_def next_id_def split: if_splits)

lemma UNUSED_less: "e \<noteq> UNUSED_ID \<Longrightarrow> e < e + 1"
proof -
  assume "e \<noteq> UNUSED_ID"
  then have "1 + e \<noteq> 0"
    by (auto simp: UNUSED_ID_def add.commute eq_neg_iff_add_eq_0 [symmetric] dest: arg_cong [of "- e" 1 uminus])
  then have "unat (1 + e) = Suc (unat e)" by (rule unatSuc)
  then show ?thesis by (simp add: word_less_nat_alt add.commute)
qed

lemma id_call_below:
  assumes "id_call n c w = (Inr x, w')" and "apart n c w"
  shows "x < next_id n w' \<and> next_id n w \<le> next_id n w' \<and> (\<not> given c \<longrightarrow> next_id n w \<le> x)"
  using id_call_outcome [OF assms(1)] assms(2) UNUSED_less
  by (cases c) (auto simp: apart_def given_def not_less intro: less_imp_le order.strict_trans)

text \<open>
  C26. An id that the net picks (for \<open>new_endpoint\<close>, or \<open>get_neweid\<close>) is different from all ids used
  on it before, picked or given, as long as no id was given that was just the next one to be picked
  and ids have not run out.
\<close>

theorem fresh_ids_unique:
  assumes "id_calls n cs w = (Inr xs, w')" and "all_apart n cs w" and "k < length cs" and "\<not> given (cs ! k)"
  shows "xs ! k \<notin> set (take k xs) \<and> next_id n w \<le> xs ! k"
proof -
  have "xs ! k \<notin> set (take k xs) \<union> {y. y < next_id n w}"
    using assms
  proof (induction cs arbitrary: w xs k)
    case Nil
    then show ?case by simp
  next
    case (Cons c cs)
    from Cons.prems(1) obtain x w1 ys where c: "id_call n c w = (Inr x, w1)"
      and t: "id_calls n cs w1 = (Inr ys, w')" and xs: "xs = x # ys"
      by (auto elim!: bindO_InrE)
    from Cons.prems(2) c have a: "apart n c w" and rest: "all_apart n cs w1" by simp_all
    note b = id_call_below [OF c a]
    show ?case
    proof (cases k)
      case 0
      with b Cons.prems(4) show ?thesis by (simp add: xs not_less)
    next
      case (Suc j)
      with Cons.prems have "ys ! j \<notin> set (take j ys) \<union> {y. y < next_id n w1}"
        by (intro Cons.IH [OF t rest]) simp_all
      with b show ?thesis by (auto simp: xs Suc)
    qed
  qed
  then show ?thesis by (simp add: not_less)
qed

theorem fresh_ids_unique_witness:
  "\<exists>xs w'. id_calls demo_net [IdWith 0x20000, IdNew, IdFresh] demo_world = (Inr xs, w') \<and>
     xs ! 2 \<notin> set (take 2 xs)"
proof -
  let ?cs = "[IdWith 0x20000, IdNew, IdFresh]"
  have defs: "\<exists>xs w'. id_calls demo_net ?cs demo_world = (Inr xs, w')" "all_apart demo_net ?cs demo_world"
    by (simp_all add: new_endpoint_def new_endpoint_withid_def get_neweid_def on_net_def Let_def
      ep_alloc_def ep_clone_def on_ep_def geteid_def endpoint_new_def next_id_def bindO_def demo_net_def
      apart_def UNUSED_ID_def)
  then obtain xs w' where r: "id_calls demo_net ?cs demo_world = (Inr xs, w')" by blast
  from fresh_ids_unique [OF r defs(2), of 2] have "xs ! 2 \<notin> set (take 2 xs)" by (simp add: given_def)
  with r show ?thesis by blast
qed

text \<open>
  An endpoint created with the id that the net would pick next does not use that id up: the
  next endpoint gets the same id, so a message to it reaches both. (An id that is higher makes the
  net continue above it.)
\<close>

lemma withid_duplicates:
  assumes "new_endpoint_withid n (next_id n w) w = (Inr i, w1)" and "new_endpoint n w1 = (Inr j, w2)"
  shows "i \<noteq> j \<and> geteid (eps w2 i) = geteid (eps w2 j)"
  using assms
  by (auto simp: new_endpoint_def new_endpoint_withid_def Let_def ep_alloc_def ep_clone_def on_ep_def
      geteid_def endpoint_new_def next_id_def split: if_splits)

section \<open>The latency\<close>

text \<open>
  The sleeper thread's latency never adapts: it sleeps for the maximal latency before every
  round, since no round records that it woke anybody.
\<close>

lemma latency_is_maximal:
  "case fst (sleeperthread n rounds w) of
     Inr ls \<Rightarrow> ls = replicate (length rounds) NET_MAXLATENCY
   | Inl f \<Rightarrow> f = LockPoisoned"
proof -
  have a: "sleeper_adjust False NET_MAXLATENCY = NET_MAXLATENCY"
    by (simp add: sleeper_adjust_def NET_MAXLATENCY_def)
  show ?thesis unfolding sleeperthread_def
  proof (induction rounds arbitrary: w)
    case Nil
    then show ?case by simp
  next
    case (Cons r rounds)
    obtain c f where r: "r = (c, f)" by (meson surj_pair)
    show ?case
    proof (cases "poisoned (nets (f w) (net_i n))")
      case True
      then show ?thesis by (simp add: r sleeper_round_def)
    next
      case False
      then obtain w1 where "sleeper_round n c (f w) = (Inr False, w1)"
        by (simp add: sleeper_round_def Let_def)
      with Cons.IH [of w1] a show ?thesis
        by (auto simp: r split: prod.splits sum.splits)
    qed
  qed
qed

end
