(* ===== verification/Tcp.thy ===== *)
theory Tcp
  imports Lifetime Byte_Codec
begin

text \<open>
  \<open>src/tcp/mod.rs\<close>: the TCP bridge between two
  nets: the framing of raw messages on a byte stream, and the loops of the receiving and the sending
  thread. Sockets belong to the standard library: the bytes a thread can read until the stream
  ends are an argument.
\<close>

section \<open>Streams\<close>

text \<open>The reading end of a stream: the bytes still to come before it ends.\<close>

type_synonym stream = "u8 list"

definition read_u8 :: "stream \<Rightarrow> u8 option \<times> stream" where
  "read_u8 s = (case s of [] \<Rightarrow> (None, []) | b # bs \<Rightarrow> (Some b, bs))"

definition read_be_u64 :: "stream \<Rightarrow> u64 option \<times> stream" where
  "read_be_u64 s = (if length s < 8 then (None, []) else (Some (be_word (take 8 s)), drop 8 s))"

text \<open>\<open>read_at_least\<close> into a buffer that was never written: what the stream lacks stays unwritten.\<close>

definition read_at_least :: "usize \<Rightarrow> stream \<Rightarrow> cell list \<times> stream" where
  "read_at_least n s =
     (map Some (take (unat n) s) @ replicate (unat n - length s) None, drop (unat n) s)"

text \<open>\<open>getok\<close> on a read: a panic if the stream has ended.\<close>

definition getok :: "(stream \<Rightarrow> 'a option \<times> stream) \<Rightarrow> (stream, 'a) oper" where
  "getok f s = (case f s of (Some x, s') \<Rightarrow> (Inr x, s') | (None, s') \<Rightarrow> (Inl StreamError, s'))"

section \<open>The receiving thread\<close>

record frame =
  fr_srcsid :: u64
  fr_srceid :: u64
  fr_dstsid :: u64
  fr_dsteid :: u64
  fr_cells :: "cell list"

text \<open>
  One message off the stream, \<open>None\<close> if the stream ended where a message would start or inside its size. A
  vector of \<open>2 ^ 63\<close> bytes or more cannot be allocated (a smaller one is taken to be; that memory runs out
  is not modelled).
\<close>

definition rx_read_frame :: "(stream, frame option) oper" where
  "rx_read_frame s =
     (case read_be_u64 s of
        (None, s1) \<Rightarrow> (Inr None, s1)
      | (Some size0, s1) \<Rightarrow>
          bindO (getok read_u8) (\<lambda>ty. bindO (getok read_be_u64) (\<lambda>srcsid. bindO (getok read_be_u64) (\<lambda>srceid.
          bindO (getok read_be_u64) (\<lambda>dstsid. bindO (getok read_be_u64) (\<lambda>dsteid s2.
            let msgsize = size0 - (1 + 8 * 4) in
            if unat msgsize \<ge> 2 ^ 63 then (Inl CapacityOverflow, s2)
            else case read_at_least msgsize s2 of
                   (vbuf, s3) \<Rightarrow>
                     if ty \<noteq> 1 then (Inl BadMessageType, s3)
                     else (Inr (Some \<lparr>fr_srcsid = srcsid, fr_srceid = srceid, fr_dstsid = dstsid,
                             fr_dsteid = dsteid, fr_cells = vbuf\<rparr>), s3)))))) s1)"

definition rx_deliver :: "nat \<Rightarrow> frame \<Rightarrow> (world, usize) oper" where
  "rx_deliver ep f =
     bindO (on_heap (\<lambda>h. case raw_new (of_nat (length (fr_cells f))) h of
         (r, h1) \<Rightarrow> bindO (raw_write_from_slice r 0 (fr_cells f)) (\<lambda>_. retO r) h1))
       (\<lambda>r. case message_clone ((new_fromraw r)\<lparr>dstsid := fr_dstsid f, dsteid := fr_dsteid f,
               srcsid := fr_srcsid f, srceid := fr_srceid f\<rparr>) of
              Inl e \<Rightarrow> failO e
            | Inr m \<Rightarrow> ep_sendx ep m)"

lemma bindO_length:
  assumes "bindO f k s = (Inr y, s')" and "\<And>x t. f s = (Inr x, t) \<Longrightarrow> length t \<le> length s"
    and "\<And>x t. f s = (Inr x, t) \<Longrightarrow> k x t = (Inr y, s') \<Longrightarrow> length s' \<le> length t"
  shows "length s' \<le> length s"
proof -
  from assms(1) obtain x t where "f s = (Inr x, t)" "k x t = (Inr y, s')" by (auto elim!: bindO_InrE)
  with assms(2,3) show ?thesis by fastforce
qed

lemma getok_length:
  "getok read_u8 s = (Inr x, t) \<Longrightarrow> length t \<le> length s"
  "getok read_be_u64 s = (Inr y, t) \<Longrightarrow> length t \<le> length s"
  by (auto simp: getok_def read_u8_def read_be_u64_def split: list.splits if_splits)

lemma rx_read_frame_shorter: "rx_read_frame s = (Inr (Some f), s') \<Longrightarrow> length s' < length s"
proof -
  assume a: "rx_read_frame s = (Inr (Some f), s')"
  then have "\<not> length s < 8" by (auto simp: rx_read_frame_def read_be_u64_def)
  with a show ?thesis
    by (fastforce simp: rx_read_frame_def read_be_u64_def Let_def read_at_least_def split: if_splits
        elim!: bindO_InrE dest!: getok_length)
qed

text \<open>The loop of \<open>thread_rx\<close>; every message is put on the net before the next one is read.\<close>

function rx_loop :: "nat \<Rightarrow> stream \<Rightarrow> (world, unit) oper" where
  "rx_loop ep s w =
     (case rx_read_frame s of
        (Inl e, _) \<Rightarrow> (Inl e, w)
      | (Inr None, _) \<Rightarrow> (Inr (), w)
      | (Inr (Some f), s') \<Rightarrow>
          (case rx_deliver ep f w of
             (Inl e, w1) \<Rightarrow> (Inl e, w1)
           | (Inr _, w1) \<Rightarrow> rx_loop ep s' w1))"
  by pat_completeness auto
termination
  by (relation "measure (\<lambda>(ep, s, w). length s)") (auto dest: rx_read_frame_shorter [OF sym])

declare rx_loop.simps [simp del]

text \<open>The messages on a stream, and how it ends.\<close>

function rx_frames :: "stream \<Rightarrow> frame list \<times> (failure + unit)" where
  "rx_frames s =
     (case rx_read_frame s of
        (Inl e, _) \<Rightarrow> ([], Inl e)
      | (Inr None, _) \<Rightarrow> ([], Inr ())
      | (Inr (Some f), s') \<Rightarrow> (case rx_frames s' of (fs, r) \<Rightarrow> (f # fs, r)))"
  by pat_completeness auto
termination
  by (relation "measure length") (auto dest: rx_read_frame_shorter [OF sym])

declare rx_frames.simps [simp del]

section \<open>The sending thread\<close>

text \<open>What is written before the payload: the size of the rest, the type, and the addresses.\<close>

definition tx_header :: "message \<Rightarrow> usize \<Rightarrow> cell list" where
  "tx_header m len =
     map Some (be_bytes 8 (1 + 8 * 4 + len) @ [1] @ be_bytes 8 (srcsid m) @ be_bytes 8 (srceid m) @
       be_bytes 8 (dstsid m) @ be_bytes 8 (dsteid m))"

text \<open>
  The loop of \<open>thread_tx\<close>, for what its receives returned, each with the heap at that moment. The
  result is what was written (as memory: a byte that was never set is sent as it is) and whether
  the thread has terminated. \<open>T\<close> is the type \<open>TerminateMessage\<close>.
\<close>

fun tx_loop :: "rtype \<Rightarrow> (message io_result \<times> heap) list \<Rightarrow> (failure + bool) \<times> cell list" where
  "tx_loop T [] = (Inr False, [])"
| "tx_loop T ((result, h) # evs) =
     (if io_is_err result then tx_loop T evs
      else case io_ok result of
             Inl f \<Rightarrow> (Inl f, [])
           | Inr msg \<Rightarrow>
               if is_type T msg then (Inr True, [])
               else if \<not> is_raw msg then tx_loop T evs
               else case get_raw msg of
                      Inl f \<Rightarrow> (Inl f, [])
                    | Inr rmsg \<Rightarrow>
                        (case raw_len rmsg h of
                           (Inl f, _) \<Rightarrow> (Inl f, [])
                         | (Inr len, h1) \<Rightarrow>
                             (case raw_as_slice rmsg h1 of
                                (Inl f, _) \<Rightarrow> (Inl f, tx_header msg len)
                              | (Inr sl, h2) \<Rightarrow>
                                  (case tx_loop T evs of
                                     (r, out) \<Rightarrow> (r, tx_header msg len @ slice_read sl h2 @ out)))))"

definition thread_tx :: "rtype \<Rightarrow> u64 \<Rightarrow> (message io_result \<times> heap) list \<Rightarrow> (failure + bool) \<times> cell list" where
  "thread_tx T mysid evs = (case tx_loop T evs of (r, out) \<Rightarrow> (r, map Some (be_bytes 8 mysid) @ out))"

section \<open>Framing\<close>

lemma read_be_front [simp]: "read_be_u64 (be_bytes 8 w @ rest) = (Some w, rest)"
  using b64.parse_front [of w rest] by (simp add: read_be_u64_def)

lemma getok_front [simp]:
  "getok read_be_u64 (be_bytes 8 w @ rest) = (Inr w, rest)"
  "getok read_u8 (b # rest) = (Inr b, rest)"
  by (simp_all add: getok_def read_u8_def)

lemma read_frame_eq:
  "rx_read_frame (be_bytes 8 (sz :: u64) @ [ty] @ be_bytes 8 a @ be_bytes 8 b @ be_bytes 8 c @ be_bytes 8 d @ rest) =
    (let n = unat (sz - 33) in
     if n \<ge> 2 ^ 63 then (Inl CapacityOverflow, rest)
     else if ty \<noteq> 1 then (Inl BadMessageType, drop n rest)
     else (Inr (Some \<lparr>fr_srcsid = a, fr_srceid = b, fr_dstsid = c, fr_dsteid = d,
             fr_cells = map Some (take n rest) @ replicate (n - length rest) None\<rparr>), drop n rest))"
  by (simp add: rx_read_frame_def Let_def read_at_least_def)
text \<open>A stream that ends inside the size, or inside the rest of the header.\<close>

lemma bind_getok:
  "length t < 8 \<Longrightarrow> bindO (getok read_be_u64) k t = (Inl StreamError, [])"
  "8 \<le> length t \<Longrightarrow> bindO (getok read_be_u64) k t = k (be_word (take 8 t)) (drop 8 t)"
  "bindO (getok read_u8) k' [] = (Inl StreamError, [])"
  "1 \<le> length t \<Longrightarrow> bindO (getok read_u8) k' t = k' (hd t) (tl t)"
  by (auto simp: bindO_def getok_def read_be_u64_def read_u8_def split: list.split)

lemma read_frame_cut:
  "length s < 8 \<Longrightarrow> rx_read_frame s = (Inr None, [])"
  "8 \<le> length s \<Longrightarrow> length s < 41 \<Longrightarrow> rx_read_frame s = (Inl StreamError, [])"
proof -
  show "length s < 8 \<Longrightarrow> rx_read_frame s = (Inr None, [])" by (simp add: rx_read_frame_def read_be_u64_def)
  assume l: "8 \<le> length s" "length s < 41"
  then consider "drop 8 s = []" | "9 \<le> length s" "length s < 17" | "17 \<le> length s" "length s < 25"
    | "25 \<le> length s" "length s < 33" | "33 \<le> length s" by fastforce
  then show "rx_read_frame s = (Inl StreamError, [])"
    by cases (use l in \<open>simp_all add: rx_read_frame_def read_be_u64_def bind_getok\<close>)
qed

text \<open>Every longer stream begins with a header.\<close>

lemma header_front:
  assumes "41 \<le> length s"
  obtains sz a b c d :: u64 and ty :: u8 and rest where
    "s = be_bytes 8 sz @ [ty] @ be_bytes 8 a @ be_bytes 8 b @ be_bytes 8 c @ be_bytes 8 d @ rest"
proof -
  obtain sz :: u64 and s1 where 1: "s = be_bytes 8 sz @ s1" "length s1 = length s - 8"
    by (rule be_front [of 8 s, where ?'a = 64]) (use assms in simp, simp, rule that)
  then obtain ty s2 where 2: "s1 = ty # s2" "length s2 = length s - 9"
    using assms by (cases s1) auto
  obtain a :: u64 and s3 where 3: "s2 = be_bytes 8 a @ s3" "length s3 = length s2 - 8"
    by (rule be_front [of 8 s2, where ?'a = 64]) (use assms 2(2) in simp, simp, rule that)
  obtain b :: u64 and s4 where 4: "s3 = be_bytes 8 b @ s4" "length s4 = length s3 - 8"
    by (rule be_front [of 8 s3, where ?'a = 64]) (use assms 2(2) 3(2) in simp, simp, rule that)
  obtain c :: u64 and s5 where 5: "s4 = be_bytes 8 c @ s5" "length s5 = length s4 - 8"
    by (rule be_front [of 8 s4, where ?'a = 64]) (use assms 2(2) 3(2) 4(2) in simp, simp, rule that)
  obtain d :: u64 and s6 where 6: "s5 = be_bytes 8 d @ s6" "length s6 = length s5 - 8"
    by (rule be_front [of 8 s5, where ?'a = 64]) (use assms 2(2) 3(2) 4(2) 5(2) in simp, simp, rule that)
  show thesis by (rule that [of sz ty a b c d s6]) (simp add: 1(1) 2(1) 3(1) 4(1) 5(1) 6(1))
qed

lemma small_size_wraps: "(sz :: u64) < 33 \<Longrightarrow> 2 ^ 63 \<le> unat (sz - 33)"
proof -
  assume "sz < 33"
  then have "unat sz < 33" by (simp add: word_less_nat_alt)
  then show ?thesis by (simp add: unat_sub_if' word_size)
qed

text \<open>
  C24. What the receiver makes of any stream where a message would start. If the stream ends before or
  inside the size, the thread ends quietly; if it ends inside the rest of the header, the thread panics. Every
  other stream begins with a whole header, of some size, type and addresses: if the size is smaller than the
  header it counts, the subtraction wraps and the thread dies allocating the buffer; it dies on a type
  other than 1; and if the stream ends inside the payload, the message is put on the net all the same, at its
  full length, the missing bytes being whatever the buffer held.
\<close>

theorem rx_frame_outcome:
  "(length s < 8 \<longrightarrow> rx_read_frame s = (Inr None, [])) \<and>
   (8 \<le> length s \<and> length s < 41 \<longrightarrow> rx_read_frame s = (Inl StreamError, [])) \<and>
   (41 \<le> length s \<longrightarrow>
     (\<exists>(sz :: u64) ty (a :: u64) (b :: u64) (c :: u64) (d :: u64) rest.
        s = be_bytes 8 sz @ [ty] @ be_bytes 8 a @ be_bytes 8 b @ be_bytes 8 c @ be_bytes 8 d @ rest \<and>
        rx_read_frame s =
          (let n = unat (sz - 33) in
           if sz < 33 \<or> n \<ge> 2 ^ 63 then (Inl CapacityOverflow, rest)
           else if ty \<noteq> 1 then (Inl BadMessageType, drop n rest)
           else (Inr (Some \<lparr>fr_srcsid = a, fr_srceid = b, fr_dstsid = c, fr_dsteid = d,
                   fr_cells = map Some (take n rest) @ replicate (n - length rest) None\<rparr>), drop n rest))))"
proof (intro conjI impI)
  show "length s < 8 \<Longrightarrow> rx_read_frame s = (Inr None, [])" by (rule read_frame_cut(1))
  show "8 \<le> length s \<and> length s < 41 \<Longrightarrow> rx_read_frame s = (Inl StreamError, [])"
    by (blast intro: read_frame_cut(2))
  assume "41 \<le> length s"
  then obtain sz a b c d :: u64 and ty :: u8 and rest where
    s: "s = be_bytes 8 sz @ [ty] @ be_bytes 8 a @ be_bytes 8 b @ be_bytes 8 c @ be_bytes 8 d @ rest"
    by (rule header_front)
  show "\<exists>(sz :: u64) ty (a :: u64) (b :: u64) (c :: u64) (d :: u64) rest.
        s = be_bytes 8 sz @ [ty] @ be_bytes 8 a @ be_bytes 8 b @ be_bytes 8 c @ be_bytes 8 d @ rest \<and>
        rx_read_frame s =
          (let n = unat (sz - 33) in
           if sz < 33 \<or> n \<ge> 2 ^ 63 then (Inl CapacityOverflow, rest)
           else if ty \<noteq> 1 then (Inl BadMessageType, drop n rest)
           else (Inr (Some \<lparr>fr_srcsid = a, fr_srceid = b, fr_dstsid = c, fr_dsteid = d,
                   fr_cells = map Some (take n rest) @ replicate (n - length rest) None\<rparr>), drop n rest))"
    by (rule exI [of _ sz], rule exI [of _ ty], rule exI [of _ a], rule exI [of _ b], rule exI [of _ c],
        rule exI [of _ d], rule exI [of _ rest], rule conjI [OF s])
      (subst s, subst read_frame_eq, use small_size_wraps [of sz] in \<open>auto simp: Let_def\<close>)
qed

text \<open>A stream that is cut at each of the places, and a whole one that lacks two bytes of its payload.\<close>

definition demo_frame :: stream where
  "demo_frame = be_bytes 8 (36 :: u64) @ [1] @ be_bytes 8 (7 :: u64) @ be_bytes 8 (8 :: u64) @
     be_bytes 8 (9 :: u64) @ be_bytes 8 (10 :: u64) @ [65]"

theorem rx_frame_outcome_witness:
  "rx_read_frame (take 5 demo_frame) = (Inr None, []) \<and>
   rx_read_frame (take 20 demo_frame) = (Inl StreamError, []) \<and>
   rx_read_frame demo_frame =
     (Inr (Some \<lparr>fr_srcsid = 7, fr_srceid = 8, fr_dstsid = 9, fr_dsteid = 10,
        fr_cells = Some 65 # replicate 2 None\<rparr>), [])"
proof (intro conjI)
  have l: "length demo_frame = 42" by (simp add: demo_frame_def)
  show "rx_read_frame (take 5 demo_frame) = (Inr None, [])"
    using rx_frame_outcome [THEN conjunct1, of "take 5 demo_frame"] l by simp
  show "rx_read_frame (take 20 demo_frame) = (Inl StreamError, [])"
    using rx_frame_outcome [THEN conjunct2, THEN conjunct1, of "take 20 demo_frame"] l by simp
  obtain sz a b c d :: u64 and ty :: u8 and rest where
    e: "demo_frame = be_bytes 8 sz @ [ty] @ be_bytes 8 a @ be_bytes 8 b @ be_bytes 8 c @ be_bytes 8 d @ rest"
    and r: "rx_read_frame demo_frame =
          (let n = unat (sz - 33) in
           if sz < 33 \<or> n \<ge> 2 ^ 63 then (Inl CapacityOverflow, rest)
           else if ty \<noteq> 1 then (Inl BadMessageType, drop n rest)
           else (Inr (Some \<lparr>fr_srcsid = a, fr_srceid = b, fr_dstsid = c, fr_dsteid = d,
                   fr_cells = map Some (take n rest) @ replicate (n - length rest) None\<rparr>), drop n rest))"
    using rx_frame_outcome [THEN conjunct2, THEN conjunct2, of demo_frame] l by auto
  have "sz = 36" "ty = 1" "a = 7" "b = 8" "c = 9" "d = 10" "rest = [65]"
    using e unfolding demo_frame_def by (auto dest: b64.enc_inj)
  then show "rx_read_frame demo_frame =
     (Inr (Some \<lparr>fr_srcsid = 7, fr_srceid = 8, fr_dstsid = 9, fr_dsteid = 10,
        fr_cells = Some 65 # replicate 2 None\<rparr>), [])"
    unfolding r by (simp add: Let_def)
qed

text \<open>The messages the sender forwards: the raw ones it receives before a termination message.\<close>

definition frame_of :: "message \<Rightarrow> raw_internal \<Rightarrow> frame" where
  "frame_of m i = \<lparr>fr_srcsid = srcsid m, fr_srceid = srceid m, fr_dstsid = dstsid m, fr_dsteid = dsteid m,
     fr_cells = take (unat (rlen i)) (rbuf i)\<rparr>"

fun sent_frames :: "rtype \<Rightarrow> (message io_result \<times> heap) list \<Rightarrow> frame list" where
  "sent_frames T [] = []"
| "sent_frames T ((Err e, h) # evs) = sent_frames T evs"
| "sent_frames T ((Ok m, h) # evs) =
     (if is_type T m then []
      else case payload m of
             Raw r \<Rightarrow> frame_of m (guarded (raws h r)) # sent_frames T evs
           | _ \<Rightarrow> sent_frames T evs)"

text \<open>A received message whose bytes were all written and whose buffer nobody panicked on.\<close>

definition sendable :: "message io_result \<times> heap \<Rightarrow> bool" where
  "sendable ev \<longleftrightarrow>
     (case ev of
        (Ok m, h) \<Rightarrow>
          (case payload m of
             Raw r \<Rightarrow> \<not> poisoned (raws h r) \<and> raw_wf (guarded (raws h r)) \<and>
               unat (rlen (guarded (raws h r))) < 2 ^ 63 \<and>
               None \<notin> set (take (unat (rlen (guarded (raws h r)))) (rbuf (guarded (raws h r))))
           | _ \<Rightarrow> True)
      | _ \<Rightarrow> True)"

lemma map_Some_the: "None \<notin> set xs \<Longrightarrow> map Some (map the xs) = xs"
  by (induction xs) auto

lemma map_the_Some: "map the (map Some xs) = xs"
  by simp

lemma read_frame_front:
  assumes "raw_wf i" and "unat (rlen i) < 2 ^ 63" and "None \<notin> set (take (unat (rlen i)) (rbuf i))"
  shows "rx_read_frame (map the (tx_header m (rlen i) @ take (unat (rlen i)) (rbuf i)) @ rest) =
    (Inr (Some (frame_of m i)), rest)"
proof -
  let ?p = "map the (take (unat (rlen i)) (rbuf i))"
  have "(33 :: u64) + rlen i - 33 = rlen i" by simp
  moreover have "length ?p = unat (rlen i)"
    using assms(1) by (simp add: raw_wf_def word_le_nat_alt)
  ultimately show ?thesis
    using read_frame_eq [of "33 + rlen i" 1 "srcsid m" "srceid m" "dstsid m" "dsteid m" "?p @ rest"]
      assms(2) map_Some_the [OF assms(3)]
    by (simp add: tx_header_def Let_def frame_of_def map_the_Some del: map_map)
qed

lemma rx_frames_Cons:
  "rx_read_frame s = (Inr (Some f), s') \<Longrightarrow> rx_frames s = (case rx_frames s' of (fs, r) \<Rightarrow> (f # fs, r))"
  by (subst rx_frames.simps) simp

lemma rx_frames_Nil [simp]: "rx_frames [] = ([], Inr ())"
  by (subst rx_frames.simps) (simp add: rx_read_frame_def read_be_u64_def)

lemma tx_loop_raw:
  assumes "payload m = Raw r" and "\<not> is_type T m" and "sendable (Ok m, h)"
  shows "tx_loop T ((Ok m, h) # evs) =
    (fst (tx_loop T evs), tx_header m (rlen (guarded (raws h r))) @
       take (unat (rlen (guarded (raws h r)))) (rbuf (guarded (raws h r))) @ snd (tx_loop T evs))"
  using assms
  by (simp add: sendable_def get_raw_def raw_as_slice_def on_raw_look slice_read_def split: prod.splits)

lemma tx_rx_frames:
  assumes "list_all sendable evs"
  shows "rx_frames (map the (snd (tx_loop T evs))) = (sent_frames T evs, Inr ()) \<and>
    fst (tx_loop T evs) = Inr (\<exists>m h. (Ok m, h) \<in> set evs \<and> is_type T m)"
  using assms
proof (induction T evs rule: sent_frames.induct)
  case (1 T)
  then show ?case by simp
next
  case (2 T e h evs)
  then show ?case by simp
next
  case (3 T m h evs)
  show ?case
  proof (cases "is_type T m")
    case True
    then show ?thesis by auto
  next
    case notype: False
    show ?thesis
    proof (cases "payload m")
      case (Raw r)
      let ?i = "guarded (raws h r)"
      have ok: "raw_wf ?i" "unat (rlen ?i) < 2 ^ 63" "None \<notin> set (take (unat (rlen ?i)) (rbuf ?i))"
        using 3 Raw by (simp_all add: sendable_def)
      have "rx_read_frame (map the (snd (tx_loop T ((Ok m, h) # evs)))) =
          (Inr (Some (frame_of m ?i)), map the (snd (tx_loop T evs)))"
        using read_frame_front [OF ok, of m "map the (snd (tx_loop T evs))"] 3 Raw notype
        by (subst tx_loop_raw [OF Raw notype]) simp_all
      from rx_frames_Cons [OF this] 3 Raw notype show ?thesis
        by (auto simp: tx_loop_raw [OF Raw notype] simp del: tx_loop.simps)
    qed (use 3 notype in auto)
  qed
qed

text \<open>
  The bridge carries raw messages faithfully: what the sending thread writes, the receiving
  thread reads back as the same messages, in the same order, with the same addresses and bytes, and
  nothing else. Sync and clone messages are not forwarded, and nothing after a termination message.
  (Each buffer's bytes are taken up to its length, all of them written before.)
\<close>

lemma tcp_roundtrip:
  assumes "list_all sendable evs"
  shows "rx_frames (map the (snd (tx_loop T evs))) = (sent_frames T evs, Inr ()) \<and>
    fst (tx_loop T evs) = Inr (\<exists>m h. (Ok m, h) \<in> set evs \<and> is_type T m)"
  using assms by (rule tx_rx_frames)

definition demo_filled :: heap where
  "demo_filled = snd (raw_new_fromstr [72, 105] heap_empty)"

lemma tcp_roundtrip_example:
  "list_all sendable [(Ok (new_fromraw 0), demo_filled)] \<and>
   fst (rx_frames (map the (snd (tx_loop demo_type [(Ok (new_fromraw 0), demo_filled)])))) =
     [\<lparr>fr_srcsid = 0, fr_srceid = 0, fr_dstsid = 0, fr_dsteid = 0, fr_cells = [Some 72, Some 105]\<rparr>]"
proof -
  have "raws demo_filled 0 = mutex_new \<lparr>rlen = 2, rcap = 2, rbuf = [Some 72, Some 105]\<rparr>"
    using fromstr_eq [of "[72, 105]" heap_empty] by (simp add: demo_filled_def heap_empty_def)
  then have s: "list_all sendable [(Ok (new_fromraw 0), demo_filled)]"
    and f: "sent_frames demo_type [(Ok (new_fromraw 0), demo_filled)] =
      [\<lparr>fr_srcsid = 0, fr_srceid = 0, fr_dstsid = 0, fr_dsteid = 0, fr_cells = [Some 72, Some 105]\<rparr>]"
    by (simp_all add: sendable_def new_fromraw_def raw_wf_def frame_of_def is_type_def is_sync_def is_clone_def)
  from tcp_roundtrip [OF s, of demo_type] s f show ?thesis by simp
qed

section \<open>Delivery on the net\<close>

fun rx_deliver_all :: "nat \<Rightarrow> frame list \<Rightarrow> (world, unit) oper" where
  "rx_deliver_all ep [] w = (Inr (), w)"
| "rx_deliver_all ep (f # fs) w =
     (case rx_deliver ep f w of (Inl e, w1) \<Rightarrow> (Inl e, w1) | (Inr _, w1) \<Rightarrow> rx_deliver_all ep fs w1)"

text \<open>
  The receiving loop delivers the messages of the stream one after another and then ends as the
  stream does: reading and delivering can be looked at apart.
\<close>

lemma rx_loop_refines:
  "rx_loop ep s w =
     (case rx_frames s of (fs, r) \<Rightarrow>
        case rx_deliver_all ep fs w of (Inl e, w') \<Rightarrow> (Inl e, w') | (Inr _, w') \<Rightarrow> (r, w'))"
proof (induction ep s w rule: rx_loop.induct)
  case (1 ep s w)
  obtain r s' where f: "rx_read_frame s = (r, s')" by (meson surj_pair)
  show ?case
  proof (cases r)
    case (Inl e)
    with f show ?thesis by (subst rx_loop.simps, subst rx_frames.simps) simp
  next
    case (Inr x)
    show ?thesis
    proof (cases x)
      case None
      with f Inr show ?thesis by (subst rx_loop.simps, subst rx_frames.simps) simp
    next
      case (Some fr)
      with f Inr have fr: "rx_read_frame s = (Inr (Some fr), s')" by simp
      obtain d w1 where d: "rx_deliver ep fr w = (d, w1)" by (meson surj_pair)
      show ?thesis
      proof (cases d)
        case (Inl e)
        with fr d show ?thesis
          by (subst rx_loop.simps) (simp add: rx_frames_Cons split: prod.splits)
      next
        case (Inr n)
        with fr d have IH: "rx_loop ep s' w1 = (case rx_frames s' of (fs, r) \<Rightarrow>
            case rx_deliver_all ep fs w1 of (Inl e, w') \<Rightarrow> (Inl e, w') | (Inr _, w') \<Rightarrow> (r, w'))"
          using "1.IH" [OF fr [symmetric] refl refl d [symmetric] Inr] by simp
        from fr d Inr show ?thesis
          by (subst rx_loop.simps) (simp add: IH rx_frames_Cons split: prod.splits)
      qed
    qed
  qed
qed

text \<open>The buffer of a received message: its bytes, but never of length 0.\<close>

definition rx_buffer :: "cell list \<Rightarrow> raw_internal" where
  "rx_buffer cs = (let n = of_nat (length cs) in
     if cs = [] then raw_internal_new 0 else \<lparr>rlen = n, rcap = n, rbuf = cs\<rparr>)"

lemma rx_build:
  assumes "length cs < 2 ^ 63"
  shows "(case raw_new (of_nat (length cs)) h of
       (r, h1) \<Rightarrow> bindO (raw_write_from_slice r 0 cs) (\<lambda>_. retO r) h1) =
    (Inr (raw_lim h), snd (alloc_raw (rx_buffer cs) h))"
proof -
  let ?n = "of_nat (length cs) :: usize"
  let ?i = "raw_internal_new ?n"
  have n: "unat ?n = length cs" using assms by (intro unat_of_nat_usize) simp
  have i: "?i = (if cs = [] then raw_internal_new 0 else \<lparr>rlen = ?n, rcap = ?n, rbuf = allocate ?n\<rparr>)"
  proof (cases "cs = []")
    case False
    with n have "?n \<noteq> 0" by auto
    with False show ?thesis by (simp add: raw_internal_new_def Let_def)
  qed simp
  have "raw_internal_write_from_slice 0 cs ?i = (Inr (), rx_buffer cs)"
  proof (cases "cs = []")
    case True
    then show ?thesis
      using write_slice_fits [of "raw_internal_new 0" 0 "[]"] by (simp add: rx_buffer_def)
  next
    case False
    then have eq: "?i = \<lparr>rlen = ?n, rcap = ?n, rbuf = allocate ?n\<rparr>" using i by simp
    have "raw_wf ?i" by simp
    from write_slice_fits [OF this, of 0 cs] assms False n show ?thesis
      unfolding eq by (simp add: rx_buffer_def Let_def overwrite_whole)
  qed
  then show ?thesis
    by (simp add: raw_new_def alloc_raw_def raw_write_from_slice_def on_raw_def with_lock_def mutex_new_def)
qed

text \<open>The message the receiver makes of a frame.\<close>

definition rx_message :: "frame \<Rightarrow> nat \<Rightarrow> message" where
  "rx_message f r = \<lparr>srcsid = fr_srcsid f, srceid = fr_srceid f, dstsid = fr_dstsid f,
     dsteid = fr_dsteid f, canloop = False, payload = Raw r\<rparr>"

lemma rx_buffer_wf: "length cs < 2 ^ 63 \<Longrightarrow> raw_wf (rx_buffer cs)"
proof -
  assume a: "length cs < 2 ^ 63"
  then have n: "unat (of_nat (length cs) :: usize) = length cs" by (intro unat_of_nat_usize) simp
  show ?thesis
  proof (cases "cs = []")
    case False
    with n have "(of_nat (length cs) :: usize) \<noteq> 0" by auto
    with n False show ?thesis by (simp add: rx_buffer_def raw_wf_def Let_def)
  qed (simp add: rx_buffer_def)
qed

lemma rx_buffer_cells: "cs \<noteq> [] \<Longrightarrow> rbuf (rx_buffer cs) = cs"
  by (simp add: rx_buffer_def Let_def)

lemma rx_deliver_eq:
  assumes "ready (net_of w ep) w" and "heap_wf (heap w)" and "length (fr_cells f) < 2 ^ 63"
  defines "is \<equiv> endpoints (guarded (nets w (net_i (net_of w ep))))"
    and "m \<equiv> rx_message f (Suc (raw_lim (heap w)))"
  shows "\<exists>h'. heap_grows (heap w) h' \<and> buffer_of m < raw_lim h' \<and>
    guarded (raws h' (buffer_of m)) = dup_of (rx_buffer (fr_cells f)) \<and>
    rx_deliver ep f w = (Inr (of_nat (length (filter (\<lambda>i. accepts (eps w i) m) is))),
      map_eps (set is) (take_message h' m) (w\<lparr>heap := h'\<rparr>))"
proof -
  let ?i = "rx_buffer (fr_cells f)"
  let ?h1 = "snd (alloc_raw ?i (heap w))"
  let ?w1 = "w\<lparr>heap := ?h1\<rparr>"
  let ?m0 = "rx_message f (raw_lim (heap w))"
  let ?h' = "snd (alloc_raw (dup_of ?i) ?h1)"
  have wf: "raw_wf ?i" using assms(3) by (rule rx_buffer_wf)
  then have wf1: "heap_wf ?h1" using assms(2) by (simp add: alloc_raw_wf)
  have m0: "(new_fromraw r)\<lparr>dstsid := fr_dstsid f, dsteid := fr_dsteid f, srcsid := fr_srcsid f,
      srceid := fr_srceid f\<rparr> = rx_message f r" for r
    by (simp add: new_fromraw_def rx_message_def)
  have clone: "message_clone (rx_message f r) = Inr (rx_message f r)" for r
    by (simp add: message_clone_eq rx_message_def is_sync_def)
  have "rx_deliver ep f w = ep_sendx ep ?m0 ?w1"
    using rx_build [OF assms(3), of "heap w"]
    by (simp add: rx_deliver_def on_heap_def m0 clone)
  also have "\<dots> = net_send (net_of w ep) ?m0 ?w1" by (simp add: ep_sendx_def net_of_def)
  also have "\<dots> = (Inr (of_nat (length (filter (\<lambda>i. accepts (eps w i) m) is))),
      map_eps (set is) (take_message ?h' m) (w\<lparr>heap := ?h'\<rparr>))"
  proof -
    have "ready (net_of w ep) ?w1" using assms(1) by (simp add: ready_def)
    moreover have "\<not> poisoned (raws (heap ?w1) (buffer_of ?m0))"
      by (simp add: rx_message_def buffer_of_def)
    moreover have "posted ?m0 ?h1 = (m, ?h')"
      by (simp add: posted_def rx_message_def m_def)
    ultimately show ?thesis
      using net_send_eq [of "net_of w ep" ?w1 ?m0] wf1 by (simp add: Let_def is_def)
  qed
  finally have "rx_deliver ep f w = (Inr (of_nat (length (filter (\<lambda>i. accepts (eps w i) m) is))),
      map_eps (set is) (take_message ?h' m) (w\<lparr>heap := ?h'\<rparr>))" .
  moreover have "heap_grows (heap w) ?h'"
    using wf by (intro heap_grows_trans [OF heap_grows_alloc heap_grows_alloc]) simp_all
  moreover have "buffer_of m < raw_lim ?h'" by (simp add: m_def rx_message_def buffer_of_def alloc_raw_def)
  moreover have "guarded (raws ?h' (buffer_of m)) = dup_of ?i"
    by (simp add: m_def rx_message_def buffer_of_def)
  ultimately show ?thesis by blast
qed

text \<open>
  C25. A message without destination (a broadcast) comes back over the bridge: the receiving thread's
  own endpoint on the net, which stands for the remote net, accepts it as well, since its id is not
  that of the sender. So it is in the queue from which the sending thread forwards raw messages.
\<close>

theorem bridge_echo:
  assumes "ready (net_of w b) w" and "heap_wf (heap w)" and "length (fr_cells f) < 2 ^ 63"
    and "b \<in> set (endpoints (guarded (nets w (net_i (net_of w b)))))" and "has_room (eps w b)"
    and "fr_dstsid f = 0" and "fr_dsteid f = 0" and "fr_srceid f \<noteq> geteid (eps w b)"
  shows "\<exists>m r w'. rx_deliver b f w = (Inr r, w') \<and> queue w' b = queue w b @ [m] \<and> is_raw m \<and>
    srcsid m = fr_srcsid f \<and> srceid m = fr_srceid f \<and> dstsid m = 0 \<and> dsteid m = 0 \<and>
    (fr_cells f \<noteq> [] \<longrightarrow> rbuf (guarded (raws (heap w') (buffer_of m))) = fr_cells f)"
proof -
  let ?m = "rx_message f (Suc (raw_lim (heap w)))"
  obtain h' r where h: "guarded (raws h' (buffer_of ?m)) = dup_of (rx_buffer (fr_cells f))"
    and d: "rx_deliver b f w = (Inr r, map_eps (set (endpoints (guarded (nets w (net_i (net_of w b))))))
       (take_message h' ?m) (w\<lparr>heap := h'\<rparr>))"
    using rx_deliver_eq [OF assms(1-3)] by blast
  have "accepts (eps w b) ?m"
    using assms(5-8) by (simp add: accepts_def addressed_def rx_message_def geteid_def)
  with assms(4) have "queue (snd (rx_deliver b f w)) b = queue w b @ [?m]"
    by (simp add: d queue_def take_message_def wakeonewaiter_def enqueue_def)
  moreover have "is_raw ?m" by (simp add: is_raw_def rx_message_def)
  moreover have "rbuf (dup_of (rx_buffer (fr_cells f))) = fr_cells f" if "fr_cells f \<noteq> []"
    using that by (simp add: dup_of_def rx_buffer_cells)
  ultimately show ?thesis using h d assms(6,7)
    by (intro exI [of _ ?m]) (simp add: rx_message_def)
qed

theorem bridge_echo_witness:
  "\<exists>m r w'. rx_deliver 0 \<lparr>fr_srcsid = 200, fr_srceid = 5, fr_dstsid = 0, fr_dsteid = 0, fr_cells = [Some 1]\<rparr>
       demo_world = (Inr r, w') \<and> queue w' 0 = [m] \<and> srceid m = 5"
proof -
  let ?f = "\<lparr>fr_srcsid = 200, fr_srceid = 5, fr_dstsid = 0, fr_dsteid = 0, fr_cells = [Some (1 :: u8)]\<rparr>"
  have "ready (net_of demo_world 0) demo_world" using demo_ready by (simp add: demo_net_of)
  moreover have "heap_wf (heap demo_world)" by (simp add: demo_heap_wf)
  moreover have "0 \<in> set (endpoints (guarded (nets demo_world (net_i (net_of demo_world 0)))))"
    by (simp add: demo_net_of) (simp add: demo_net_def)
  moreover have "has_room (eps demo_world 0)" "geteid (eps demo_world 0) \<noteq> 5" "queue demo_world 0 = []"
    by (simp_all add: has_room_def geteid_def endpoint_new_def queue_def sq_new_def)
  ultimately show ?thesis using bridge_echo [of demo_world 0 ?f] by (simp, blast)
qed

end
