(* ===== verification/Bridge.thy ===== *)
theory Bridge
  imports Tcp
begin

text \<open>
  \<open>src/tcp/listener.rs\<close> and \<open>src/tcp/connector.rs\<close>: the state of a listener and of a connector, their
  operations, and their threads. What sockets do (the results of connecting and accepting) and what
  other threads do between two locked blocks are arguments of the threads.
\<close>

section \<open>Listeners and connectors\<close>

text \<open>The state behind each bridge's lock. The acceptor is the listening socket.\<close>

record acceptor =
  acc_closed :: bool

record listener_internal =
  l_net :: net_handle
  l_addr :: string
  l_terminate :: bool
  clientcount :: u64
  negcount :: u64
  l_acceptor :: "acceptor option"

record connector_internal =
  c_net :: net_handle
  c_addr :: string
  c_ep :: "nat option"
  c_terminate :: bool
  c_gid :: u64
  c_connected :: bool

record bworld =
  bw :: world
  listeners :: "nat \<Rightarrow> listener_internal mutex"
  connectors :: "nat \<Rightarrow> connector_internal mutex"

datatype which = Listener nat | Connector nat

definition on_listener :: "nat \<Rightarrow> (listener_internal \<Rightarrow> 'a \<times> listener_internal) \<Rightarrow> (bworld, 'a) oper" where
  "on_listener l f st =
     (let m = listeners st l in
      if poisoned m then (Inl LockPoisoned, st)
      else case f (guarded m) of
             (x, i) \<Rightarrow> (Inr x, st\<lparr>listeners := (listeners st)(l := m\<lparr>guarded := i\<rparr>)\<rparr>))"

definition on_connector :: "nat \<Rightarrow> (connector_internal \<Rightarrow> 'a \<times> connector_internal) \<Rightarrow> (bworld, 'a) oper" where
  "on_connector c f st =
     (let m = connectors st c in
      if poisoned m then (Inl LockPoisoned, st)
      else case f (guarded m) of
             (x, i) \<Rightarrow> (Inr x, st\<lparr>connectors := (connectors st)(c := m\<lparr>guarded := i\<rparr>)\<rparr>))"

text \<open>An operation on the world, and one done while a bridge's lock is held: a panic poisons it.\<close>

definition on_world :: "(world, 'a) oper \<Rightarrow> (bworld, 'a) oper" where
  "on_world f st = (case f (bw st) of (r, w) \<Rightarrow> (r, st\<lparr>bw := w\<rparr>))"

definition in_connector :: "nat \<Rightarrow> (connector_internal \<Rightarrow> (bworld, 'a) oper) \<Rightarrow> (bworld, 'a) oper" where
  "in_connector c f st =
     (if poisoned (connectors st c) then (Inl LockPoisoned, st)
      else case f (guarded (connectors st c)) st of
             (Inl e, st1) \<Rightarrow> (Inl e, st1\<lparr>connectors := (connectors st1)
                (c := (connectors st1 c)\<lparr>poisoned := True\<rparr>)\<rparr>)
           | (Inr x, st1) \<Rightarrow> (Inr x, st1))"

definition in_listener :: "nat \<Rightarrow> (listener_internal \<Rightarrow> (bworld, 'a) oper) \<Rightarrow> (bworld, 'a) oper" where
  "in_listener l f st =
     (if poisoned (listeners st l) then (Inl LockPoisoned, st)
      else case f (guarded (listeners st l)) st of
             (Inl e, st1) \<Rightarrow> (Inl e, st1\<lparr>listeners := (listeners st1)
                (l := (listeners st1 l)\<lparr>poisoned := True\<rparr>)\<rparr>)
           | (Inr x, st1) \<Rightarrow> (Inr x, st1))"

section \<open>The listener\<close>

definition listener_setacceptor :: "nat \<Rightarrow> acceptor option \<Rightarrow> (bworld, unit) oper" where
  "listener_setacceptor l a = on_listener l (\<lambda>i. ((), i\<lparr>l_acceptor := a\<rparr>))"

definition listener_getterminate :: "nat \<Rightarrow> (bworld, bool) oper" where
  "listener_getterminate l = on_listener l (\<lambda>i. (l_terminate i, i))"

definition listener_getaddr :: "nat \<Rightarrow> (bworld, string) oper" where
  "listener_getaddr l = on_listener l (\<lambda>i. (l_addr i, i))"

definition clientcountinc :: "nat \<Rightarrow> (bworld, unit) oper" where
  "clientcountinc l = on_listener l (\<lambda>i. ((), i\<lparr>clientcount := clientcount i + 1\<rparr>))"

definition getclientcount :: "nat \<Rightarrow> (bworld, u64) oper" where
  "getclientcount l = on_listener l (\<lambda>i. (clientcount i, i))"

definition negcountinc :: "nat \<Rightarrow> (bworld, unit) oper" where
  "negcountinc l = on_listener l (\<lambda>i. ((), i\<lparr>negcount := negcount i + 1\<rparr>))"

definition getnegcount :: "nat \<Rightarrow> (bworld, u64) oper" where
  "getnegcount l = on_listener l (\<lambda>i. (negcount i, i))"

definition listener_terminate :: "nat \<Rightarrow> (bworld, unit) oper" where
  "listener_terminate l =
     bindO (on_listener l (\<lambda>i. ((), i\<lparr>l_terminate := True\<rparr>))) (\<lambda>_.
     bindO (on_listener l (\<lambda>i. (l_acceptor i \<noteq> None, i))) (\<lambda>some.
     if some then on_listener l (\<lambda>i. ((), i\<lparr>l_acceptor := map_option (\<lambda>a. a\<lparr>acc_closed := True\<rparr>) (l_acceptor i)\<rparr>))
     else retO ()))"

text \<open>
  A new endpoint for a connection: the system id is not known before the link is negotiated. Ids for
  the endpoint and its group come from the net.
\<close>

definition bridge_endpoint :: "net_handle \<Rightarrow> (world, nat) oper" where
  "bridge_endpoint n = bindO (get_neweid n) (\<lambda>e w.
     case ep_alloc (endpoint_new (NOT 0) e (net_clone n)) w of (x, w1) \<Rightarrow> (Inr x, w1))"

text \<open>
  One accepted connection, under the listener's lock: the endpoint, shared by the two threads that
  are spawned for it. The result is the endpoint they work on and the id that is sent first.
\<close>

definition accept_one :: "nat \<Rightarrow> (bworld, nat \<times> u64) oper" where
  "accept_one l =
     bindO (in_listener l (\<lambda>i.
       let n = l_net i in
       on_world (bindO (bridge_endpoint n) (\<lambda>ep. bindO (get_neweid n) (\<lambda>g w.
         let w1 = on_ep ep (setgid g) w; w2 = ep_clone ep w1 in
         bindO (add_endpoint n ep) (\<lambda>_ w3. (Inr (ep, getserveraddr n), ep_clone ep w3)) w2)))))
       (\<lambda>spawned. bindO (clientcountinc l) (\<lambda>_. retO spawned))"

text \<open>
  The accept thread, given whether binding and listening worked and, for each attempt to accept, what
  other threads did before it and whether it gave a connection. \<open>None\<close>: still running; the list has
  what was spawned. Closing the acceptor makes attempts fail, which does not end the loop.
\<close>

fun accept_loop :: "nat \<Rightarrow> ((bworld \<Rightarrow> bworld) \<times> bool) list \<Rightarrow> bworld \<Rightarrow>
    (failure + unit) option \<times> (nat \<times> u64) list \<times> bworld" where
  "accept_loop l [] st = (None, [], st)"
| "accept_loop l ((others, ok) # evs) st =
     (if \<not> ok then accept_loop l evs (others st)
      else case accept_one l (others st) of
             (Inl f, st1) \<Rightarrow> (Some (Inl f), [], st1)
           | (Inr x, st1) \<Rightarrow> (case accept_loop l evs st1 of (r, xs, st2) \<Rightarrow> (r, x # xs, st2)))"

definition thread_accept :: "nat \<Rightarrow> bool \<Rightarrow> ((bworld \<Rightarrow> bworld) \<times> bool) list \<Rightarrow> bworld \<Rightarrow>
    (failure + unit) option \<times> (nat \<times> u64) list \<times> bworld" where
  "thread_accept l listening evs st =
     (case listener_getaddr l st of
        (Inl f, st1) \<Rightarrow> (Some (Inl f), [], st1)
      | (Inr addr, st1) \<Rightarrow>
          if \<not> listening then (Some (Inl StreamError), [], st1)
          else case listener_setacceptor l (Some \<lparr>acc_closed = False\<rparr>) st1 of
                 (Inl f, st2) \<Rightarrow> (Some (Inl f), [], st2)
               | (Inr _, st2) \<Rightarrow>
                   (case listener_getterminate l st2 of
                      (Inl f, st3) \<Rightarrow> (Some (Inl f), [], st3)
                    | (Inr t, st3) \<Rightarrow> if t then (Some (Inr ()), [], st3) else accept_loop l evs st3))"

definition listener_new :: "net_handle \<Rightarrow> string \<Rightarrow> listener_internal mutex" where
  "listener_new n addr = mutex_new \<lparr>l_net = net_clone n, l_addr = addr, l_terminate = False,
     clientcount = 0, negcount = 0, l_acceptor = None\<rparr>"

section \<open>The connector\<close>

definition connector_connected :: "nat \<Rightarrow> (bworld, bool) oper" where
  "connector_connected c = on_connector c (\<lambda>i. (c_connected i, i))"

definition setconnected :: "nat \<Rightarrow> bool \<Rightarrow> (bworld, unit) oper" where
  "setconnected c b = on_connector c (\<lambda>i. ((), i\<lparr>c_connected := b\<rparr>))"

text \<open>\<open>T\<close> is the type \<open>TerminateMessage\<close>, of size 0.\<close>

definition connector_terminate :: "rtype \<Rightarrow> nat \<Rightarrow> (bworld, unit) oper" where
  "connector_terminate T c =
     in_connector c (\<lambda>i.
       bindO (on_connector c (\<lambda>i. ((), i\<lparr>c_terminate := True\<rparr>))) (\<lambda>_.
       case c_ep i of
         None \<Rightarrow> retO ()
       | Some ep \<Rightarrow> on_world (bindO (on_heap (new_clone T []))
           (\<lambda>m. bindO (at_ep ep (give m)) (\<lambda>_. retO ())))))"

text \<open>Reading the terminate flag.\<close>

definition connector_flag :: "nat \<Rightarrow> (bworld, bool) oper" where
  "connector_flag c = on_connector c (\<lambda>i. (c_terminate i, i))"

text \<open>Between two locked blocks other threads may run.\<close>

definition after :: "(bworld \<Rightarrow> bworld) \<Rightarrow> (bworld, 'a) oper \<Rightarrow> (bworld, 'a) oper" where
  "after others f st = f (others st)"

text \<open>
  The rest of a round of \<open>thread\<close> once connected and not terminated: it creates the endpoint, spawns
  the two threads and waits for both. \<open>oth k\<close> is what other threads do before the k-th locked block; the
  one before the ninth includes all that the receiving and the sending thread do. The result says
  whether the thread returns.
\<close>

definition connector_serve :: "nat \<Rightarrow> (nat \<Rightarrow> bworld \<Rightarrow> bworld) \<Rightarrow> (bworld, bool) oper" where
  "connector_serve c oth =
     bindO (after (oth 2) (in_connector c (\<lambda>i. on_world (bridge_endpoint (c_net i))))) (\<lambda>ep.
     bindO (after (oth 3) (in_connector c (\<lambda>i. on_world (bindO (get_neweid (c_net i))
       (\<lambda>g w. (Inr (), on_ep ep (setgid g) w)))))) (\<lambda>_.
     bindO (after (oth 4) (in_connector c (\<lambda>i. on_world (\<lambda>w. add_endpoint (c_net i) ep (ep_clone ep w))))) (\<lambda>_.
     bindO (after (oth 5) (connector_flag c)) (\<lambda>t.
     if t then bindO (on_world (ep_drop ep)) (\<lambda>_. retO True)
     else
       bindO (on_world (\<lambda>w. (Inr (), ep_clone ep w))) (\<lambda>_.
       bindO (after (oth 6) (in_connector c (\<lambda>i. on_world (\<lambda>w. (Inr (getserveraddr (c_net i)), ep_clone ep w))))) (\<lambda>_.
       bindO (after (oth 7) (on_connector c (\<lambda>i. (c_ep i, i\<lparr>c_ep := Some ep\<rparr>)))) (\<lambda>old.
       bindO (case old of None \<Rightarrow> retO () | Some x \<Rightarrow> on_world (ep_drop x)) (\<lambda>_.
       bindO (after (oth 8) (setconnected c False)) (\<lambda>_.
       after (oth 9) (connector_flag c))))))))))"

text \<open>A round: whether \<open>connect\<close> works, and what other threads do.\<close>

definition connector_round :: "nat \<Rightarrow> bool \<Rightarrow> (nat \<Rightarrow> bworld \<Rightarrow> bworld) \<Rightarrow> (bworld, bool) oper" where
  "connector_round c ok oth =
     bindO (after (oth 0) (on_connector c (\<lambda>i. (c_addr i, i)))) (\<lambda>addr.
     bindO (after (oth 1) (connector_flag c)) (\<lambda>t.
     if t then retO True
     else if \<not> ok then retO False
     else connector_serve c oth))"

fun connector_thread :: "nat \<Rightarrow> (bool \<times> (nat \<Rightarrow> bworld \<Rightarrow> bworld)) list \<Rightarrow> bworld \<Rightarrow>
    (failure + unit) option \<times> bworld" where
  "connector_thread c [] st = (None, st)"
| "connector_thread c ((ok, oth) # rounds) st =
     (case connector_round c ok oth st of
        (Inl f, st1) \<Rightarrow> (Some (Inl f), st1)
      | (Inr True, st1) \<Rightarrow> (Some (Inr ()), st1)
      | (Inr False, st1) \<Rightarrow> connector_thread c rounds st1)"

definition connector_new :: "net_handle \<Rightarrow> string \<Rightarrow> connector_internal mutex" where
  "connector_new n addr = mutex_new \<lparr>c_net = net_clone n, c_addr = addr, c_ep = None,
     c_terminate = False, c_gid = UNUSED_ID, c_connected = False\<rparr>"

text \<open>\<open>Net::tcplisten\<close> and \<open>Net::tcpconnect\<close>.\<close>

definition tcplisten :: "net_handle \<Rightarrow> string \<Rightarrow> listener_internal mutex" where
  "tcplisten n addr = listener_new n addr"

definition tcpconnect :: "net_handle \<Rightarrow> string \<Rightarrow> connector_internal mutex" where
  "tcpconnect n addr = connector_new n addr"

section \<open>The receiving thread from its start\<close>

text \<open>
  \<open>thread_rx\<close>: the first thing on the stream is the id of the remote net, which becomes the system
  id of the endpoint; the bridge counts the link as negotiated.
\<close>

definition thread_rx :: "which \<Rightarrow> nat \<Rightarrow> stream \<Rightarrow> (bworld, unit) oper" where
  "thread_rx which ep s st =
     (case getok read_be_u64 s of
        (Inl f, _) \<Rightarrow> (Inl f, st)
      | (Inr rsid, s1) \<Rightarrow>
          bindO (case which of Listener l \<Rightarrow> negcountinc l | Connector c \<Rightarrow> setconnected c True)
            (\<lambda>_. on_world (\<lambda>w. rx_loop ep s1 (on_ep ep (setsid rsid) w))) st)"

section \<open>Termination of a connector\<close>

definition terminated :: "nat \<Rightarrow> bworld \<Rightarrow> bool" where
  "terminated c st \<longleftrightarrow> \<not> poisoned (connectors st c) \<and> c_terminate (guarded (connectors st c))"

lemma look_connector [simp]:
  "\<not> poisoned (connectors st c) \<Longrightarrow>
     on_connector c (\<lambda>i. (f i, i)) st = (Inr (f (guarded (connectors st c))), st)"
  by (simp add: on_connector_def Let_def)

text \<open>
  Once a connector is terminated its thread stops: it returns in the round it is in, as soon as
  the attempt to connect is over, and creates no endpoint (whether the attempt worked or not, and
  whatever else happens, as long as the flag stays set).
\<close>

lemma connector_stops:
  assumes "terminated c st" and "\<And>x k. terminated c x \<Longrightarrow> terminated c (oth k x)"
  shows "connector_thread c ((ok, oth) # rounds) st = (Some (Inr ()), oth 1 (oth 0 st))"
proof -
  have "terminated c (oth 0 st)" and "terminated c (oth 1 (oth 0 st))" using assms by blast+
  then show ?thesis
    by (simp add: connector_round_def after_def terminated_def connector_flag_def)
qed

definition demo_bridge :: bworld where
  "demo_bridge = \<lparr>bw = demo_world, listeners = (\<lambda>_. listener_new demo_net ''localhost:1''),
     connectors = (\<lambda>_. connector_new demo_net ''localhost:1'')\<rparr>"

text \<open>The termination message, of a type without contents.\<close>

lemma new_clone_empty:
  assumes "ty_size T = 0"
  obtains i where "raw_wf i" and "new_clone T [] h = (Inr \<lparr>srcsid = 0, srceid = 0, dstsid = 0, dsteid = 0,
    canloop = False, payload = Clone \<lparr>cm_tyid = ty_id T, cm_payload = raw_lim h\<rparr>\<rparr>, snd (alloc_raw i h))"
proof -
  have "value_of T []" using assms by (simp add: value_of_def)
  then obtain i where "stored T [] i"
    and "clone_new T [] h = (Inr \<lparr>cm_tyid = ty_id T, cm_payload = raw_lim h\<rparr>, snd (alloc_raw i h))"
    using clone_new_eq [of T "[]" h] by blast
  then show thesis by (intro that [of i]) (simp_all add: new_clone_def stored_def)
qed

text \<open>
  Terminating a connector that is connected puts a termination message at the end of the queue
  of the bridge's endpoint, unless a limit was set on it that is reached; and the sending thread
  stops when it receives that message.
\<close>

lemma terminate_reaches_tx:
  assumes "\<not> poisoned (connectors st c)" and "c_ep (guarded (connectors st c)) = Some ep"
    and "ty_size T = 0" and "has_room (eps (bw st) ep)" and "\<not> poisoned (waitmutex (eps (bw st) ep))"
    and "geteid (eps (bw st) ep) \<noteq> 0"
  shows "\<exists>m st'. connector_terminate T c st = (Inr (), st') \<and> terminated c st' \<and>
    queue (bw st') ep = queue (bw st) ep @ [m] \<and> (\<forall>h evs. tx_loop T ((Ok m, h) # evs) = (Inr True, []))"
proof -
  let ?w = "bw st"
  let ?con = "connectors st c"
  define st1 where "st1 = st\<lparr>connectors := (connectors st)(c := ?con\<lparr>guarded := (guarded ?con)\<lparr>c_terminate := True\<rparr>\<rparr>)\<rparr>"
  obtain i where "raw_wf i" and n: "new_clone T [] (heap ?w) = (Inr \<lparr>srcsid = 0, srceid = 0, dstsid = 0, dsteid = 0,
    canloop = False, payload = Clone \<lparr>cm_tyid = ty_id T, cm_payload = raw_lim (heap ?w)\<rparr>\<rparr>, snd (alloc_raw i (heap ?w)))"
    using new_clone_empty [OF assms(3), of "heap ?w"] .
  define h where "h = snd (alloc_raw i (heap ?w))"
  define m where "m = \<lparr>srcsid = 0, srceid = 0, dstsid = 0, dsteid = 0, canloop = False,
    payload = Clone \<lparr>cm_tyid = ty_id T, cm_payload = raw_lim (heap ?w)\<rparr>\<rparr>"
  let ?w1 = "?w\<lparr>heap := h\<rparr>"
  have acc: "accepts (eps ?w ep) m"
    using assms(4,6) by (simp add: accepts_def addressed_def m_def geteid_def)
  have new: "on_heap (new_clone T []) ?w = (Inr m, ?w1)"
    using n by (simp add: on_heap_def h_def m_def)
  have "\<not> poisoned (raws h (buffer_of m))" by (simp add: h_def m_def buffer_of_def)
  then have g: "at_ep ep (give m) ?w1 = (Inr True, on_ep ep (take_message h m) ?w1)"
    using at_give_eq [of ?w1 ep m] assms(5) acc by simp
  have set: "on_connector c (\<lambda>i. ((), i\<lparr>c_terminate := True\<rparr>)) st = (Inr (), st1)"
    using assms(1) by (simp add: on_connector_def Let_def st1_def)
  have bw1: "bw st1 = ?w" by (simp add: st1_def)
  have "connector_terminate T c st = (Inr (), st1\<lparr>bw := on_ep ep (take_message h m) ?w1\<rparr>)"
    using assms(1,2) set new g
    by (simp add: connector_terminate_def in_connector_def on_world_def bw1)
  moreover have "terminated c (st1\<lparr>bw := on_ep ep (take_message h m) ?w1\<rparr>)"
    using assms(1) by (simp add: terminated_def st1_def)
  moreover have "queue (on_ep ep (take_message h m) ?w1) ep = queue ?w ep @ [m]"
    using acc by (simp add: queue_def take_message_def wakeonewaiter_def enqueue_def)
  moreover have "is_type T m"
    by (simp add: is_type_def m_def is_sync_def is_clone_def get_cloneref_def clone_is_type_def)
  ultimately show ?thesis
    by (intro exI [of _ m] exI [of _ "st1\<lparr>bw := on_ep ep (take_message h m) ?w1\<rparr>"]) simp
qed

lemma terminate_reaches_tx_example:
  "\<exists>m st'. connector_terminate \<lparr>ty_id = 3, ty_size = 0\<rparr> 0
       (snd (on_connector 0 (\<lambda>i. ((), i\<lparr>c_ep := Some 1\<rparr>)) demo_bridge)) = (Inr (), st') \<and>
     queue (bw st') 1 = [m]"
proof -
  define st where "st = snd (on_connector 0 (\<lambda>i. ((), i\<lparr>c_ep := Some 1\<rparr>)) demo_bridge)"
  have st: "\<not> poisoned (connectors st 0)" "c_ep (guarded (connectors st 0)) = Some 1" "bw st = demo_world"
    by (simp_all add: st_def on_connector_def demo_bridge_def connector_new_def Let_def)
  have e: "has_room (eps (bw st) 1)" "\<not> poisoned (waitmutex (eps (bw st) 1))"
    "geteid (eps (bw st) 1) \<noteq> 0" "queue (bw st) 1 = []"
    by (simp_all add: st has_room_def endpoint_new_def geteid_def queue_def sq_new_def)
  have "ty_size \<lparr>ty_id = 3, ty_size = 0\<rparr> = 0" by simp
  from terminate_reaches_tx [OF st(1,2) this e(1-3)] e(4) show ?thesis
    unfolding st_def [symmetric] by (metis append_Nil)
qed

text \<open>
  An accepted connection gets an endpoint of its own on the net, with two fresh ids, one for the
  endpoint and one for its group, and no system id yet; the net and the two threads each hold a handle;
  and the connection is counted.
\<close>

lemma accept_one_outcome:
  assumes "\<not> poisoned (listeners st l)" and "n = l_net (guarded (listeners st l))"
    and "nets (bw st) (net_i n) = \<lparr>guarded = \<lparr>endpoints = es, hueid = k\<rparr>, poisoned = False\<rparr>"
  shows "\<exists>st'. accept_one l st = (Inr (ep_lim (bw st), getserveraddr n), st') \<and>
    address (eps (bw st') (ep_lim (bw st))) = \<lparr>eid = k, sid = UNUSED_ID, gid = k + 1\<rparr> \<and>
    getrefcnt (eps (bw st') (ep_lim (bw st))) = 3 \<and>
    guarded (nets (bw st') (net_i n)) = \<lparr>endpoints = es @ [ep_lim (bw st)], hueid = 2 + k\<rparr> \<and>
    clientcount (guarded (listeners st' l)) = clientcount (guarded (listeners st l)) + 1"
proof -
  let ?x = "ep_lim (bw st)"
  define e where "e = (endpoint_new (NOT 0) k (net_clone n))\<lparr>refcnt := 3,
    address := \<lparr>eid = k, sid = NOT 0, gid = k + 1\<rparr>\<rparr>"
  define w where "w = (bw st)\<lparr>ep_lim := Suc ?x,
    nets := (nets (bw st))(net_i n := \<lparr>guarded = \<lparr>endpoints = es @ [?x], hueid = 2 + k\<rparr>, poisoned = False\<rparr>),
    eps := (eps (bw st))(?x := e)\<rparr>"
  have "bindO (bridge_endpoint n) (\<lambda>ep. bindO (get_neweid n) (\<lambda>g w.
         let w1 = on_ep ep (setgid g) w; w2 = ep_clone ep w1 in
         bindO (add_endpoint n ep) (\<lambda>_ w3. (Inr (ep, getserveraddr n), ep_clone ep w3)) w2)) (bw st) =
      (Inr (?x, getserveraddr n), w)"
    using assms(3)
    by (simp add: bridge_endpoint_def get_neweid_def on_net_def bindO_def ep_alloc_def on_ep_def ep_clone_def
      add_endpoint_def Let_def setgid_def endpoint_new_def w_def e_def)
  then have a: "in_listener l (\<lambda>i. let n = l_net i in on_world (bindO (bridge_endpoint n) (\<lambda>ep.
      bindO (get_neweid n) (\<lambda>g w.
         let w1 = on_ep ep (setgid g) w; w2 = ep_clone ep w1 in
         bindO (add_endpoint n ep) (\<lambda>_ w3. (Inr (ep, getserveraddr n), ep_clone ep w3)) w2)))) st =
      (Inr (?x, getserveraddr n), st\<lparr>bw := w\<rparr>)"
    using assms(1) by (simp add: in_listener_def on_world_def Let_def assms(2))
  have "clientcountinc l (st\<lparr>bw := w\<rparr>) = (Inr (), st\<lparr>bw := w, listeners := (listeners st)(l :=
      (listeners st l)\<lparr>guarded := (guarded (listeners st l))\<lparr>clientcount :=
        clientcount (guarded (listeners st l)) + 1\<rparr>\<rparr>)\<rparr>)"
    using assms(1) by (simp add: clientcountinc_def on_listener_def Let_def)
  with a have "accept_one l st = (Inr (?x, getserveraddr n), st\<lparr>bw := w, listeners := (listeners st)(l :=
      (listeners st l)\<lparr>guarded := (guarded (listeners st l))\<lparr>clientcount :=
        clientcount (guarded (listeners st l)) + 1\<rparr>\<rparr>)\<rparr>)"
    by (simp add: accept_one_def)
  then show ?thesis
    by (simp add: w_def e_def UNUSED_ID_def getrefcnt_def)
qed

end
