(* ===== verification/Bridge_Delivery.thy ===== *)
theory Bridge_Delivery
  imports Bridge
begin

text \<open>
  The bridge from end to end: what the sending thread of one net receives, what the stream carries, and
  what an endpoint of the other net finds in its queue.
\<close>

text \<open>Whether a message with the addresses of the frame is for an endpoint.\<close>

definition heads_for :: "endpoint \<Rightarrow> frame \<Rightarrow> bool" where
  "heads_for e f \<longleftrightarrow> addressed e (rx_message f 0)"

definition unlimited :: "endpoint \<Rightarrow> bool" where
  "unlimited e \<longleftrightarrow> limitpending e = 0 \<and> limitmemory e = 0"

text \<open>A queued message as a frame: its addresses and its bytes.\<close>

definition content :: "heap \<Rightarrow> message \<Rightarrow> frame" where
  "content h m = frame_of m (guarded (raws h (buffer_of m)))"

lemma accepts_frame: "unlimited e \<Longrightarrow> accepts e (rx_message f r) = heads_for e f"
  by (simp add: unlimited_def accepts_def heads_for_def has_room_def addressed_def rx_message_def)

lemma take_message_same:
  "limitpending (take_message h m e) = limitpending e" "limitmemory (take_message h m e) = limitmemory e"
  "address (take_message h m e) = address e" "net (take_message h m e) = net e"
  "waitmutex (take_message h m e) = waitmutex e"
  by (simp_all add: take_message_def wakeonewaiter_def enqueue_def)

lemma content_delivered:
  assumes "guarded (raws h (buffer_of (rx_message f r))) = dup_of (rx_buffer (fr_cells f))"
    and "fr_cells f \<noteq> []" and "length (fr_cells f) < 2 ^ 63"
  shows "content h (rx_message f r) = f"
proof -
  have "unat (of_nat (length (fr_cells f)) :: usize) = length (fr_cells f)"
    using assms(3) by (intro unat_of_nat_usize) simp
  with assms(1,2) show ?thesis
    by (cases f) (simp add: content_def frame_of_def rx_message_def dup_of_def rx_buffer_def Let_def)
qed

lemma deliver_all:
  assumes "ready (net_of w b) w" and "heap_wf (heap w)"
    and "list_all (\<lambda>f. length (fr_cells f) < 2 ^ 63 \<and> fr_cells f \<noteq> []) fs"
    and "j \<in> set (endpoints (guarded (nets w (net_i (net_of w b)))))" and "unlimited (eps w j)"
  shows "\<exists>w' ms. rx_deliver_all b fs w = (Inr (), w') \<and> heap_grows (heap w) (heap w') \<and>
    queue w' j = queue w j @ ms \<and> map (content (heap w')) ms = filter (heads_for (eps w j)) fs \<and>
    (\<forall>m \<in> set ms. buffer_of m < raw_lim (heap w')) \<and> (\<forall>k. address (eps w' k) = address (eps w k))"
  using assms
proof (induction fs arbitrary: w)
  case Nil
  then show ?case by (intro exI [of _ w] exI [of _ "[]"]) simp
next
  case (Cons f fs)
  let ?is = "set (endpoints (guarded (nets w (net_i (net_of w b)))))"
  let ?m = "rx_message f (Suc (raw_lim (heap w)))"
  have f: "length (fr_cells f) < 2 ^ 63" "fr_cells f \<noteq> []" using Cons.prems(3) by simp_all
  obtain h' r where h: "heap_grows (heap w) h'" "buffer_of ?m < raw_lim h'"
      "guarded (raws h' (buffer_of ?m)) = dup_of (rx_buffer (fr_cells f))"
    and d: "rx_deliver b f w = (Inr r, map_eps ?is (take_message h' ?m) (w\<lparr>heap := h'\<rparr>))"
    using rx_deliver_eq [OF Cons.prems(1,2) f(1)] by blast
  define w1 where "w1 = map_eps ?is (take_message h' ?m) (w\<lparr>heap := h'\<rparr>)"
  have e: "limitpending (eps w1 k) = limitpending (eps w k)" "limitmemory (eps w1 k) = limitmemory (eps w k)"
    "address (eps w1 k) = address (eps w k)" "net (eps w1 k) = net (eps w k)"
    "waitmutex (eps w1 k) = waitmutex (eps w k)" "refcnt (eps w1 k) = refcnt (eps w k)"
    "dropped (eps w1 k) = dropped (eps w k)" for k
    by (simp_all add: w1_def take_message_same)
  have n: "net_of w1 b = net_of w b" "nets w1 = nets w" "heap w1 = h'"
    by (simp_all add: net_of_def e) (simp_all add: w1_def)
  have "heads_for (eps w1 j) = heads_for (eps w j)" "unlimited (eps w1 j)"
    using Cons.prems(5) by (simp_all add: heads_for_def addressed_def unlimited_def e fun_eq_iff)
  moreover have "ready (net_of w1 b) w1" using Cons.prems(1) by (simp add: ready_def n e)
  moreover have "heap_wf (heap w1)" using h(1) Cons.prems(2) by (simp add: heap_grows_def n)
  ultimately obtain w' ms where IH: "rx_deliver_all b fs w1 = (Inr (), w')" "heap_grows h' (heap w')"
    "queue w' j = queue w1 j @ ms" "map (content (heap w')) ms = filter (heads_for (eps w j)) fs"
    "\<forall>m \<in> set ms. buffer_of m < raw_lim (heap w')" "\<forall>k. address (eps w' k) = address (eps w k)"
    using Cons.IH [of w1] Cons.prems(3,4) by (auto simp: n e)
  have q: "queue w1 j = queue w j @ (if heads_for (eps w j) f then [?m] else [])"
    using Cons.prems(4,5)
    by (simp add: queue_def w1_def take_message_def accepts_frame wakeonewaiter_def enqueue_def)
  have c: "content (heap w') ?m = f" and lim: "buffer_of ?m < raw_lim (heap w')"
    using IH(2) h(2,3) f by (auto simp: heap_grows_def intro!: content_delivered)
  show ?case
    by (intro exI [of _ w'] exI [of _ "(if heads_for (eps w j) f then [?m] else []) @ ms"])
      (use d IH q c lim heap_grows_trans [OF h(1) IH(2)] in \<open>auto simp: w1_def\<close>)
qed

lemma rx_loop_all:
  assumes "rx_frames s = (fs, Inr ())" and "rx_deliver_all b fs w = (Inr (), w')"
  shows "rx_loop b s w = (Inr (), w')"
  using assms by (simp add: rx_loop_refines)

lemma sendable_frames:
  assumes "list_all sendable evs"
  shows "list_all (\<lambda>f. length (fr_cells f) < 2 ^ 63) (sent_frames T evs)"
  using assms
  by (induction T evs rule: sent_frames.induct)
    (auto simp: sendable_def frame_of_def min_def split: payload.splits)

text \<open>The bridge's own state can be reached.\<close>

fun usable :: "which \<Rightarrow> bworld \<Rightarrow> bool" where
  "usable (Listener l) st = (\<not> poisoned (listeners st l))"
| "usable (Connector c) st = (\<not> poisoned (connectors st c))"

lemma negotiate:
  assumes "usable which st"
  obtains st1 where "(case which of Listener l \<Rightarrow> negcountinc l | Connector c \<Rightarrow> setconnected c True) st = (Inr (), st1)"
    and "bw st1 = bw st"
  using assms
  by (cases which) (auto simp: negcountinc_def setconnected_def on_listener_def on_connector_def Let_def)

text \<open>
  C23. The bridge from end to end. When the receiving thread reads what the sending thread of the other
  net wrote, its endpoint takes the id of that net, and it puts on its own net the raw messages that the
  sending thread received before a termination message: an endpoint without limits finds at the end of
  its queue exactly those that are addressed to it, in order, with their addresses and bytes.
\<close>

theorem bridge_end_to_end:
  assumes "list_all sendable evs" and "list_all (\<lambda>f. fr_cells f \<noteq> []) (sent_frames T evs)"
    and "usable which st" and "ready (net_of (bw st) b) (bw st)" and "heap_wf (heap (bw st))"
    and "j \<in> set (endpoints (guarded (nets (bw st) (net_i (net_of (bw st) b)))))" and "j \<noteq> b"
    and "unlimited (eps (bw st) j)"
  shows "\<exists>st' ms. thread_rx which b (map the (snd (thread_tx T mysid evs))) st = (Inr (), st') \<and>
    getsid (eps (bw st') b) = mysid \<and> queue (bw st') j = queue (bw st) j @ ms \<and>
    map (content (heap (bw st'))) ms = filter (heads_for (eps (bw st) j)) (sent_frames T evs)"
proof -
  obtain st1 where st1: "(case which of Listener l \<Rightarrow> negcountinc l | Connector c \<Rightarrow> setconnected c True) st = (Inr (), st1)"
    "bw st1 = bw st" using negotiate [OF assms(3)] .
  let ?w = "on_ep b (setsid mysid) (bw st)" and ?s = "map the (snd (tx_loop T evs))"
  have len: "list_all (\<lambda>f. length (fr_cells f) < 2 ^ 63 \<and> fr_cells f \<noteq> []) (sent_frames T evs)"
    using sendable_frames [OF assms(1), of T] assms(2) by (simp add: list_all_iff)
  have n: "net_of ?w b = net_of (bw st) b" "nets ?w = nets (bw st)" "heap ?w = heap (bw st)" "eps ?w j = eps (bw st) j"
    using assms(7) by (simp_all add: net_of_def on_ep_def setsid_def)
  have "ready (net_of ?w b) ?w" using assms(4) unfolding n by (simp add: ready_def n) (simp add: on_ep_def setsid_def)
  from deliver_all [OF this _ len, of j, unfolded n, OF assms(5,6,8)] obtain w' ms where
    w': "rx_deliver_all b (sent_frames T evs) ?w = (Inr (), w')" "queue w' j = queue ?w j @ ms"
      "map (content (heap w')) ms = filter (heads_for (eps (bw st) j)) (sent_frames T evs)"
      "address (eps w' b) = address (eps ?w b)" by blast
  have "rx_frames ?s = (sent_frames T evs, Inr ())" using tx_rx_frames [OF assms(1), of T] by blast
  then have "rx_loop b ?s ?w = (Inr (), w')" using w'(1) by (rule rx_loop_all)
  moreover have "map the (snd (thread_tx T mysid evs)) = be_bytes 8 mysid @ ?s"
    by (simp add: thread_tx_def split_beta)
  ultimately have "thread_rx which b (map the (snd (thread_tx T mysid evs))) st = (Inr (), st1\<lparr>bw := w'\<rparr>)"
    using st1 by (simp add: thread_rx_def on_world_def)
  moreover have "getsid (eps w' b) = mysid" using w'(4) by (simp add: getsid_def on_ep_def setsid_def)
  moreover have "queue ?w j = queue (bw st) j" by (simp only: queue_def n)
  ultimately show ?thesis using w'(2,3) by (intro exI [of _ "st1\<lparr>bw := w'\<rparr>"] exI [of _ ms]) simp
qed

theorem bridge_end_to_end_witness:
  "\<exists>st' ms. thread_rx (Listener 0) 0 (map the (snd (thread_tx demo_type 7 [(Ok (new_fromraw 0), demo_filled)])))
       demo_bridge = (Inr (), st') \<and>
     getsid (eps (bw st') 0) = 7 \<and> queue (bw st') 1 = ms \<and> map (content (heap (bw st'))) ms =
       [\<lparr>fr_srcsid = 0, fr_srceid = 0, fr_dstsid = 0, fr_dsteid = 0, fr_cells = [Some 72, Some 105]\<rparr>]"
proof -
  let ?evs = "[(Ok (new_fromraw 0), demo_filled)]"
  let ?f = "\<lparr>fr_srcsid = 0, fr_srceid = 0, fr_dstsid = 0, fr_dsteid = 0, fr_cells = [Some (72 :: u8), Some 105]\<rparr>"
  have "raws demo_filled 0 = mutex_new \<lparr>rlen = 2, rcap = 2, rbuf = [Some 72, Some 105]\<rparr>"
    using fromstr_eq [of "[72, 105]" heap_empty] by (simp add: demo_filled_def heap_empty_def)
  then have s: "list_all sendable ?evs" and f: "sent_frames demo_type ?evs = [?f]"
    by (simp_all add: sendable_def new_fromraw_def raw_wf_def frame_of_def is_type_def is_sync_def is_clone_def)
  have w: "bw demo_bridge = demo_world" and v: "usable (Listener 0) demo_bridge"
    by (simp_all add: demo_bridge_def listener_new_def)
  have r: "ready (net_of demo_world 0) demo_world" using demo_ready by (simp add: demo_net_of)
  have j: "1 \<in> set (endpoints (guarded (nets demo_world (net_i (net_of demo_world 0)))))"
    by (simp add: demo_net_of) (simp add: demo_net_def)
  have u: "unlimited (eps demo_world 1)" "heads_for (eps demo_world 1) ?f" "queue demo_world 1 = []"
    by (simp_all add: unlimited_def heads_for_def addressed_def rx_message_def endpoint_new_def queue_def sq_new_def)
  have c: "list_all (\<lambda>f. fr_cells f \<noteq> []) (sent_frames demo_type ?evs)" unfolding f by simp
  have h: "heap_wf (heap demo_world)" by (simp add: demo_heap_wf)
  have g: "filter (heads_for (eps demo_world 1)) [?f] = [?f]" using u(2) by (simp only: filter.simps if_True)
  show ?thesis
    using bridge_end_to_end [OF s c v, unfolded w, OF r h j _ u(1), of 7] unfolding f g u(3) append_Nil by simp
qed

end
