(* ===== verification/Pointer_Cache.thy ===== *)
theory Pointer_Cache
  imports Water_Prelude "HOL-Library.Multiset"
begin

text \<open>
  \<open>PointerCache\<close> of \<open>src/queue.rs\<close>: a ring of \<open>2 ^ bsize\<close> pointers in which the linked queue keeps
  items that can be used again. A pointer is a number, and the null pointer is 0. \<open>push\<close> frees the
  pointer that it overwrites; since the cache does not own the memory model, that pointer is a
  result of the operation.

  The first section is about indices into a ring, which the ring queue uses as well. The last part
  is the interface the linked queue relies on (locale \<open>recycler\<close>).
\<close>

section \<open>Indices into a ring\<close>

unbundle bit_operations_syntax

definition ring_mask :: "usize \<Rightarrow> usize" where
  "ring_mask bsize = NOT (push_bit (unat bsize) (- 1))"

definition slot :: "usize \<Rightarrow> usize \<Rightarrow> nat" where
  "slot m p = unat (p AND m)"

lemma ring_mask_eq: "ring_mask bsize = mask (unat bsize)"
  by (simp add: ring_mask_def push_bit_minus_one_eq_not_mask)

lemma unat_ring_size:
  assumes "unat bsize < 64"
  shows "unat (ring_mask bsize + 1) = 2 ^ unat bsize"
proof -
  have "ring_mask bsize + 1 = of_nat (2 ^ unat bsize)"
    by (simp add: ring_mask_eq mask_eq_exp_minus_1)
  moreover have "(2 :: nat) ^ unat bsize < 2 ^ 64" using assms by (rule power_strict_increasing) simp
  ultimately show ?thesis by (simp only: unat_of_nat_usize)
qed

lemma int_slot:
  assumes "b \<le> 64"
  shows "int (slot (mask b) (p + of_int i)) = (uint p + i) mod 2 ^ b"
proof -
  have "int (slot (mask b) (p + of_int i)) = take_bit b (uint (p + of_int i))"
    by (simp add: slot_def take_bit_eq_mask [symmetric] unsigned_take_bit_eq of_nat_take_bit)
  also have "uint (p + of_int i) = take_bit 64 (uint p + i)"
    by (simp add: uint_word_ariths(1) unsigned_of_int take_bit_eq_mod mod_simps)
  finally show ?thesis using assms by (simp add: take_bit_take_bit min_absorb1) (simp add: take_bit_eq_mod)
qed

lemma slot_less: "slot (mask b) p < 2 ^ b" if "b \<le> 64"
  using int_slot [OF that, of p 0] by (simp add: zless_nat_conj flip: of_nat_less_iff [where 'a = int])

lemma int_less_exp: "int k < 2 ^ b \<longleftrightarrow> k < 2 ^ b"
  by (metis of_nat_less_iff of_nat_numeral of_nat_power)

text \<open>Distances below the size of the ring are told apart.\<close>

lemma slot_eq_iff:
  assumes "b \<le> 64" and "\<bar>i - j\<bar> < 2 ^ b"
  shows "slot (mask b) (p + of_int i) = slot (mask b) (p + of_int j) \<longleftrightarrow> i = j"
proof -
  have "(uint p + i) mod 2 ^ b = (uint p + j) mod 2 ^ b \<longleftrightarrow> (i - j) mod 2 ^ b = 0"
    by (metis add_diff_cancel_left mod_0_imp_dvd mod_eq_dvd_iff dvd_imp_mod_0)
  also have "\<dots> \<longleftrightarrow> i = j"
  proof
    assume "(i - j) mod 2 ^ b = 0"
    then have "2 ^ b dvd \<bar>i - j\<bar>" by (simp add: dvd_eq_mod_eq_0 [symmetric])
    with assms(2) show "i = j" using zdvd_not_zless [of "\<bar>i - j\<bar>" "2 ^ b"] by fastforce
  qed simp
  finally show ?thesis by (metis int_slot [OF assms(1)] of_nat_eq_iff)
qed

lemma slot_round:
  assumes "b \<le> 64"
  shows "slot (mask b) (p + of_int (i + 2 ^ b)) = slot (mask b) (p + of_int i)"
proof -
  have "int (slot (mask b) (p + of_int (i + 2 ^ b))) = int (slot (mask b) (p + of_int i))"
    unfolding int_slot [OF assms] by (simp only: add.assoc [symmetric] mod_add_self2)
  then show ?thesis by (simp only: of_nat_eq_iff)
qed

section \<open>The cache\<close>

definition option_list :: "'a option \<Rightarrow> 'a list" where
  "option_list r = (case r of None \<Rightarrow> [] | Some x \<Rightarrow> [x])"

lemma option_list_simps [simp]: "option_list None = []" "option_list (Some x) = [x]"
  by (simp_all add: option_list_def)


record pointer_cache =
  pc_block :: "nat list"
  pc_mask :: usize
  pc_pos :: usize

text \<open>\<open>new\<close> stores a null pointer in each slot with \<open>init\<close>.\<close>

definition pc_init :: "nat \<Rightarrow> nat list \<Rightarrow> nat list" where
  "pc_init pos block = block[pos := 0]"

definition pc_new :: "nat list \<Rightarrow> usize \<Rightarrow> pointer_cache" where
  "pc_new garbage bsize =
     (let count = ring_mask bsize + 1;
          block = take (unat count) (garbage @ replicate (unat count) 0)
      in \<lparr>pc_block = fold pc_init [0..<unat count] block, pc_mask = ring_mask bsize, pc_pos = 0\<rparr>)"

definition pc_pop :: "pointer_cache \<Rightarrow> nat option \<times> pointer_cache" where
  "pc_pop c =
     (let pos = slot (pc_mask c) (pc_pos c - 1);
          old = pc_block c ! pos
      in (if old \<noteq> 0 then Some old else None,
          c\<lparr>pc_block := (pc_block c)[pos := 0], pc_pos := pc_pos c - 1\<rparr>))"

text \<open>The result of \<open>push\<close> is the pointer that it zeroes and frees, if any.\<close>

definition pc_push :: "nat \<Rightarrow> pointer_cache \<Rightarrow> nat option \<times> pointer_cache" where
  "pc_push new c =
     (let pos = slot (pc_mask c) (pc_pos c);
          old = pc_block c ! pos
      in (if old \<noteq> 0 then Some old else None,
          c\<lparr>pc_block := (pc_block c)[pos := new], pc_pos := pc_pos c + 1\<rparr>))"

text \<open>\<open>drop\<close> pushes null once for each slot; the result is what that frees.\<close>

fun pc_push_nulls :: "nat \<Rightarrow> pointer_cache \<Rightarrow> nat list \<times> pointer_cache" where
  "pc_push_nulls 0 c = ([], c)"
| "pc_push_nulls (Suc n) c =
     (case pc_push 0 c of
        (f, c1) \<Rightarrow> (case pc_push_nulls n c1 of (fs, c2) \<Rightarrow> (option_list f @ fs, c2)))"

definition pc_drop :: "pointer_cache \<Rightarrow> nat list" where
  "pc_drop c = fst (pc_push_nulls (unat (pc_mask c + 1)) c)"

section \<open>The cache is a bounded stack\<close>

text \<open>The slots from the one pushed last, going back; the next push takes the last of these.\<close>

definition pc_view :: "pointer_cache \<Rightarrow> nat list" where
  "pc_view c =
     map (\<lambda>k. pc_block c ! slot (pc_mask c) (pc_pos c + of_int (- 1 - int k))) [0..<length (pc_block c)]"

definition pc_ok :: "nat \<Rightarrow> pointer_cache \<Rightarrow> bool" where
  "pc_ok b c \<longleftrightarrow> b < 64 \<and> pc_mask c = mask b \<and> length (pc_block c) = 2 ^ b"

lemma pc_okE:
  assumes "pc_ok b c"
  obtains "b \<le> 64" "pc_mask c = mask b" "length (pc_block c) = 2 ^ b"
  using assms by (simp add: pc_ok_def)

lemma length_pc_view [simp]: "length (pc_view c) = length (pc_block c)"
  by (simp add: pc_view_def)

lemma nth_pc_view:
  "k < length (pc_block c) \<Longrightarrow>
     pc_view c ! k = pc_block c ! slot (pc_mask c) (pc_pos c + of_int (- 1 - int k))"
  by (simp add: pc_view_def)

lemma pc_view_ne: "pc_ok b c \<Longrightarrow> pc_view c \<noteq> []"
  using length_pc_view [of c] by (auto simp: pc_ok_def simp del: length_pc_view)

lemma last_pc_view:
  assumes "pc_ok b c"
  shows "last (pc_view c) = pc_block c ! slot (pc_mask c) (pc_pos c)"
proof -
  from assms have b: "b \<le> 64" "pc_mask c = mask b" "length (pc_block c) = 2 ^ b" by (auto elim: pc_okE)
  have "last (pc_view c) = pc_view c ! (2 ^ b - 1)"
    using pc_view_ne [OF assms] b(3) by (simp add: last_conv_nth)
  also have "\<dots> = pc_block c ! slot (mask b) (pc_pos c + of_int (- 1 - int (2 ^ b - 1)))"
    using b by (simp add: nth_pc_view del: of_int_diff of_nat_diff)
  also have "- 1 - int (2 ^ b - 1) = - (2 ^ b)" by (simp add: of_nat_diff)
  also have "slot (mask b) (pc_pos c + of_int (- (2 ^ b))) = slot (mask b) (pc_pos c + of_int 0)"
    using slot_round [OF b(1), of "pc_pos c" "- (2 ^ b)"] by (simp only: add.left_inverse)
  finally show ?thesis by (simp add: b(2))
qed

lemma pc_push_view:
  assumes "pc_ok b c" and "pc_push x c = (f, c')"
  shows "pc_ok b c' \<and> pc_view c' = x # butlast (pc_view c) \<and>
    f = (if last (pc_view c) \<noteq> 0 then Some (last (pc_view c)) else None)"
proof -
  from assms(1) have b: "b \<le> 64" "pc_mask c = mask b" "length (pc_block c) = 2 ^ b" by (auto elim: pc_okE)
  have c': "pc_mask c' = mask b" "pc_pos c' = pc_pos c + 1"
      "pc_block c' = (pc_block c)[slot (mask b) (pc_pos c) := x]"
    using assms(2) b by (auto simp: pc_push_def Let_def)
  have "pc_view c' ! k = (x # butlast (pc_view c)) ! k" if k: "k < 2 ^ b" for k
  proof (cases k)
    case 0
    then show ?thesis
      using slot_less [OF b(1), of "pc_pos c"] b by (simp add: nth_pc_view c')
  next
    case (Suc j)
    have "int (Suc j) < 2 ^ b" using k Suc by (simp only: int_less_exp)
    then have "slot (mask b) (pc_pos c + of_int (- 1 - int j)) \<noteq> slot (mask b) (pc_pos c + of_int 0)"
      by (subst slot_eq_iff [OF b(1)]) simp_all
    then show ?thesis
      using k Suc b by (simp add: nth_pc_view c' nth_butlast algebra_simps)
  qed
  then have "pc_view c' = x # butlast (pc_view c)"
    using b c'(3) by (intro nth_equalityI) simp_all
  then show ?thesis
    using assms b c' last_pc_view [OF assms(1)] by (auto simp: pc_ok_def pc_push_def Let_def)
qed

lemma pc_pop_view:
  assumes "pc_ok b c" and "pc_pop c = (r, c')"
  shows "pc_ok b c' \<and> pc_view c' = tl (pc_view c) @ [0] \<and>
    r = (if hd (pc_view c) \<noteq> 0 then Some (hd (pc_view c)) else None)"
proof -
  from assms(1) have b: "b \<le> 64" "pc_mask c = mask b" "length (pc_block c) = 2 ^ b" by (auto elim: pc_okE)
  have c': "pc_mask c' = mask b" "pc_pos c' = pc_pos c - 1"
      "pc_block c' = (pc_block c)[slot (mask b) (pc_pos c - 1) := 0]"
    using assms(2) b by (auto simp: pc_pop_def Let_def)
  have hd: "hd (pc_view c) = pc_block c ! slot (mask b) (pc_pos c - 1)"
    using pc_view_ne [OF assms(1)] b by (simp add: hd_conv_nth nth_pc_view)
  have "pc_view c' ! k = (tl (pc_view c) @ [0]) ! k" if k: "k < 2 ^ b" for k
  proof (cases "Suc k < 2 ^ b")
    case True
    have "int (Suc k) < 2 ^ b" using True by (simp only: int_less_exp)
    then have "slot (mask b) (pc_pos c + of_int (- 1 - int (Suc k))) \<noteq> slot (mask b) (pc_pos c + of_int (- 1))"
      by (subst slot_eq_iff [OF b(1)]) simp_all
    moreover have "k < 2 ^ b - Suc 0" using True by linarith
    ultimately show ?thesis
      using k b by (simp add: nth_pc_view c' nth_append nth_tl algebra_simps)
  next
    case False
    then have sk: "Suc k = 2 ^ b" using k by simp
    have i: "- 1 - int k = - (2 ^ b)" using sk by (simp flip: of_nat_Suc add: algebra_simps)
    have "slot (mask b) (pc_pos c' + of_int (- 1 - int k)) = slot (mask b) (pc_pos c' + of_int 0)"
      unfolding i using slot_round [OF b(1), of "pc_pos c'" "- (2 ^ b)"] by (simp only: add.left_inverse)
    moreover have "\<not> k < 2 ^ b - Suc 0" using sk by linarith
    ultimately show ?thesis
      using k b slot_less [OF b(1), of "pc_pos c - 1"]
      by (simp add: nth_pc_view c' nth_append)
  qed
  then have "pc_view c' = tl (pc_view c) @ [0]"
    using b c'(3) by (intro nth_equalityI) simp_all
  then show ?thesis
    using assms b c' hd by (auto simp: pc_ok_def pc_pop_def Let_def)
qed

text \<open>The cache holds the pointers \<open>xs\<close>, the one pushed last first.\<close>

definition pc_holds :: "nat \<Rightarrow> pointer_cache \<Rightarrow> nat list \<Rightarrow> bool" where
  "pc_holds b c xs \<longleftrightarrow> pc_ok b c \<and> 0 \<notin> set xs \<and> (\<exists>n. pc_view c = xs @ replicate n 0)"

lemma pc_holds_length: "pc_holds b c xs \<Longrightarrow> length xs \<le> 2 ^ b"
  by (auto simp: pc_holds_def pc_ok_def dest!: arg_cong [of _ _ length])

lemma fold_pc_init:
  "n \<le> length bl \<Longrightarrow> fold pc_init [0..<n] bl = replicate n 0 @ drop n bl"
proof (induction n)
  case (Suc n)
  then have "drop n bl = bl ! n # drop (Suc n) bl" by (simp add: Cons_nth_drop_Suc)
  with Suc show ?case
    by (simp add: pc_init_def list_update_append replicate_app_Cons_same)
qed simp

lemma pc_new_holds:
  assumes "unat bsize < 64"
  shows "pc_holds (unat bsize) (pc_new g bsize) []"
proof -
  let ?b = "unat bsize"
  have "unat (ring_mask bsize + 1) = 2 ^ ?b" by (rule unat_ring_size [OF assms])
  then have "pc_block (pc_new g bsize) = replicate (2 ^ ?b) 0"
    by (simp add: pc_new_def Let_def fold_pc_init)
  moreover have "pc_mask (pc_new g bsize) = mask ?b"
    by (simp add: pc_new_def Let_def ring_mask_eq)
  moreover have "pc_view c = replicate (2 ^ ?b) 0"
    if "pc_block c = replicate (2 ^ ?b) 0" "pc_mask c = mask ?b" for c
    using that assms by (intro nth_equalityI) (simp_all add: nth_pc_view slot_less)
  ultimately show ?thesis using assms by (auto simp: pc_holds_def pc_ok_def)
qed

lemma pc_push_holds:
  assumes "pc_holds b c xs" and "x \<noteq> 0" and "pc_push x c = (f, c')"
  shows "pc_holds b c' (take (2 ^ b) (x # xs)) \<and> f = (if length xs = 2 ^ b then Some (last xs) else None)"
proof -
  from assms(1) obtain n where ok: "pc_ok b c" and v: "pc_view c = xs @ replicate n 0" and nz: "0 \<notin> set xs"
    by (auto simp: pc_holds_def)
  note p = pc_push_view [OF ok assms(3)]
  have len: "length xs + n = 2 ^ b" using ok v length_pc_view [of c] by (simp add: pc_ok_def)
  show ?thesis
  proof (cases n)
    case 0
    then have "xs \<noteq> []" "length xs = 2 ^ b" using len by auto
    moreover from this nz have "last xs \<noteq> 0" using last_in_set by metis
    ultimately show ?thesis using p v 0 nz assms(2)
      by (auto simp: pc_holds_def take_Cons' butlast_conv_take dest: in_set_takeD)
  next
    case (Suc m)
    then have "pc_view c' = (x # xs) @ replicate m 0" "length xs < 2 ^ b"
      using p v len by (simp_all add: butlast_append flip: replicate_append_same)
    then show ?thesis using p v Suc nz assms(2)
      by (auto simp: pc_holds_def)
  qed
qed

lemma pc_pop_holds:
  assumes "pc_holds b c xs" and "pc_pop c = (r, c')"
  shows "pc_holds b c' (tl xs) \<and> r = (case xs of [] \<Rightarrow> None | x # _ \<Rightarrow> Some x)"
proof -
  from assms(1) obtain n where ok: "pc_ok b c" and v: "pc_view c = xs @ replicate n 0" and nz: "0 \<notin> set xs"
    by (auto simp: pc_holds_def)
  note p = pc_pop_view [OF ok assms(2)]
  show ?thesis
  proof (cases xs)
    case Nil
    moreover from this v pc_view_ne [OF ok] obtain m where "n = Suc m" by (cases n) auto
    ultimately show ?thesis using p v
      by (auto simp: pc_holds_def replicate_append_same intro: exI [of _ "Suc m"])
  next
    case (Cons x ys)
    then show ?thesis using p v nz
      by (auto simp: pc_holds_def replicate_append_same intro: exI [of _ "Suc n"])
  qed
qed

lemma pc_push_nulls_frees:
  assumes "pc_ok b c" and "pc_view c = ys @ zs"
  shows "fst (pc_push_nulls (length zs) c) = filter (\<lambda>x. x \<noteq> 0) (rev zs)"
  using assms
proof (induction zs arbitrary: c ys rule: rev_induct)
  case Nil
  then show ?case by simp
next
  case (snoc z zs)
  obtain f c1 where p: "pc_push 0 c = (f, c1)" by (meson surj_pair)
  from pc_push_view [OF snoc.prems(1) p] snoc.prems(2)
  have "pc_ok b c1" "pc_view c1 = (0 # ys) @ zs" "f = (if z \<noteq> 0 then Some z else None)"
    by (simp_all add: butlast_append del: neq0_conv)
  moreover obtain fs c2 where "pc_push_nulls (length zs) c1 = (fs, c2)" by (meson surj_pair)
  ultimately show ?case using snoc.IH [of c1 "0 # ys"] p by simp
qed

lemma pc_drop_frees:
  assumes "pc_holds b c xs"
  shows "pc_drop c = rev xs"
proof -
  from assms obtain n where ok: "pc_ok b c" and v: "pc_view c = xs @ replicate n 0" and nz: "0 \<notin> set xs"
    by (auto simp: pc_holds_def)
  have m: "pc_mask c = mask b" "b < 64" "length (pc_block c) = 2 ^ b" using ok by (simp_all add: pc_ok_def)
  have "pc_mask c + 1 = of_nat (2 ^ b)" by (simp add: m(1) mask_eq_exp_minus_1)
  moreover have "(2 :: nat) ^ b < 2 ^ 64" using m(2) by (rule power_strict_increasing) simp
  ultimately have "unat (pc_mask c + 1) = length (xs @ replicate n 0)"
    using length_pc_view [of c] m(3) by (simp only: unat_of_nat_usize v)
  then have "pc_drop c = filter (\<lambda>x. x \<noteq> 0) (rev (xs @ replicate n 0))"
    using pc_push_nulls_frees [OF ok, of "[]" "xs @ replicate n 0"] v by (simp add: pc_drop_def)
  also have "\<dots> = rev xs"
    using nz by (simp add: filter_replicate filter_id_conv del: neq0_conv) (metis in_set_conv_nth)
  finally show ?thesis .
qed

section \<open>Runs\<close>

datatype pc_cmd = PcPush nat | PcPop

text \<open>The results of the pops and what the pushes freed.\<close>

fun pc_run :: "pc_cmd list \<Rightarrow> pointer_cache \<Rightarrow> (nat option list \<times> nat list) \<times> pointer_cache" where
  "pc_run [] c = (([], []), c)"
| "pc_run (PcPush x # cs) c =
     (case pc_push x c of
        (f, c1) \<Rightarrow> (case pc_run cs c1 of ((rs, fs), c2) \<Rightarrow> ((rs, option_list f @ fs), c2)))"
| "pc_run (PcPop # cs) c =
     (case pc_pop c of
        (r, c1) \<Rightarrow> (case pc_run cs c1 of ((rs, fs), c2) \<Rightarrow> ((r # rs, fs), c2)))"

text \<open>A stack of at most \<open>n\<close> pointers, whose bottom falls out when it is full.\<close>

fun stack_run :: "nat \<Rightarrow> pc_cmd list \<Rightarrow> nat list \<Rightarrow> (nat option list \<times> nat list) \<times> nat list" where
  "stack_run n [] xs = (([], []), xs)"
| "stack_run n (PcPush x # cs) xs =
     (case stack_run n cs (take n (x # xs)) of
        ((rs, fs), ys) \<Rightarrow> ((rs, (if length xs = n then [last xs] else []) @ fs), ys))"
| "stack_run n (PcPop # cs) xs =
     (case stack_run n cs (tl xs) of
        ((rs, fs), ys) \<Rightarrow> (((case xs of [] \<Rightarrow> None | x # _ \<Rightarrow> Some x) # rs, fs), ys))"

fun pushes :: "pc_cmd list \<Rightarrow> nat list" where
  "pushes [] = []"
| "pushes (PcPush x # cs) = x # pushes cs"
| "pushes (PcPop # cs) = pushes cs"

lemma pc_run_refines:
  assumes "pc_holds b c xs" and "0 \<notin> set (pushes cs)" and "pc_run cs c = (os, c')"
  shows "\<exists>ys. stack_run (2 ^ b) cs xs = (os, ys) \<and> pc_holds b c' ys"
  using assms
proof (induction cs arbitrary: c xs os)
  case Nil
  then show ?case by simp
next
  case (Cons cmd cs)
  obtain rs fs c2 where os: "os = (rs, fs)" by (meson surj_pair)
  show ?case
  proof (cases cmd)
    case (PcPush x)
    obtain f c1 where p: "pc_push x c = (f, c1)" by (meson surj_pair)
    from Cons.prems PcPush have "x \<noteq> 0" "0 \<notin> set (pushes cs)" by auto
    from pc_push_holds [OF Cons.prems(1) this(1) p] have h: "pc_holds b c1 (take (2 ^ b) (x # xs))"
      and f: "f = (if length xs = 2 ^ b then Some (last xs) else None)" by simp_all
    obtain rs1 fs1 c2 where t: "pc_run cs c1 = ((rs1, fs1), c2)" by (metis surj_pair)
    have "c2 = c'" using Cons.prems(3) PcPush p t by simp
    from Cons.IH [OF h \<open>0 \<notin> set (pushes cs)\<close> t [unfolded this]] obtain ys where
      "stack_run (2 ^ b) cs (take (2 ^ b) (x # xs)) = ((rs1, fs1), ys)" "pc_holds b c' ys" by blast
    with Cons.prems(3) PcPush p t f show ?thesis by auto
  next
    case PcPop
    obtain r c1 where p: "pc_pop c = (r, c1)" by (meson surj_pair)
    from pc_pop_holds [OF Cons.prems(1) p] have h: "pc_holds b c1 (tl xs)"
      and r: "r = (case xs of [] \<Rightarrow> None | x # _ \<Rightarrow> Some x)" by simp_all
    obtain rs1 fs1 c2 where t: "pc_run cs c1 = ((rs1, fs1), c2)" by (metis surj_pair)
    from Cons.prems(2) PcPop have "0 \<notin> set (pushes cs)" by simp
    moreover have "c2 = c'" using Cons.prems(3) PcPop p t by simp
    ultimately obtain ys where
      "stack_run (2 ^ b) cs (tl xs) = ((rs1, fs1), ys)" "pc_holds b c' ys" using Cons.IH [OF h _ ] t by blast
    with Cons.prems(3) PcPop p t r show ?thesis by auto
  qed
qed

text \<open>No pointer is lost or doubled by the stack.\<close>

lemma stack_run_conserves:
  assumes "stack_run n cs xs = ((rs, fs), ys)" and "length xs \<le> n" and "n \<noteq> 0"
  shows "mset (pushes cs) + mset xs = mset (concat (map option_list rs)) + mset fs + mset ys"
  using assms
proof (induction cs arbitrary: xs rs fs ys)
  case Nil
  then show ?case by simp
next
  case (Cons cmd cs)
  show ?case
  proof (cases cmd)
    case (PcPush x)
    obtain rs1 fs1 ys1 where t: "stack_run n cs (take n (x # xs)) = ((rs1, fs1), ys1)" by (metis surj_pair)
    have IH: "mset (pushes cs) + mset (take n (x # xs)) = mset (concat (map option_list rs1)) + mset fs1 + mset ys1"
      using Cons.IH [OF t] Cons.prems(3) by simp
    show ?thesis
    proof (cases "length xs = n")
      case True
      then have "xs \<noteq> []" using Cons.prems(3) by auto
      then have "mset xs = mset (take (n - 1) xs) + {#last xs#}"
        using True by (metis append_butlast_last_id butlast_conv_take mset_append mset_single_iff_right)
      with IH t Cons.prems True PcPush show ?thesis by (cases n) auto
    next
      case False
      with IH t Cons.prems PcPush show ?thesis by auto
    qed
  next
    case PcPop
    obtain rs1 fs1 ys1 where t: "stack_run n cs (tl xs) = ((rs1, fs1), ys1)" by (metis surj_pair)
    have "mset (pushes cs) + mset (tl xs) = mset (concat (map option_list rs1)) + mset fs1 + mset ys1"
      using Cons.IH [OF t] Cons.prems by simp
    with t Cons.prems PcPop show ?thesis by (cases xs) auto
  qed
qed

section \<open>What the linked queue relies on\<close>

text \<open>
  A recycler keeps pointers: none is invented, and one that it does not keep any more has been
  handed out or freed. How many it keeps and in which order it hands them out is its own affair.
\<close>

locale recycler =
  fixes push :: "nat \<Rightarrow> 'c \<Rightarrow> nat option \<times> 'c"
    and pop :: "'c \<Rightarrow> nat option \<times> 'c"
    and kept :: "'c \<Rightarrow> nat list \<Rightarrow> bool"
  assumes kept_not_null: "kept c xs \<Longrightarrow> 0 \<notin> set xs"
    and push_kept: "kept c xs \<Longrightarrow> x \<noteq> 0 \<Longrightarrow> push x c = (f, c') \<Longrightarrow>
      \<exists>ys. kept c' ys \<and> mset (x # xs) = mset (option_list f) + mset ys"
    and pop_kept: "kept c xs \<Longrightarrow> pop c = (r, c') \<Longrightarrow>
      \<exists>ys. kept c' ys \<and> mset xs = mset (option_list r) + mset ys"
begin

lemma pop_cases:
  assumes "kept c xs" and "distinct xs" and "pop c = (r, c')"
  obtains (empty) ys where "r = None" "kept c' ys" "distinct ys" "set ys = set xs"
  | (item) p ys where "r = Some p" "p \<in> set xs" "p \<noteq> 0" "kept c' ys" "distinct ys" "set ys = set xs - {p}"
proof -
  from pop_kept [OF assms(1,3)] obtain ys where k: "kept c' ys" and m: "mset xs = mset (option_list r) + mset ys"
    by blast
  show ?thesis
  proof (cases r)
    case None
    with m have "mset xs = mset ys" by simp
    then have "set ys = set xs" "distinct ys" using assms(2) mset_eq_setD mset_eq_imp_distinct_iff by metis+
    with empty None k show ?thesis by blast
  next
    case (Some p)
    with m have "mset xs = mset (p # ys)" by simp
    then have s: "set xs = insert p (set ys)" and "distinct (p # ys)"
      using assms(2) mset_eq_setD [of xs "p # ys"] mset_eq_imp_distinct_iff [of xs "p # ys"] by simp_all
    with item [OF Some] k kept_not_null [OF assms(1)] show ?thesis by auto
  qed
qed

lemma push_cases:
  assumes "kept c xs" and "distinct (x # xs)" and "x \<noteq> 0" and "push x c = (f, c')"
  obtains (kept) ys where "f = None" "kept c' ys" "distinct ys" "set ys = insert x (set xs)"
  | (freed) p ys where "f = Some p" "p \<in> insert x (set xs)" "kept c' ys" "distinct ys"
      "set ys = insert x (set xs) - {p}"
proof -
  from push_kept [OF assms(1,3,4)] obtain ys where k: "kept c' ys"
    and m: "mset (x # xs) = mset (option_list f) + mset ys" by blast
  show ?thesis
  proof (cases f)
    case None
    with m have "mset (x # xs) = mset ys" by simp
    then have "set ys = insert x (set xs)" "distinct ys"
      using assms(2) mset_eq_setD [of "x # xs" ys] mset_eq_imp_distinct_iff [of "x # xs" ys] by simp_all
    with kept None k show ?thesis by blast
  next
    case (Some p)
    with m have "mset (x # xs) = mset (p # ys)" by simp
    then have s: "insert x (set xs) = insert p (set ys)" and "distinct (p # ys)"
      using assms(2) mset_eq_setD [of "x # xs" "p # ys"] mset_eq_imp_distinct_iff [of "x # xs" "p # ys"] by simp_all
    with freed [OF Some] k show ?thesis by auto
  qed
qed

end

lemma stack_push_mset:
  assumes "length xs \<le> n" and "n \<noteq> 0"
  shows "mset (x # xs) = mset (option_list (if length xs = n then Some (last xs) else None)) + mset (take n (x # xs))"
proof (cases "length xs = n")
  case True
  then have "xs = take (n - 1) xs @ [last xs]"
    using assms(2) by (metis append_butlast_last_id butlast_conv_take list.size(3))
  then have "mset xs = mset (take (n - 1) xs) + {#last xs#}" by (metis mset_append mset.simps add_mset_add_single mset_single_iff)
  then show ?thesis using True assms(2) by (cases n) auto
qed (use assms in auto)

interpretation pc: recycler pc_push pc_pop "pc_holds b" for b
proof unfold_locales
  fix c xs x f c'
  assume h: "pc_holds b c xs" and x: "x \<noteq> 0" and p: "pc_push x c = (f, c')"
  show "\<exists>ys. pc_holds b c' ys \<and> mset (x # xs) = mset (option_list f) + mset ys"
    using pc_push_holds [OF h x p] stack_push_mset [OF pc_holds_length [OF h], of x]
    by (intro exI [of _ "take (2 ^ b) (x # xs)"] conjI) simp_all
next
  fix c xs r c'
  assume h: "pc_holds b c xs" and p: "pc_pop c = (r, c')"
  show "\<exists>ys. pc_holds b c' ys \<and> mset xs = mset (option_list r) + mset ys"
    using pc_pop_holds [OF h p] by (intro exI [of _ "tl xs"]) (cases xs; simp)
qed (simp add: pc_holds_def)

section \<open>Properties\<close>

text \<open>
  C38. The pointer cache is a stack of at most \<open>2 ^ bsize\<close> pointers, though it is written as a ring
  without a length: a pop returns what was pushed last and is still there, a pop that finds
  nothing does no harm, and a push into a full cache frees the pointer at the bottom.
\<close>

theorem cache_is_bounded_stack:
  assumes "unat bsize < 64" and "0 \<notin> set (pushes cs)"
  shows "fst (pc_run cs (pc_new g bsize)) = fst (stack_run (2 ^ unat bsize) cs [])"
proof -
  obtain os c' where r: "pc_run cs (pc_new g bsize) = (os, c')" by (meson surj_pair)
  from pc_run_refines [OF pc_new_holds [OF assms(1)] assms(2) r] r show ?thesis by auto
qed

theorem cache_is_bounded_stack_witness:
  "fst (pc_run [PcPop, PcPush 7, PcPush 8, PcPush 9, PcPop, PcPop, PcPop] (pc_new [5] 1)) =
     ([None, Some 9, Some 8, None], [7])"
  using cache_is_bounded_stack [of 1 "[PcPop, PcPush 7, PcPush 8, PcPush 9, PcPop, PcPop, PcPop]" "[5]"]
  by simp

text \<open>
  Every pointer pushed into the cache is handed out by a pop, freed by a push or freed when the
  cache is dropped, as often as it was pushed: nothing leaks and nothing is freed twice.
\<close>

lemma cache_frees_once:
  assumes "unat bsize < 64" and "0 \<notin> set (pushes cs)" and "pc_run cs (pc_new g bsize) = ((rs, fs), c)"
  shows "mset (pushes cs) = mset (concat (map option_list rs)) + mset fs + mset (pc_drop c)"
proof -
  from pc_run_refines [OF pc_new_holds [OF assms(1)] assms(2,3)] obtain ys where
    "stack_run (2 ^ unat bsize) cs [] = ((rs, fs), ys)" "pc_holds (unat bsize) c ys" by blast
  then show ?thesis using stack_run_conserves pc_drop_frees by fastforce
qed

lemma cache_frees_once_example:
  "\<exists>rs fs c. pc_run [PcPush 7, PcPush 8, PcPush 9, PcPop, PcPush 6] (pc_new [5] 1) = ((rs, fs), c) \<and>
     {#7, 8, 9, 6#} = mset (concat (map option_list rs)) + mset fs + mset (pc_drop c)"
proof -
  let ?cs = "[PcPush 7, PcPush 8, PcPush 9, PcPop, PcPush 6]"
  obtain rs fs c where r: "pc_run ?cs (pc_new [5] 1) = ((rs, fs), c)" by (metis surj_pair)
  with cache_frees_once [OF _ _ r] show ?thesis by (simp add: add_mset_commute)
qed

end
