(* ===== verification/Link_Queue.thy ===== *)
theory Link_Queue
  imports Safe_Queue Pointer_Cache
begin

text \<open>
  \<open>InfiniteLinkQueue\<close> of \<open>src/queue.rs\<close>: a doubly linked list of items behind raw pointers, newest
  first along \<open>next\<close>, whose read items are kept in a \<open>PointerCache\<close> to be used again. The model has
  the memory of the items, so that an access to an item that was freed, or to the null pointer, is
  a failure. The operations are modelled as one thread runs them. A loop that follows pointers
  may fail to end, so it is a partial function, and \<open>None\<close> means that it does not return.
\<close>

section \<open>State\<close>

record 'a link_item =
  it_next :: nat
  it_prev :: nat
  it_claimed :: bool
  it_needrel :: bool
  it_payload :: 'a

text \<open>\<open>lq_mem\<close> and \<open>lq_brk\<close> (the next fresh address) are the allocator's.\<close>

record 'a link_queue =
  lq_mem :: "nat \<Rightarrow> 'a link_item option"
  lq_brk :: nat
  lq_ptr :: nat
  lq_lst :: nat
  lq_rinside :: usize
  lq_count :: usize
  lq_sent :: usize
  lq_needrel :: usize
  lq_doingrel :: bool
  lq_recycle :: pointer_cache

definition lq_new :: "nat list \<Rightarrow> 'a link_queue" where
  "lq_new garbage =
     \<lparr>lq_mem = (\<lambda>_. None), lq_brk = 1, lq_ptr = 0, lq_lst = 0, lq_rinside = 0, lq_count = 0, lq_sent = 0,
      lq_needrel = 0, lq_doingrel = False, lq_recycle = pc_new garbage 10\<rparr>"

definition lq_len :: "'a link_queue \<Rightarrow> usize" where
  "lq_len q = lq_count q"

section \<open>Memory\<close>

definition lq_load :: "nat \<Rightarrow> ('a link_queue, 'a link_item) oper" where
  "lq_load p q = (case lq_mem q p of None \<Rightarrow> (Inl MemoryUnsafe, q) | Some it \<Rightarrow> (Inr it, q))"

definition lq_store :: "nat \<Rightarrow> ('a link_item \<Rightarrow> 'a link_item) \<Rightarrow> ('a link_queue, unit) oper" where
  "lq_store p f q =
     (case lq_mem q p of
        None \<Rightarrow> (Inl MemoryUnsafe, q)
      | Some it \<Rightarrow> (Inr (), q\<lparr>lq_mem := (lq_mem q)(p \<mapsto> f it)\<rparr>))"

definition lq_free :: "nat \<Rightarrow> ('a link_queue, unit) oper" where
  "lq_free p q =
     (case lq_mem q p of
        None \<Rightarrow> (Inl MemoryUnsafe, q)
      | Some _ \<Rightarrow> (Inr (), q\<lparr>lq_mem := (lq_mem q)(p := None)\<rparr>))"

definition lq_update :: "('a link_queue \<Rightarrow> 'a link_queue) \<Rightarrow> ('a link_queue, unit) oper" where
  "lq_update f q = (Inr (), f q)"

text \<open>\<open>recycle.push\<close>, with the item that it frees.\<close>

definition lq_recycle_push :: "nat \<Rightarrow> ('a link_queue, unit) oper" where
  "lq_recycle_push p q =
     (case pc_push p (lq_recycle q) of
        (f, c) \<Rightarrow>
          (let q1 = q\<lparr>lq_recycle := c\<rparr>
           in case f of None \<Rightarrow> (Inr (), q1) | Some old \<Rightarrow> lq_free old q1))"

section \<open>Putting\<close>

text \<open>An item for \<open>t\<close>: a recycled one, reset, or a new one.\<close>

definition lq_alloc :: "'a \<Rightarrow> ('a link_queue, nat) oper" where
  "lq_alloc t q =
     (case pc_pop (lq_recycle q) of
        (Some item, c) \<Rightarrow>
          bindO (lq_store item (\<lambda>it. it\<lparr>it_claimed := False, it_needrel := False, it_next := 0, it_prev := 0,
              it_payload := t\<rparr>))
            (\<lambda>_. retO item) (q\<lparr>lq_recycle := c\<rparr>)
      | (None, c) \<Rightarrow>
          (Inr (lq_brk q),
           q\<lparr>lq_recycle := c, lq_brk := Suc (lq_brk q), lq_mem := (lq_mem q)(lq_brk q \<mapsto>
              \<lparr>it_next = 0, it_prev = 0, it_claimed = False, it_needrel = False, it_payload = t\<rparr>)\<rparr>))"

definition lq_put :: "'a \<Rightarrow> ('a link_queue, unit) oper" where
  "lq_put t =
     bindO (lq_alloc t) (\<lambda>item q.
       let oldhead = lq_ptr q;
           q1 = q\<lparr>lq_sent := lq_sent q + 1, lq_ptr := item\<rparr>
       in bindO (lq_store item (\<lambda>it. it\<lparr>it_next := oldhead\<rparr>)) (\<lambda>_.
          bindO (if oldhead \<noteq> 0 then lq_store oldhead (\<lambda>it. it\<lparr>it_prev := item\<rparr>)
                 else lq_update (\<lambda>q. q\<lparr>lq_lst := item\<rparr>)) (\<lambda>_.
          lq_update (\<lambda>q. q\<lparr>lq_count := lq_count q + 1\<rparr>))) q1)"

section \<open>Getting\<close>

text \<open>Operations that may not return.\<close>

type_synonym ('s, 'a) poper = "'s \<Rightarrow> ((failure + 'a) \<times> 's) option"

definition returns :: "('s, 'a) oper \<Rightarrow> ('s, 'a) poper" where
  "returns f s = Some (f s)"

definition bindP :: "('s, 'a) poper \<Rightarrow> ('a \<Rightarrow> ('s, 'b) poper) \<Rightarrow> ('s, 'b) poper" where
  "bindP f k s =
     (case f s of
        None \<Rightarrow> None
      | Some (r, s1) \<Rightarrow> (case r of Inl e \<Rightarrow> Some (Inl e, s1) | Inr x \<Rightarrow> k x s1))"

text \<open>The loop of \<open>taildealloc\<close> and of \<open>deallocall\<close>, which also counts.\<close>

partial_function (option) dealloc_loop :: "nat \<Rightarrow> usize \<Rightarrow> 'a link_queue \<Rightarrow> ((failure + usize) \<times> 'a link_queue) option"
  where
  "dealloc_loop cur cnt q =
     (if cur = 0 then Some (Inr cnt, q)
      else
        case lq_load cur q of
          (Inl f, q1) \<Rightarrow> Some (Inl f, q1)
        | (Inr it, q1) \<Rightarrow>
            (case lq_recycle_push cur q1 of
               (Inl f, q2) \<Rightarrow> Some (Inl f, q2)
             | (Inr _, q2) \<Rightarrow> dealloc_loop (it_next it) (cnt + 1) q2))"

definition taildealloc :: "nat \<Rightarrow> ('a link_queue, unit) poper" where
  "taildealloc after =
     bindP (returns (lq_load after)) (\<lambda>it.
     bindP (dealloc_loop (it_next it) 0) (\<lambda>_.
     returns (lq_store after (\<lambda>it. it\<lparr>it_next := 0\<rparr>))))"

definition deallocall :: "('a link_queue, unit) poper" where
  "deallocall q =
     (let after = lq_ptr q
      in bindP (dealloc_loop after 0) (\<lambda>cnt.
         returns (lq_update (\<lambda>q. q\<lparr>lq_needrel := lq_needrel q - cnt\<rparr>))) (q\<lparr>lq_ptr := 0, lq_lst := 0\<rparr>))"

text \<open>\<open>lst.compare_and_swap(cur, prev)\<close>, unless \<open>prev\<close> is null.\<close>

definition move_lst :: "nat \<Rightarrow> nat \<Rightarrow> 'a link_queue \<Rightarrow> 'a link_queue" where
  "move_lst cur nlst q =
     (if nlst \<noteq> 0 then (if lq_lst q = cur then q\<lparr>lq_lst := nlst\<rparr> else q) else q)"

text \<open>What follows once an item has been claimed.\<close>

definition take_claimed :: "bool \<Rightarrow> nat \<Rightarrow> ('a link_queue, 'a option) oper" where
  "take_claimed first cur =
     bindO (lq_update (\<lambda>q. q\<lparr>lq_count := lq_count q - 1\<rparr>)) (\<lambda>_.
     bindO (if first then bindO (lq_load cur) (\<lambda>it. lq_update (move_lst cur (it_prev it))) else retO ()) (\<lambda>_.
     bindO (lq_load cur) (\<lambda>it.
     bindO (lq_store cur (\<lambda>it. it\<lparr>it_needrel := True\<rparr>)) (\<lambda>_.
     bindO (lq_update (\<lambda>q. q\<lparr>lq_needrel := lq_needrel q + 1, lq_rinside := lq_rinside q - 1\<rparr>)) (\<lambda>_.
     retO (Some (it_payload it)))))))"

partial_function (option) claim_loop ::
    "bool \<Rightarrow> nat \<Rightarrow> 'a link_queue \<Rightarrow> ((failure + 'a option) \<times> 'a link_queue) option" where
  "claim_loop first cur q =
     (if cur = 0 then Some (Inr None, q\<lparr>lq_rinside := lq_rinside q - 1\<rparr>)
      else
        case lq_load cur q of
          (Inl f, q1) \<Rightarrow> Some (Inl f, q1)
        | (Inr it, q1) \<Rightarrow>
            if \<not> it_claimed it
            then Some (bindO (lq_store cur (\<lambda>it. it\<lparr>it_claimed := True\<rparr>)) (\<lambda>_. take_claimed first cur) q1)
            else claim_loop False (it_prev it) q1)"

text \<open>The first part of \<open>get\<close>: release the tail if the last item was read, and find where to start.\<close>

definition release_tail :: "nat \<Rightarrow> ('a link_queue, unit) poper" where
  "release_tail cur q =
     bindP (returns (lq_load cur)) (\<lambda>it q.
       if it_needrel it \<and> \<not> lq_doingrel q
       then bindP (taildealloc cur) (\<lambda>_. returns (lq_update (\<lambda>q. q\<lparr>lq_doingrel := False\<rparr>)))
              (q\<lparr>lq_doingrel := True\<rparr>)
       else Some (Inr (), q)) q"

definition start_at :: "nat \<Rightarrow> ('a link_queue, nat) oper" where
  "start_at cur =
     bindO (lq_load cur) (\<lambda>it.
       if it_needrel it
       then bindO (lq_update (move_lst cur (it_prev it))) (\<lambda>_. retO (it_prev it))
       else retO cur)"

definition lq_get :: "('a link_queue, 'a option) poper" where
  "lq_get q =
     (let q1 = q\<lparr>lq_rinside := lq_rinside q + 1\<rparr>;
          cur = lq_lst q1
      in if cur = 0 then Some (Inr None, q1)
         else bindP (release_tail cur) (\<lambda>_. bindP (returns (start_at cur)) (claim_loop True)) q1)"

text \<open>\<open>drop\<close>: \<open>deallocall\<close>, then the cache is dropped.\<close>

fun lq_free_all :: "nat list \<Rightarrow> ('a link_queue, unit) oper" where
  "lq_free_all [] = retO ()"
| "lq_free_all (p # ps) = bindO (lq_free p) (\<lambda>_. lq_free_all ps)"

definition lq_drop :: "('a link_queue, unit) poper" where
  "lq_drop = bindP deallocall (\<lambda>_. returns (\<lambda>q. lq_free_all (pc_drop (lq_recycle q)) q))"

section \<open>The list behind the pointers\<close>

text \<open>A doubly linked segment, between the item \<open>p\<close> before it and the item \<open>c\<close> after it.\<close>

fun dseg :: "(nat \<Rightarrow> 'a link_item option) \<Rightarrow> nat \<Rightarrow> nat list \<Rightarrow> nat \<Rightarrow> bool" where
  "dseg m p [] c = True"
| "dseg m p (x # xs) c =
     ((\<exists>it. m x = Some it \<and> it_prev it = p \<and> it_next it = hd (xs @ [c])) \<and> dseg m x xs c)"

lemma dseg_append:
  "dseg m p (xs @ ys) c \<longleftrightarrow> dseg m p xs (hd (ys @ [c])) \<and> dseg m (last (p # xs)) ys c"
  by (induction xs arbitrary: p) (auto simp: hd_append)

lemma dseg_cong:
  assumes "\<And>x it. x \<in> set xs \<Longrightarrow> m x = Some it \<Longrightarrow>
      \<exists>it'. m' x = Some it' \<and> it_prev it' = it_prev it \<and> it_next it' = it_next it"
    and "dseg m p xs c"
  shows "dseg m' p xs c"
  using assms
proof (induction xs arbitrary: p)
  case (Cons x xs)
  then obtain it where "m x = Some it" "it_prev it = p" "it_next it = hd (xs @ [c])" by auto
  with Cons.prems(1) [of x it] Cons.IH [of x] Cons.prems show ?case by fastforce
qed simp

lemma dseg_mapped: "dseg m p xs c \<Longrightarrow> x \<in> set xs \<Longrightarrow> \<exists>it. m x = Some it"
  by (induction xs arbitrary: p) auto

lemma dseg_last:
  assumes "dseg m p (xs @ [x]) c"
  shows "\<exists>it. m x = Some it \<and> it_prev it = last (p # xs) \<and> it_next it = c"
  using assms by (simp add: dseg_append)

definition payload_at :: "'a link_queue \<Rightarrow> nat \<Rightarrow> 'a" where
  "payload_at q x = it_payload (the (lq_mem q x))"

text \<open>
  The state of the queue: \<open>us\<close> are the items to be read, newest first, \<open>ds\<close> the items read but not
  released yet, and \<open>ss\<close> those in the cache. Nothing else is allocated. \<open>lst\<close> is the oldest item
  to be read, or the item read last.
\<close>

definition flags_ok :: "'a link_queue \<Rightarrow> nat list \<Rightarrow> nat list \<Rightarrow> bool" where
  "flags_ok q us ds \<longleftrightarrow>
     (\<forall>x \<in> set us. \<not> it_claimed (the (lq_mem q x)) \<and> \<not> it_needrel (the (lq_mem q x))) \<and>
     (\<forall>x \<in> set ds. it_claimed (the (lq_mem q x)) \<and> it_needrel (the (lq_mem q x)))"

definition lst_ok :: "'a link_queue \<Rightarrow> nat list \<Rightarrow> nat list \<Rightarrow> bool" where
  "lst_ok q us ds \<longleftrightarrow>
     (us = [] \<and> ds = [] \<and> lq_lst q = 0) \<or> (us \<noteq> [] \<and> lq_lst q = last us) \<or> (ds \<noteq> [] \<and> lq_lst q = hd ds)"

definition lq_rep :: "'a link_queue \<Rightarrow> nat list \<Rightarrow> nat list \<Rightarrow> nat list \<Rightarrow> bool" where
  "lq_rep q us ds ss \<longleftrightarrow>
     dseg (lq_mem q) 0 (us @ ds) 0 \<and> lq_ptr q = hd (us @ ds @ [0]) \<and> distinct (us @ ds @ ss) \<and>
     pc_holds 10 (lq_recycle q) ss \<and> dom (lq_mem q) = set (us @ ds @ ss) \<and>
     (\<forall>x \<in> dom (lq_mem q). 0 < x \<and> x < lq_brk q) \<and> 0 < lq_brk q \<and>
     flags_ok q us ds \<and> lst_ok q us ds \<and> \<not> lq_doingrel q \<and> lq_count q = of_nat (length us)"

lemma lq_new_rep: "lq_rep (lq_new g) [] [] []"
  using pc_new_holds [of 10 g] by (simp add: lq_rep_def lq_new_def flags_ok_def lst_ok_def)

text \<open>What memory looks like after an item has been made for \<open>t\<close>.\<close>

lemma lq_alloc_outcome:
  assumes "distinct (xs @ ss)" and "pc_holds 10 (lq_recycle q) ss" and "dom (lq_mem q) = set (xs @ ss)"
    and "\<forall>x \<in> dom (lq_mem q). 0 < x \<and> x < lq_brk q" and "0 < lq_brk q"
  shows "\<exists>x ss' c n. lq_alloc t q = (Inr x, q\<lparr>lq_recycle := c, lq_brk := n, lq_mem := (lq_mem q)(x \<mapsto>
        \<lparr>it_next = 0, it_prev = 0, it_claimed = False, it_needrel = False, it_payload = t\<rparr>)\<rparr>) \<and>
      0 < x \<and> x \<notin> set xs \<and> distinct (x # xs @ ss') \<and> pc_holds 10 c ss' \<and>
      set (x # xs @ ss') = insert x (set (xs @ ss)) \<and> lq_brk q \<le> n \<and> x < n \<and>
      (ss = [] \<longrightarrow> ss' = [] \<and> x = lq_brk q \<and> n = Suc (lq_brk q))"
proof -
  obtain r c where p: "pc_pop (lq_recycle q) = (r, c)" by (meson surj_pair)
  have d: "distinct ss" using assms(1) by simp
  from assms(2) d p show ?thesis
  proof (cases rule: pc.pop_cases)
    case (empty ys)
    have fresh: "lq_brk q \<notin> set (xs @ ss)" using assms(3,4) by blast
    show ?thesis
      using empty p fresh assms(1,5)
      by (intro exI [of _ "lq_brk q"] exI [of _ ys] exI [of _ c] exI [of _ "Suc (lq_brk q)"])
        (auto simp: lq_alloc_def)
  next
    case (item x ys)
    then have "x \<in> dom (lq_mem q)" using assms(3) by simp
    then obtain it where it: "lq_mem q x = Some it" by blast
    have "x \<notin> set xs" "0 < x" "x < lq_brk q" using item(2,3) assms(1,4) \<open>x \<in> dom (lq_mem q)\<close> by auto
    define q' where "q' = q\<lparr>lq_recycle := c, lq_brk := lq_brk q, lq_mem := (lq_mem q)(x \<mapsto>
        \<lparr>it_next = 0, it_prev = 0, it_claimed = False, it_needrel = False, it_payload = t\<rparr>)\<rparr>"
    have "lq_alloc t q = (Inr x, q')"
      using p it by (cases it) (simp add: lq_alloc_def lq_store_def item(1) q'_def)
    moreover have "ss = [] \<longrightarrow> x = lq_brk q" using item(2) by auto
    moreover have "distinct (x # xs @ ys)" "set (x # xs @ ys) = insert x (set (xs @ ss))" "ss \<noteq> []"
      using item \<open>x \<notin> set xs\<close> assms(1) by auto
    ultimately show ?thesis
      using item(4) \<open>x \<notin> set xs\<close> \<open>0 < x\<close> \<open>x < lq_brk q\<close> unfolding q'_def
      by (intro exI [of _ x] exI [of _ ys] exI [of _ c] exI [of _ "lq_brk q"] conjI) simp_all
  qed
qed

text \<open>An item in front of the list; the old head points back to it.\<close>

definition link_front :: "(nat \<Rightarrow> 'a link_item option) \<Rightarrow> nat \<Rightarrow> 'a link_item \<Rightarrow> nat list \<Rightarrow> nat \<Rightarrow> 'a link_item option"
  where
  "link_front m x new xs =
     (case xs of
        [] \<Rightarrow> m(x \<mapsto> new)
      | h # _ \<Rightarrow> m(x \<mapsto> new, h \<mapsto> (the (m h))\<lparr>it_prev := x\<rparr>))"

lemma link_front_same:
  assumes "dseg m p xs c" and "x \<notin> set xs" and "y \<in> set xs"
  shows "\<exists>it. link_front m x new xs y = Some it \<and> it_next it = it_next (the (m y)) \<and>
    it_claimed it = it_claimed (the (m y)) \<and> it_needrel it = it_needrel (the (m y)) \<and>
    it_payload it = it_payload (the (m y)) \<and> (y \<noteq> hd xs \<longrightarrow> it_prev it = it_prev (the (m y)))"
proof -
  from dseg_mapped [OF assms(1,3)] obtain it where "m y = Some it" by blast
  with assms(2,3) show ?thesis by (cases xs) (auto simp: link_front_def)
qed

lemma link_front_new: "x \<notin> set xs \<Longrightarrow> link_front m x new xs x = Some new"
  by (cases xs) (auto simp: link_front_def)

lemma link_front_dom: "set xs \<subseteq> dom m \<Longrightarrow> dom (link_front m x new xs) = insert x (dom m)"
  by (cases xs) (auto simp: link_front_def)

lemma link_front_dseg:
  assumes "dseg m 0 xs 0" and "distinct (x # xs)" and "it_next new = hd (xs @ [0])" and "it_prev new = 0"
  shows "dseg (link_front m x new xs) 0 (x # xs) 0"
proof (cases xs)
  case Nil
  with assms show ?thesis by (simp add: link_front_def)
next
  case (Cons h ys)
  with assms(1) obtain it where h: "m h = Some it" "it_next it = hd (ys @ [0])" "dseg m h ys 0" by auto
  have "dseg (link_front m x new xs) h ys 0"
    by (rule dseg_cong [OF _ h(3)]) (use assms(2) Cons in \<open>auto simp: link_front_def\<close>)
  then show ?thesis using assms h Cons by (auto simp: link_front_def)
qed

lemma lq_put_outcome:
  assumes "lq_alloc t q = (Inr x, q\<lparr>lq_recycle := c, lq_brk := n, lq_mem := (lq_mem q)(x \<mapsto>
        \<lparr>it_next = 0, it_prev = 0, it_claimed = False, it_needrel = False, it_payload = t\<rparr>)\<rparr>)"
    and "dseg (lq_mem q) 0 xs 0" and "lq_ptr q = hd (xs @ [0])" and "0 \<notin> set xs" and "x \<notin> set xs"
  shows "lq_put t q = (Inr (), q\<lparr>lq_recycle := c, lq_brk := n, lq_mem := link_front (lq_mem q) x
        \<lparr>it_next = hd (xs @ [0]), it_prev = 0, it_claimed = False, it_needrel = False, it_payload = t\<rparr> xs,
      lq_sent := lq_sent q + 1, lq_ptr := x, lq_lst := (if xs = [] then x else lq_lst q),
      lq_count := lq_count q + 1\<rparr>)"
proof (cases xs)
  case Nil
  then show ?thesis using assms
    by (simp add: lq_put_def lq_store_def lq_update_def Let_def link_front_def)
next
  case (Cons h ys)
  with assms obtain it where "lq_mem q h = Some it" "0 < h" "h \<noteq> x" by auto
  with Cons assms show ?thesis
    by (simp add: lq_put_def lq_store_def lq_update_def Let_def link_front_def)
qed

lemma lq_repD:
  assumes "lq_rep q us ds ss"
  shows "dseg (lq_mem q) 0 (us @ ds) 0" "lq_ptr q = hd ((us @ ds) @ [0])" "distinct ((us @ ds) @ ss)"
    "pc_holds 10 (lq_recycle q) ss" "dom (lq_mem q) = set ((us @ ds) @ ss)"
    "\<forall>x \<in> dom (lq_mem q). 0 < x \<and> x < lq_brk q" "0 < lq_brk q" "flags_ok q us ds" "lst_ok q us ds"
    "\<not> lq_doingrel q" "lq_count q = of_nat (length us)" "0 \<notin> set (us @ ds)" "0 \<notin> set ss"
  using assms by (auto simp: lq_rep_def pc_holds_def)

lemma lq_put_rep:
  assumes "lq_rep q us ds ss"
  shows "\<exists>x ss' q'. lq_put t q = (Inr (), q') \<and> lq_rep q' (x # us) ds ss' \<and> payload_at q' x = t \<and>
    (\<forall>y \<in> set (us @ ds). payload_at q' y = payload_at q y) \<and>
    lq_lst q' = (if us @ ds = [] then x else lq_lst q) \<and>
    lq_rinside q' = lq_rinside q \<and> lq_sent q' = lq_sent q + 1 \<and>
    (ss = [] \<longrightarrow> ss' = [] \<and> lq_brk q' = Suc (lq_brk q))"
proof -
  note rep = lq_repD [OF assms]
  let ?xs = "us @ ds"
  let ?new = "\<lparr>it_next = hd (?xs @ [0]), it_prev = 0, it_claimed = False, it_needrel = False, it_payload = t\<rparr>"
  let ?m = "\<lambda>x. link_front (lq_mem q) x ?new ?xs"
  from lq_alloc_outcome [OF rep(3-7), of t] obtain x ss' c n where
    al: "lq_alloc t q = (Inr x, q\<lparr>lq_recycle := c, lq_brk := n, lq_mem := (lq_mem q)(x \<mapsto>
        \<lparr>it_next = 0, it_prev = 0, it_claimed = False, it_needrel = False, it_payload = t\<rparr>)\<rparr>)"
    and x: "0 < x" "x \<notin> set ?xs" "distinct (x # ?xs @ ss')" "pc_holds 10 c ss'"
      "set (x # ?xs @ ss') = insert x (set (?xs @ ss))" "lq_brk q \<le> n" "x < n"
      "ss = [] \<longrightarrow> ss' = [] \<and> x = lq_brk q \<and> n = Suc (lq_brk q)" by blast
  obtain q' where q': "lq_put t q = (Inr (), q')" "lq_mem q' = ?m x" "lq_ptr q' = x" "lq_recycle q' = c"
    "lq_brk q' = n" "lq_sent q' = lq_sent q + 1" "lq_lst q' = (if ?xs = [] then x else lq_lst q)"
    "lq_count q' = lq_count q + 1" "lq_doingrel q' = lq_doingrel q" "lq_rinside q' = lq_rinside q"
    by (simp add: lq_put_outcome [OF al rep(1,2,12) x(2)])
  have same: "it_claimed (the (lq_mem q' y)) = it_claimed (the (lq_mem q y)) \<and>
      it_needrel (the (lq_mem q' y)) = it_needrel (the (lq_mem q y)) \<and> payload_at q' y = payload_at q y"
    if "y \<in> set ?xs" for y
    using link_front_same [OF rep(1) x(2) that, of ?new] by (auto simp: payload_at_def q')
  have new: "lq_mem q' x = Some ?new"
    unfolding q' by (rule link_front_new [OF x(2)])
  have "dom (lq_mem q') = insert x (dom (lq_mem q))"
    unfolding q' by (rule link_front_dom) (use rep(5) in auto)
  then have dom: "dom (lq_mem q') = set ((x # us) @ ds @ ss')"
    using x(5) rep(5) by simp
  have "dseg (lq_mem q') 0 (x # ?xs) 0"
    unfolding q' using x(3) by (intro link_front_dseg [OF rep(1)]) auto
  moreover have "flags_ok q' (x # us) ds"
    using rep(8) same new by (simp add: flags_ok_def)
  moreover have "lst_ok q' (x # us) ds"
    using rep(9) by (auto simp: lst_ok_def q'(7))
  moreover have "\<forall>y \<in> dom (lq_mem q'). 0 < y \<and> y < lq_brk q'"
  proof -
    have "\<forall>y \<in> dom (lq_mem q). 0 < y \<and> y < n" using rep(6) x(6) by (meson order.strict_trans2)
    then show ?thesis
      unfolding \<open>dom (lq_mem q') = insert x (dom (lq_mem q))\<close> using x(1,7) by (simp add: q'(5))
  qed
  ultimately have "lq_rep q' (x # us) ds ss'"
    using rep(10,11) x(3,4,7) dom by (simp add: lq_rep_def q'(3-5,8,9))
  moreover have "payload_at q' x = t" using new by (simp add: payload_at_def)
  ultimately show ?thesis using q' same x(8) by (intro exI [of _ x] exI [of _ ss'] exI [of _ q']) simp
qed

text \<open>Pushing into the cache frees at most one item, which was in the cache or is the one pushed.\<close>

lemma lq_recycle_push_outcome:
  assumes "pc_holds 10 (lq_recycle q) ss" and "distinct (p # ss)" and "p \<noteq> 0" and "set (p # ss) \<subseteq> dom (lq_mem q)"
  shows "\<exists>ss' c m. lq_recycle_push p q = (Inr (), q\<lparr>lq_recycle := c, lq_mem := m\<rparr>) \<and> pc_holds 10 c ss' \<and>
    distinct ss' \<and> set ss' \<subseteq> set (p # ss) \<and> m = lq_mem q |` (- (set (p # ss) - set ss'))"
proof -
  obtain f c where push: "pc_push p (lq_recycle q) = (f, c)" by (meson surj_pair)
  from assms(1-3) push show ?thesis
  proof (cases rule: pc.push_cases)
    case (kept ys)
    then have "lq_mem q |` (- (set (p # ss) - set ys)) = lq_mem q" by (simp add: restrict_map_def)
    with kept push show ?thesis
      by (intro exI [of _ ys] exI [of _ c] exI [of _ "lq_mem q"]) (simp add: lq_recycle_push_def)
  next
    case (freed old ys)
    then have s: "set (p # ss) - set ys = {old}" by auto
    have "lq_mem q |` (- {old}) = (lq_mem q)(old := None)" by (auto simp: restrict_map_def)
    moreover obtain it where "lq_mem q old = Some it" using freed(2) assms(4) by auto
    ultimately show ?thesis using freed push unfolding s [symmetric]
      by (intro exI [of _ ys] exI [of _ c] exI [of _ "(lq_mem q)(old := None)"])
        (auto simp: lq_recycle_push_def lq_free_def)
  qed
qed

lemma dealloc_loop_outcome:
  assumes "dseg (lq_mem q) pr xs 0" and "0 \<notin> set xs" and "distinct (xs @ ss)"
    and "pc_holds 10 (lq_recycle q) ss" and "set (xs @ ss) \<subseteq> dom (lq_mem q)"
  shows "\<exists>ss' c m. dealloc_loop (hd (xs @ [0])) cnt q =
      Some (Inr (cnt + of_nat (length xs)), q\<lparr>lq_recycle := c, lq_mem := m\<rparr>) \<and> pc_holds 10 c ss' \<and>
    distinct ss' \<and> set ss' \<subseteq> set (xs @ ss) \<and> m = lq_mem q |` (- (set (xs @ ss) - set ss'))"
  using assms
proof (induction xs arbitrary: q pr ss cnt)
  case Nil
  have "lq_mem q |` (- ({} :: nat set)) = lq_mem q" by (simp add: restrict_map_def)
  with Nil show ?case
    by (intro exI [of _ ss] exI [of _ "lq_recycle q"] exI [of _ "lq_mem q"]) (simp add: dealloc_loop.simps)
next
  case (Cons x xs)
  from Cons.prems(1) obtain it where it: "lq_mem q x = Some it" "it_next it = hd (xs @ [0])"
    and seg: "dseg (lq_mem q) x xs 0" by auto
  have x: "distinct (x # ss)" "x \<noteq> 0" "set (x # ss) \<subseteq> dom (lq_mem q)" using Cons.prems by auto
  from lq_recycle_push_outcome [OF Cons.prems(4) x] obtain ss1 c1 m1 where
    push: "lq_recycle_push x q = (Inr (), q\<lparr>lq_recycle := c1, lq_mem := m1\<rparr>)" and k: "pc_holds 10 c1 ss1"
    "distinct ss1" "set ss1 \<subseteq> set (x # ss)" "m1 = lq_mem q |` (- (set (x # ss) - set ss1))" by blast
  let ?q1 = "q\<lparr>lq_recycle := c1, lq_mem := m1\<rparr>"
  have away: "set xs \<inter> set (x # ss) = {}" using Cons.prems(3) by auto
  have "dseg (lq_mem ?q1) x xs 0"
    by (rule dseg_cong [OF _ seg]) (use away k(4) in \<open>auto simp: restrict_map_def\<close>)
  moreover have "distinct (xs @ ss1)" using Cons.prems(3) k(2,3) away by auto
  moreover have "set (xs @ ss1) \<subseteq> dom (lq_mem ?q1)"
    using Cons.prems(5) k(3,4) away by auto
  ultimately obtain ss' c m where
    loop: "dealloc_loop (hd (xs @ [0])) (cnt + 1) ?q1 =
      Some (Inr (cnt + 1 + of_nat (length xs)), ?q1\<lparr>lq_recycle := c, lq_mem := m\<rparr>)" and l: "pc_holds 10 c ss'"
    "distinct ss'" "set ss' \<subseteq> set (xs @ ss1)" "m = m1 |` (- (set (xs @ ss1) - set ss'))"
    using Cons.IH [of ?q1 x ss1 "cnt + 1"] Cons.prems(2) k(1) by auto
  have "m = lq_mem q |` (- (set ((x # xs) @ ss) - set ss'))"
    unfolding l(4) k(4) restrict_restrict using l(3) k(3) away by (intro arg_cong [of _ _ "restrict_map (lq_mem q)"]) auto
  moreover have "dealloc_loop (hd ((x # xs) @ [0])) cnt q =
      Some (Inr (cnt + of_nat (length (x # xs))), q\<lparr>lq_recycle := c, lq_mem := m\<rparr>)"
    using loop x(2) it by (subst dealloc_loop.simps) (simp add: lq_load_def push add.assoc)
  ultimately show ?case using l(1-3) k(3) by (intro exI conjI) auto
qed

text \<open>
  When \<open>lst\<close> is the item read last, the items read before it are released; then it is the only item
  kept in the list behind those to be read.
\<close>

lemma release_tail_read:
  assumes "lq_rep q us (d # ds) ss"
  shows "\<exists>q' ss'. release_tail d q = Some (Inr (), q') \<and> lq_rep q' us [d] ss' \<and> lq_lst q' = lq_lst q \<and>
    (\<forall>y \<in> set us. payload_at q' y = payload_at q y) \<and> lq_rinside q' = lq_rinside q \<and>
    lq_sent q' = lq_sent q"
proof -
  note rep = lq_repD [OF assms]
  have seg: "dseg (lq_mem q) 0 us d" "dseg (lq_mem q) (last (0 # us)) (d # ds) 0"
    using rep(1) by (simp_all add: dseg_append)
  then obtain it where it: "lq_mem q d = Some it" "it_prev it = last (0 # us)" "it_next it = hd (ds @ [0])"
    and tl: "dseg (lq_mem q) d ds 0" by auto
  have rel: "it_needrel it" using rep(8) it(1) by (simp add: flags_ok_def)
  let ?q1 = "q\<lparr>lq_doingrel := True\<rparr>"
  have pre: "dseg (lq_mem ?q1) d ds 0" "0 \<notin> set ds" "distinct (ds @ ss)" "pc_holds 10 (lq_recycle ?q1) ss"
    "set (ds @ ss) \<subseteq> dom (lq_mem ?q1)" using tl rep by auto
  from dealloc_loop_outcome [OF pre, of 0] obtain ss' c m where
    loop: "dealloc_loop (hd (ds @ [0])) 0 ?q1 =
      Some (Inr (0 + of_nat (length ds)), ?q1\<lparr>lq_recycle := c, lq_mem := m\<rparr>)"
    and l: "pc_holds 10 c ss'" "distinct ss'" "set ss' \<subseteq> set (ds @ ss)"
      "m = lq_mem q |` (- (set (ds @ ss) - set ss'))" by auto
  have away: "set (us @ [d]) \<inter> set (ds @ ss) = {}" using rep(3) by auto
  have same: "m y = lq_mem q y" if "y \<in> set (us @ [d])" for y
    using that away by (auto simp: l(4) restrict_map_def)
  define m' where "m' = m(d \<mapsto> it\<lparr>it_next := 0\<rparr>)"
  define q' where "q' = q\<lparr>lq_recycle := c, lq_mem := m', lq_doingrel := False\<rparr>"
  have "release_tail d q = Some (Inr (), q')"
    using it loop rel rep(10) same [of d]
    by (simp add: release_tail_def taildealloc_def bindP_def returns_def lq_load_def lq_store_def lq_update_def
        q'_def m'_def)
  moreover have at: "m' y = lq_mem q y" if "y \<in> set us" for y
    using that same [of y] rep(3) by (auto simp: m'_def)
  moreover have "lq_rep q' us [d] ss'"
  proof -
    have "dseg m' 0 us d" by (rule dseg_cong [OF _ seg(1)]) (simp add: at)
    then have "dseg m' 0 (us @ [d]) 0" using it(2) by (simp add: dseg_append m'_def)
    moreover have "dom m' = set ((us @ [d]) @ ss')"
    proof -
      have "dom m' = insert d (dom (lq_mem q) - (set (ds @ ss) - set ss'))"
        by (auto simp: m'_def l(4) dom_restrict)
      then show ?thesis using rep(3,5) l(3) by auto
    qed
    moreover have "\<forall>x \<in> dom m'. 0 < x \<and> x < lq_brk q"
      using rep(5,6) l(3) unfolding \<open>dom m' = _\<close> by auto
    moreover have "flags_ok q' us [d]"
      using rep(8) it(1) at by (simp add: flags_ok_def q'_def m'_def)
    moreover have "lst_ok q' us [d]" using rep(9) by (simp add: lst_ok_def q'_def)
    moreover have "distinct (us @ [d] @ ss')" using rep(3) l(2,3) by auto
    moreover have "hd (us @ (d # ds) @ [0]) = hd (us @ [d] @ [0])" by (cases us) simp_all
    ultimately show ?thesis using rep(2,7,11) l(1) unfolding lq_rep_def by (simp add: q'_def)
  qed
  ultimately show ?thesis
    by (intro exI [of _ q'] exI [of _ ss']) (simp add: q'_def payload_at_def)
qed

text \<open>Claiming the oldest item to be read.\<close>

lemma claim_rep:
  assumes "lq_rep q (us @ [x]) ds ss" and "lq_lst q = x"
  shows "\<exists>q'. claim_loop True x q = Some (Inr (Some (payload_at q x)), q') \<and> lq_rep q' us (x # ds) ss \<and>
    (\<forall>y \<in> set us. payload_at q' y = payload_at q y) \<and> lq_rinside q' = lq_rinside q - 1 \<and>
    lq_sent q' = lq_sent q \<and> lq_brk q' = lq_brk q \<and> lq_lst q' = (if us = [] then x else last us)"
proof -
  note rep = lq_repD [OF assms(1)]
  have "dseg (lq_mem q) 0 (us @ [x]) (hd (ds @ [0]))" using rep(1) by (simp only: dseg_append)
  from dseg_last [OF this] obtain it where it: "lq_mem q x = Some it" "it_prev it = last (0 # us)" by blast
  have x: "x \<noteq> 0" "\<not> it_claimed it" using rep(8,12) it(1) by (simp_all add: flags_ok_def)
  define m' where "m' = (lq_mem q)(x \<mapsto> it\<lparr>it_claimed := True, it_needrel := True\<rparr>)"
  define q' where "q' = q\<lparr>lq_mem := m', lq_count := lq_count q - 1,
    lq_lst := (if us = [] then x else last us), lq_needrel := lq_needrel q + 1, lq_rinside := lq_rinside q - 1\<rparr>"
  have prev: "it_prev it = (if us = [] then 0 else last us)" using it(2) by simp
  have pos: "us \<noteq> [] \<Longrightarrow> last us \<noteq> 0" using rep(12) last_in_set [of us] by (metis UnCI set_append)
  have "claim_loop True x q = Some (Inr (Some (it_payload it)), q')"
    using x it(1) prev pos assms(2)
    by (subst claim_loop.simps, cases "us = []")
      (simp_all add: lq_load_def lq_store_def lq_update_def take_claimed_def move_lst_def q'_def m'_def bindO_def)
  moreover have "lq_rep q' us (x # ds) ss"
  proof -
    have "dseg m' 0 (us @ x # ds) 0"
      by (rule dseg_cong [OF _ rep(1) [unfolded append_assoc append_Cons append_Nil]])
        (auto simp: m'_def it(1))
    moreover have "dom m' = set ((us @ x # ds) @ ss)" using rep(5) it(1) by (auto simp: m'_def)
    moreover have "flags_ok q' us (x # ds)"
      using rep(3,8) by (auto simp: flags_ok_def q'_def m'_def)
    moreover have "lst_ok q' us (x # ds)" by (simp add: lst_ok_def q'_def)
    moreover have "\<forall>y \<in> dom m'. 0 < y \<and> y < lq_brk q" using rep(6) it(1) by (auto simp: m'_def)
    ultimately show ?thesis
      using rep(2-4,7,10,11) unfolding lq_rep_def by (simp add: q'_def)
  qed
  moreover have "payload_at q' y = payload_at q y" if "y \<in> set us" for y
    using that rep(3) by (auto simp: payload_at_def q'_def m'_def)
  ultimately show ?thesis
    by (intro exI [of _ q']) (simp add: payload_at_def it(1), simp add: q'_def)
qed

lemma lq_get_rep:
  assumes "lq_rep q us ds ss"
  shows "\<exists>r q' ds' ss'. lq_get q = Some (Inr r, q') \<and> lq_rep q' (butlast us) ds' ss' \<and>
    r = (if us = [] then None else Some (payload_at q (last us))) \<and>
    (\<forall>y \<in> set (butlast us). payload_at q' y = payload_at q y) \<and>
    lq_rinside q' = lq_rinside q + of_bool (us @ ds = []) \<and> lq_sent q' = lq_sent q \<and>
    (butlast us @ ds' = [] \<longleftrightarrow> us @ ds = []) \<and>
    (us \<noteq> [] \<and> lq_lst q = last us \<longrightarrow> ds' = last us # ds \<and> ss' = ss \<and> lq_brk q' = lq_brk q \<and>
       lq_lst q' = (if butlast us = [] then last us else last (butlast us)))"
proof -
  note rep = lq_repD [OF assms]
  define q1 where "q1 = q\<lparr>lq_rinside := lq_rinside q + 1\<rparr>"
  have r1: "lq_rep q1 us ds ss"
    using assms by (simp add: lq_rep_def q1_def flags_ok_def lst_ok_def)
  have p1: "payload_at q1 = payload_at q" by (simp add: payload_at_def q1_def fun_eq_iff)
  consider (none) "us = []" "ds = []" "lq_lst q = 0" | (item) "us \<noteq> []" "lq_lst q = last us"
    | (read) "ds \<noteq> []" "lq_lst q = hd ds"
    using rep(9) unfolding lst_ok_def by (elim disjE conjE)
  then show ?thesis
  proof cases
    case none
    then show ?thesis using r1
      by (intro exI [of _ None] exI [of _ q1] exI [of _ "[]"] exI [of _ ss])
        (simp add: lq_get_def Let_def q1_def)
  next
    case item
    then obtain vs x where us: "us = vs @ [x]" by (metis append_butlast_last_id)
    have lst: "lq_lst q1 = x" "x \<noteq> 0" using item us rep(12) by (auto simp: q1_def)
    from rep(5) us obtain it where it: "lq_mem q1 x = Some it" by (auto simp: q1_def)
    have "\<not> it_needrel it" using rep(8) it us by (auto simp: flags_ok_def q1_def)
    then have get: "lq_get q = claim_loop True x q1"
      using lst it by (simp add: lq_get_def q1_def [symmetric] bindP_def returns_def release_tail_def start_at_def
          lq_load_def)
    from claim_rep [OF r1 [unfolded us] lst(1)] obtain q' where
      "claim_loop True x q1 = Some (Inr (Some (payload_at q x)), q')" "lq_rep q' vs (x # ds) ss"
      "\<forall>y \<in> set vs. payload_at q' y = payload_at q y" "lq_rinside q' = lq_rinside q"
      "lq_sent q' = lq_sent q" "lq_brk q' = lq_brk q" "lq_lst q' = (if vs = [] then x else last vs)"
      unfolding p1 by (auto simp: q1_def)
    then show ?thesis unfolding get us butlast_snoc last_snoc
      by (intro exI [of _ "Some (payload_at q x)"] exI [of _ q'] exI [of _ "x # ds"] exI [of _ ss]) simp
  next
    case read
    then obtain d es where ds: "ds = d # es" by (cases ds) auto
    have lst: "lq_lst q1 = d" "d \<noteq> 0" using read ds rep(12) by (auto simp: q1_def)
    from release_tail_read [OF r1 [unfolded ds]] obtain q2 ss2 where
      rel: "release_tail d q1 = Some (Inr (), q2)" and r2: "lq_rep q2 us [d] ss2" and q2: "lq_lst q2 = lq_lst q1"
      "\<forall>y \<in> set us. payload_at q2 y = payload_at q1 y" "lq_rinside q2 = lq_rinside q1" "lq_sent q2 = lq_sent q1"
      by blast
    note rep2 = lq_repD [OF r2]
    have "dseg (lq_mem q2) (last (0 # us)) [d] 0" using rep2(1) by (simp only: dseg_append)
    then obtain it where it: "lq_mem q2 d = Some it" "it_prev it = last (0 # us)" by auto
    have need: "it_needrel it" using rep2(8) it(1) by (simp add: flags_ok_def)
    have nd: "us \<noteq> [] \<longrightarrow> last us \<noteq> d" using rep2(3) last_in_set [of us] by auto
    have nz: "us \<noteq> [] \<longrightarrow> last us \<noteq> 0" using rep2(12) last_in_set [of us] by (metis UnCI set_append)
    define q3 where "q3 = move_lst d (it_prev it) q2"
    have get: "lq_get q = claim_loop True (it_prev it) q3"
      using lst rel it(1) need by (simp add: lq_get_def q1_def [symmetric] bindP_def returns_def start_at_def
          lq_load_def lq_update_def q3_def bindO_def)
    show ?thesis
    proof (cases "us = []")
      case True
      then have "lq_get q = Some (Inr None, q2\<lparr>lq_rinside := lq_rinside q2 - 1\<rparr>)"
        unfolding get by (subst claim_loop.simps) (simp add: it(2) q3_def move_lst_def)
      moreover have "lq_rep (q2\<lparr>lq_rinside := lq_rinside q2 - 1\<rparr>) [] [d] ss2"
        using r2 True by (simp add: lq_rep_def flags_ok_def lst_ok_def)
      ultimately show ?thesis using True ds q2
        by (intro exI [of _ None] exI [of _ "q2\<lparr>lq_rinside := lq_rinside q2 - 1\<rparr>"] exI [of _ "[d]"]
            exI [of _ ss2]) (simp add: q1_def)
    next
      case False
      then obtain vs x where us: "us = vs @ [x]" by (metis append_butlast_last_id)
      have q3: "q3 = q2\<lparr>lq_lst := x\<rparr>" using us nd nz it(2) lst q2(1) by (simp add: q3_def move_lst_def)
      have r3: "lq_rep q3 (vs @ [x]) [d] ss2"
        using r2 us by (simp add: q3 lq_rep_def flags_ok_def lst_ok_def)
      have p3: "payload_at q3 = payload_at q2" by (simp add: payload_at_def q3 fun_eq_iff)
      have "lq_lst q3 = x" by (simp add: q3)
      from claim_rep [OF r3 this] us it(2) q2 p1 p3 read ds nd show ?thesis
        unfolding get by (auto simp: q1_def q3)
    qed
  qed
qed

section \<open>Runs\<close>

text \<open>What is to be read, found by following the pointers for at most as many steps as there are addresses.\<close>

fun unread :: "(nat \<Rightarrow> 'a link_item option) \<Rightarrow> nat \<Rightarrow> nat \<Rightarrow> 'a list" where
  "unread m p 0 = []"
| "unread m p (Suc n) =
     (if p = 0 then []
      else case m p of
             None \<Rightarrow> []
           | Some it \<Rightarrow> if it_claimed it then [] else it_payload it # unread m (it_next it) n)"

definition lq_items :: "'a link_queue \<Rightarrow> 'a list" where
  "lq_items q = rev (unread (lq_mem q) (lq_ptr q) (lq_brk q))"

lemma unread_dseg:
  assumes "dseg m p (us @ ds) 0" and "0 \<notin> set (us @ ds)" and "length us < n"
    and "\<forall>x \<in> set us. \<not> it_claimed (the (m x))" and "\<forall>x \<in> set ds. it_claimed (the (m x))"
  shows "unread m (hd ((us @ ds) @ [0])) n = map (\<lambda>x. it_payload (the (m x))) us"
  using assms
proof (induction us arbitrary: p n)
  case Nil
  then show ?case by (cases ds; cases n) auto
next
  case (Cons x us)
  then obtain k where k: "n = Suc k" "length us < k" by (cases n) auto
  from Cons.prems(1) obtain it where it: "m x = Some it" "it_next it = hd ((us @ ds) @ [0])"
    and seg: "dseg m x (us @ ds) 0" by auto
  have "unread m (hd ((us @ ds) @ [0])) k = map (\<lambda>x. it_payload (the (m x))) us"
    using Cons.prems(2,4,5) by (intro Cons.IH [OF seg _ k(2)]) simp_all
  with it k(1) Cons.prems(2,4) show ?case by simp
qed

lemma lq_rep_items:
  assumes "lq_rep q us ds ss"
  shows "lq_items q = map (payload_at q) (rev us)"
proof -
  note rep = lq_repD [OF assms]
  have "\<forall>x \<in> set us. 0 < x \<and> x < lq_brk q" using rep(6) unfolding rep(5) by simp
  then have "set us \<subseteq> {1..<lq_brk q}" by auto
  then have "card (set us) \<le> lq_brk q - 1" using card_mono [of "{1..<lq_brk q}"] by simp
  then have "length us < lq_brk q" using rep(3,7) by (simp add: distinct_card)
  then show ?thesis
    using unread_dseg [OF rep(1,12), of "lq_brk q"] rep(2,8)
    by (simp add: lq_items_def flags_ok_def payload_at_def rev_map)
qed

definition lq_ok :: "'a link_queue \<Rightarrow> bool" where
  "lq_ok q \<longleftrightarrow> (\<exists>us ds ss. lq_rep q us ds ss)"

text \<open>The operations, as total functions on the states in which they succeed.\<close>

definition lq_put1 :: "'a \<Rightarrow> 'a link_queue \<Rightarrow> 'a link_queue" where
  "lq_put1 t q = snd (lq_put t q)"

definition lq_get1 :: "'a link_queue \<Rightarrow> 'a option \<times> 'a link_queue" where
  "lq_get1 q = (case lq_get q of Some (Inr r, q') \<Rightarrow> (r, q') | _ \<Rightarrow> (None, q))"

lemma lq_put_ok:
  assumes "lq_ok q"
  shows "lq_put t q = (Inr (), lq_put1 t q) \<and> lq_ok (lq_put1 t q) \<and> lq_items (lq_put1 t q) = lq_items q @ [t]"
proof -
  from assms obtain us ds ss where r: "lq_rep q us ds ss" by (auto simp: lq_ok_def)
  from lq_put_rep [OF r, of t] obtain x ss' q' where p: "lq_put t q = (Inr (), q')"
    and r': "lq_rep q' (x # us) ds ss'" "payload_at q' x = t" "\<forall>y \<in> set (us @ ds). payload_at q' y = payload_at q y"
    by blast
  then show ?thesis
    by (auto simp: lq_put1_def lq_rep_items [OF r] lq_rep_items [OF r'(1)] lq_ok_def rev_map)
qed

lemma lq_get_ok:
  assumes "lq_ok q"
  shows "\<exists>r q'. lq_get q = Some (Inr r, q') \<and> lq_get1 q = (r, q') \<and> lq_ok q' \<and>
    (case lq_items q of [] \<Rightarrow> r = None \<and> lq_items q' = [] | x # xs \<Rightarrow> r = Some x \<and> lq_items q' = xs)"
proof -
  from assms obtain us ds ss where r: "lq_rep q us ds ss" by (auto simp: lq_ok_def)
  from lq_get_rep [OF r] obtain v q' ds' ss' where g: "lq_get q = Some (Inr v, q')"
    and r': "lq_rep q' (butlast us) ds' ss'" "v = (if us = [] then None else Some (payload_at q (last us)))"
      "\<forall>y \<in> set (butlast us). payload_at q' y = payload_at q y" by blast
  have "case lq_items q of [] \<Rightarrow> v = None \<and> lq_items q' = [] | x # xs \<Rightarrow> v = Some x \<and> lq_items q' = xs"
    using r'(2,3) by (cases us rule: rev_cases) (simp_all add: lq_rep_items [OF r] lq_rep_items [OF r'(1)])
  with g r'(1) show ?thesis by (auto simp: lq_get1_def lq_ok_def)
qed

interpretation lq: fifo "lq_new g" lq_put1 lq_get1 lq_len lq_items lq_ok for g
proof unfold_locales
  show "lq_items (lq_new g) = []" using lq_rep_items [OF lq_new_rep] by simp
  show "lq_ok (lq_new g)" unfolding lq_ok_def using lq_new_rep by blast
  show "lq_len q = of_nat (length (lq_items q))" if "lq_ok q" for q :: "'a link_queue"
    using that lq_repD(11) lq_rep_items by (fastforce simp: lq_ok_def lq_len_def)
qed (use lq_get_ok lq_put_ok in fastforce)+

text \<open>A run of operations, which goes wrong if one of them does.\<close>

fun lq_run :: "'a qop list \<Rightarrow> ('a link_queue, 'a option list) poper" where
  "lq_run [] q = Some (Inr [], q)"
| "lq_run (Put x # ops) q = bindP (returns (lq_put x)) (\<lambda>_. lq_run ops) q"
| "lq_run (Get # ops) q = bindP lq_get (\<lambda>r. bindP (lq_run ops) (\<lambda>rs. returns (retO (r # rs)))) q"

lemma lq_run_total:
  "lq_ok q \<Longrightarrow> lq_run ops q = Some (Inr (fst (fifo_run lq_put1 lq_get1 ops q)), snd (fifo_run lq_put1 lq_get1 ops q))"
proof (induction ops q rule: lq_run.induct)
  case (2 x ops q)
  with lq_put_ok [of q x] show ?case by (simp add: bindP_def returns_def)
next
  case (3 ops q)
  from lq_get_ok [OF 3(2)] obtain r q' where "lq_get q = Some (Inr r, q')" "lq_get1 q = (r, q')" "lq_ok q'"
    by blast
  with 3(1) show ?case by (simp add: bindP_def returns_def split: prod.split)
qed simp

lemma lq_run_rep:
  assumes "lq_rep q us ds ss"
  shows "\<exists>rs q'. lq_run ops q = Some (Inr rs, q') \<and> lq_ok q' \<and>
    lq_sent q' = lq_sent q + of_nat (length (puts ops)) \<and>
    lq_rinside q' = lq_rinside q +
      (if us @ ds = [] then of_nat (length (takeWhile (\<lambda>op. op = Get) ops)) else 0)"
  using assms
proof (induction ops arbitrary: q us ds ss)
  case Nil
  then show ?case by (auto simp: lq_ok_def)
next
  case (Cons op ops)
  show ?case
  proof (cases op)
    case (Put t)
    from lq_put_rep [OF Cons.prems, of t] obtain x ss1 q1 where p: "lq_put t q = (Inr (), q1)"
      and r1: "lq_rep q1 (x # us) ds ss1" and s: "lq_rinside q1 = lq_rinside q" "lq_sent q1 = lq_sent q + 1" by blast
    from Cons.IH [OF r1] s p Put show ?thesis
      by (auto simp: bindP_def returns_def)
  next
    case Get
    from lq_get_rep [OF Cons.prems] obtain r q1 ds1 ss1 where g: "lq_get q = Some (Inr r, q1)"
      and r1: "lq_rep q1 (butlast us) ds1 ss1" and s: "lq_rinside q1 = lq_rinside q + of_bool (us @ ds = [])"
        "lq_sent q1 = lq_sent q" and e: "butlast us @ ds1 = [] \<longleftrightarrow> us @ ds = []" by blast
    from Cons.IH [OF r1, unfolded e] s g Get show ?thesis
      by (auto simp: bindP_def returns_def)
  qed
qed

lemma lq_free_all_outcome:
  "distinct ps \<Longrightarrow> set ps \<subseteq> dom (lq_mem q) \<Longrightarrow>
     lq_free_all ps q = (Inr (), q\<lparr>lq_mem := lq_mem q |` (- set ps)\<rparr>)"
proof (induction ps arbitrary: q)
  case Nil
  have "lq_mem q |` (- set []) = lq_mem q" by (simp add: restrict_map_def)
  then show ?case by simp
next
  case (Cons p ps)
  then obtain it where it: "lq_mem q p = Some it" by auto
  let ?q1 = "q\<lparr>lq_mem := (lq_mem q)(p := None)\<rparr>"
  have "lq_free_all (p # ps) q = lq_free_all ps ?q1" by (simp add: lq_free_def it)
  also have "\<dots> = (Inr (), ?q1\<lparr>lq_mem := lq_mem ?q1 |` (- set ps)\<rparr>)"
    by (rule Cons.IH) (use Cons.prems in auto)
  also have "lq_mem ?q1 |` (- set ps) = lq_mem q |` (- set (p # ps))"
    by (auto simp: restrict_map_def)
  finally show ?case by simp
qed

lemma lq_drop_outcome:
  assumes "lq_ok q"
  shows "\<exists>q'. lq_drop q = Some (Inr (), q') \<and> lq_mem q' = (\<lambda>_. None)"
proof -
  from assms obtain us ds ss where r: "lq_rep q us ds ss" by (auto simp: lq_ok_def)
  note rep = lq_repD [OF r]
  let ?q1 = "q\<lparr>lq_ptr := 0, lq_lst := 0\<rparr>"
  from dealloc_loop_outcome [of ?q1 0 "us @ ds" ss 0] rep obtain ss' c m where
    loop: "dealloc_loop (lq_ptr q) 0 ?q1 = Some (Inr (0 + of_nat (length (us @ ds))), ?q1\<lparr>lq_recycle := c, lq_mem := m\<rparr>)"
    and l: "pc_holds 10 c ss'" "distinct ss'" "set ss' \<subseteq> set ((us @ ds) @ ss)"
      "m = lq_mem q |` (- (set ((us @ ds) @ ss) - set ss'))" by auto
  define q2 where "q2 = ?q1\<lparr>lq_recycle := c, lq_mem := m,
    lq_needrel := lq_needrel q - of_nat (length (us @ ds))\<rparr>"
  have d: "deallocall q = Some (Inr (), q2)"
    using loop by (simp add: deallocall_def Let_def bindP_def returns_def lq_update_def q2_def)
  have dom: "dom m = set ss'" using rep(5) l(3) by (auto simp: l(4) dom_restrict)
  have "lq_free_all (rev ss') q2 = (Inr (), q2\<lparr>lq_mem := m |` (- set (rev ss'))\<rparr>)"
    using lq_free_all_outcome [of "rev ss'" q2] l(2) dom by (simp add: q2_def)
  moreover have "m |` (- set (rev ss')) = (\<lambda>_. None)"
    using dom by (auto simp: restrict_map_def fun_eq_iff dest: domI)
  moreover have "pc_drop (lq_recycle q2) = rev ss'" using pc_drop_frees [OF l(1)] by (simp add: q2_def)
  ultimately show ?thesis using d by (simp add: lq_drop_def bindP_def returns_def)
qed

lemma lq_ok_new: "lq_ok (lq_new g)"
  by (rule lq.ok_empty)

section \<open>Properties\<close>

text \<open>
  C30. The linked queue is a first-in first-out queue: in any run of puts and gets on a new queue no
  operation touches a null pointer or a freed item, every loop ends, and the results, the items
  left and the length are those of the list model.
\<close>

theorem link_queue_fifo:
  "\<exists>q. lq_run ops (lq_new g) = Some (Inr (fst (list_run ops [])), q) \<and>
     lq_items q = snd (list_run ops []) \<and> lq_len q = of_nat (length (snd (list_run ops [])))"
proof -
  obtain rs q where f: "fifo_run lq_put1 lq_get1 ops (lq_new g) = (rs, q)" by (meson surj_pair)
  have l: "list_run ops [] = (rs, lq_items q)" by (rule lq.run_from_empty [OF f])
  have "lq_ok q" using lq.run_refines [OF lq_ok_new f] by simp
  then have "lq_len q = of_nat (length (lq_items q))" by (rule lq.qlen_items)
  then show ?thesis using lq_run_total [OF lq_ok_new, of ops g] f l by simp
qed

text \<open>
  C33. No item leaks and none is freed twice: after any run, dropping the queue succeeds and leaves
  nothing allocated.
\<close>

theorem link_queue_frees_all:
  "\<exists>rs q q'. lq_run ops (lq_new g) = Some (Inr rs, q) \<and> lq_drop q = Some (Inr (), q') \<and>
     lq_mem q' = (\<lambda>_. None)"
  using lq_run_rep [OF lq_new_rep, of ops g] lq_drop_outcome by blast

text \<open>
  The counter \<open>rinside\<close>, of the threads inside \<open>get\<close>, is not 0 when none is: each get on a queue
  that never held an item leaves it one higher, for good, as it returns without counting down.
\<close>

lemma link_queue_rinside_leaks:
  "\<exists>rs q. lq_run ops (lq_new g) = Some (Inr rs, q) \<and>
     lq_rinside q = of_nat (length (takeWhile (\<lambda>op. op = Get) ops)) \<and> lq_sent q = of_nat (length (puts ops))"
proof -
  from lq_run_rep [OF lq_new_rep, of ops g] obtain rs q where
    "lq_run ops (lq_new g) = Some (Inr rs, q)" "lq_sent q = of_nat (length (puts ops))"
    "lq_rinside q = of_nat (length (takeWhile (\<lambda>op. op = Get) ops))"
    by (auto simp: lq_new_def)
  then show ?thesis by blast
qed




end
