(* ===== verification/Alloc_Mutex.thy ===== *)
theory Alloc_Mutex
  imports Link_Queue
begin

text \<open>
  \<open>allocmutex.rs\<close>: a mutex around a pointer to a boxed value, which \<open>lock\<close>, \<open>rawmutref\<close> and \<open>mutref\<close>
  hand out and \<open>free\<close> frees. The file is not part of the crate. Poisoning is left out: nothing can
  panic while the lock is held inside of it.
\<close>

section \<open>Operations\<close>

text \<open>The box the mutex was made for, who holds the lock, the memory, and the values that were dropped.\<close>

record 'a alloc_mutex =
  am_ptr :: nat
  am_holder :: "nat option"
  am_mem :: "nat \<Rightarrow> 'a option"
  am_dropped :: "'a list"

definition am_new :: "nat \<Rightarrow> 'a \<Rightarrow> 'a alloc_mutex" where
  "am_new r t = \<lparr>am_ptr = r, am_holder = None, am_mem = [r \<mapsto> t], am_dropped = []\<rparr>"

text \<open>
  Thread \<open>i\<close> locks; \<open>None\<close> if it waits for another thread. The result, a guard that dereferences to
  \<open>&mut T\<close>, is the pointer. \<open>am_unlock\<close> is the end of the guard.
\<close>

definition am_lock :: "nat \<Rightarrow> ('a alloc_mutex, nat) poper" where
  "am_lock i s =
     (case am_holder s of
        None \<Rightarrow> Some (Inr (am_ptr s), s\<lparr>am_holder := Some i\<rparr>)
      | Some j \<Rightarrow> if j = i then Some (Inl SelfDeadlock, s) else None)"

definition am_unlock :: "'a alloc_mutex \<Rightarrow> 'a alloc_mutex" where
  "am_unlock s = s\<lparr>am_holder := None\<rparr>"

definition am_rawmutref :: "nat \<Rightarrow> ('a alloc_mutex, nat) poper" where
  "am_rawmutref i = bindP (am_lock i) (\<lambda>p s. Some (Inr p, am_unlock s))"

definition am_mutref :: "nat \<Rightarrow> ('a alloc_mutex, nat) poper" where
  "am_mutref i = bindP (am_lock i) (\<lambda>p s. Some (Inr p, am_unlock s))"

text \<open>Reading and writing through a reference.\<close>

definition am_load :: "nat \<Rightarrow> ('a alloc_mutex, 'a) oper" where
  "am_load p s = (case am_mem s p of None \<Rightarrow> (Inl MemoryUnsafe, s) | Some x \<Rightarrow> (Inr x, s))"

definition am_store :: "nat \<Rightarrow> 'a \<Rightarrow> ('a alloc_mutex, unit) oper" where
  "am_store p x s =
     (case am_mem s p of
        None \<Rightarrow> (Inl MemoryUnsafe, s)
      | Some _ \<Rightarrow> (Inr (), s\<lparr>am_mem := (am_mem s)(p \<mapsto> x)\<rparr>))"

definition am_free :: "nat \<Rightarrow> ('a alloc_mutex, unit) poper" where
  "am_free i =
     bindP (am_mutref i) (\<lambda>p.
     bindP (returns (am_load p)) (\<lambda>x s.
       Some (Inr (), s\<lparr>am_dropped := am_dropped s @ [x], am_mem := (am_mem s)(p := None)\<rparr>)))"

section \<open>What they do\<close>

definition am_ok :: "'a alloc_mutex \<Rightarrow> bool" where
  "am_ok s \<longleftrightarrow>
     (\<exists>x. am_dropped s = [] \<and> am_mem s = [am_ptr s \<mapsto> x] \<or> am_dropped s = [x] \<and> am_mem s = Map.empty)"

lemma am_new_ok: "am_ok (am_new r t)"
  by (auto simp: am_ok_def am_new_def)

lemma am_mutref_eq:
  "am_mutref i s =
     (case am_holder s of
        None \<Rightarrow> Some (Inr (am_ptr s), s)
      | Some j \<Rightarrow> if j = i then Some (Inl SelfDeadlock, s) else None)"
  by (cases s) (auto simp: am_mutref_def bindP_def am_lock_def am_unlock_def split: option.splits)

lemma am_rawmutref_eq: "am_rawmutref = (am_mutref :: nat \<Rightarrow> ('a alloc_mutex, nat) poper)"
  by (simp add: fun_eq_iff am_rawmutref_def am_mutref_def)

text \<open>\<open>free\<close> drops the value and frees the box; a second one reads freed memory.\<close>

lemma am_free_eq:
  assumes "am_holder s = None"
  shows "am_free i s =
    (case am_mem s (am_ptr s) of
       None \<Rightarrow> Some (Inl MemoryUnsafe, s)
     | Some x \<Rightarrow> Some (Inr (), s\<lparr>am_dropped := am_dropped s @ [x], am_mem := (am_mem s)(am_ptr s := None)\<rparr>))"
  using assms
  by (simp add: am_free_def bindP_def am_mutref_eq returns_def am_load_def split: option.splits)

text \<open>The invariant of every operation, and that a reference is good exactly until the value is dropped.\<close>

lemma am_keeps_ok:
  assumes "am_ok s"
  shows "am_lock i s = Some (r, s1) \<Longrightarrow> am_ok s1" "am_ok (am_unlock s)"
    "am_mutref i s = Some (r, s1) \<Longrightarrow> am_ok s1" "am_ok (snd (am_load p s))" "am_ok (snd (am_store p x s))"
    "am_free i s = Some (u, s1) \<Longrightarrow> am_ok s1"
proof -
  show "am_lock i s = Some (r, s1) \<Longrightarrow> am_ok s1"
    using assms by (auto simp: am_lock_def am_ok_def split: option.splits if_splits)
  show "am_ok (am_unlock s)" using assms by (simp add: am_unlock_def am_ok_def)
  show "am_mutref i s = Some (r, s1) \<Longrightarrow> am_ok s1"
    using assms by (auto simp: am_mutref_eq split: option.splits if_splits)
  show "am_ok (snd (am_load p s))" using assms by (simp add: am_load_def split: option.splits)
  show "am_ok (snd (am_store p x s))"
  proof (cases "am_dropped s = [] \<and> p = am_ptr s")
    case True
    with assms have "am_store p x s = (Inr (), s\<lparr>am_mem := [p \<mapsto> x]\<rparr>)"
      by (auto simp: am_store_def am_ok_def)
    with True show ?thesis by (auto simp: am_ok_def)
  next
    case False
    with assms have "am_mem s p = None" by (auto simp: am_ok_def)
    with assms show ?thesis by (simp add: am_store_def)
  qed
  assume f: "am_free i s = Some (u, s1)"
  show "am_ok s1"
  proof (cases "am_holder s")
    case None
    with f assms show ?thesis
      by (auto simp: am_free_eq am_ok_def fun_eq_iff split: option.splits if_splits)
  next
    case (Some j)
    with f assms show ?thesis by (auto simp: am_free_def bindP_def am_mutref_eq split: if_splits)
  qed
qed

lemma am_reference_good:
  assumes "am_ok s"
  shows "am_dropped s = [] \<longleftrightarrow> (\<exists>x. am_load (am_ptr s) s = (Inr x, s))"
    and "am_dropped s = [] \<longleftrightarrow> fst (am_store (am_ptr s) x s) = Inr ()"
  using assms by (auto simp: am_ok_def am_load_def am_store_def split: option.splits if_splits)

text \<open>The lock does not protect the value: a thread with a reference from \<open>mutref\<close> needs none.\<close>

lemma am_reference_unprotected:
  assumes "am_ok s" and "am_dropped s = []" and "am_mutref i s = Some (Inr p, s1)" and "am_lock j s1 = Some (Inr p', s2)"
  shows "p' = p \<and> am_load p (snd (am_store p x s2)) = (Inr x, snd (am_store p x s2)) \<and>
    am_holder (snd (am_store p x s2)) = Some j"
  using assms
  by (auto simp: am_mutref_eq am_lock_def am_ok_def am_store_def am_load_def split: option.splits if_splits)

end
