(* ===== verification/Channel.thy ===== *)
theory Channel
  imports Lifetime
begin

text \<open>
  \<open>src/compat.rs\<close>: a channel in the style of the standard library, made of a net with two endpoints,
  one in the sender and one in the receiver. Values travel as sync messages; the receiver throws
  away every other message that reaches its endpoint. The file is not compiled into the crate
  (\<open>lib.rs\<close> has its \<open>mod\<close> line commented out), and calls \<open>recvorblock\<close> with a timespec where a
  duration is expected; the model reads that argument as the duration of three seconds it names.

  What is proved: whatever else is sent to the receiver's endpoint, the channel is a first-in
  first-out queue of its values; a receiver drains the values sent before the sender was dropped
  and then sees the disconnection; a sender sees the receiver's.
\<close>

section \<open>The proxies\<close>

record sender_proxy =
  sp_ep :: nat

record receiver_proxy =
  rp_ep :: nat

record messages_iterator =
  mi_proxy :: receiver_proxy

definition sender_clone :: "sender_proxy \<Rightarrow> world \<Rightarrow> sender_proxy \<times> world" where
  "sender_clone s w = (\<lparr>sp_ep = sp_ep s\<rparr>, ep_clone (sp_ep s) w)"

definition receiver_clone :: "receiver_proxy \<Rightarrow> world \<Rightarrow> receiver_proxy \<times> world" where
  "receiver_clone r w = (\<lparr>rp_ep = rp_ep r\<rparr>, ep_clone (rp_ep r) w)"

definition sender_getendpoint :: "sender_proxy \<Rightarrow> nat" where
  "sender_getendpoint s = sp_ep s"

definition receiver_getendpoint :: "receiver_proxy \<Rightarrow> nat" where
  "receiver_getendpoint r = rp_ep r"

text \<open>\<open>Result<(), T>\<close> is \<open>Inl\<close> of the value that was not sent, or \<open>Inr ()\<close>.\<close>

definition send_opt :: "sender_proxy \<Rightarrow> rtype \<Rightarrow> cell list \<Rightarrow> (world, cell list + unit) oper" where
  "send_opt s T t =
     bindO (getpeercount (sp_ep s))
       (\<lambda>n. if n < 2 then retO (Inl t)
             else bindO (sendsynctype (sp_ep s) T t) (\<lambda>_. retO (Inr ())))"

definition proxy_send :: "sender_proxy \<Rightarrow> rtype \<Rightarrow> cell list \<Rightarrow> (world, unit) oper" where
  "proxy_send s T t =
     bindO (send_opt s T t) (\<lambda>r. case r of Inl _ \<Rightarrow> failO Disconnected | Inr _ \<Rightarrow> retO ())"

datatype try_recv_error = TryEmpty | TryDisconnected

text \<open>A receive takes something off the queue whenever it returns a message.\<close>

lemma recv_shorter:
  assumes "ep_recv st = (Inr (Ok m), st')"
  shows "length (vec (messages (snd st'))) < length (vec (messages (snd st)))"
  using assms
proof (induction st rule: ep_recv.induct)
  case (1 h e)
  show ?case
  proof (cases "vec (messages e)")
    case Nil
    with "1.prems" show ?thesis by (simp add: recv_empty)
  next
    case (Cons m0 ms)
    then have g: "sq_get (messages e) = (Some m0, \<lparr>vec = ms\<rparr>)" by simp
    have IH: "length (vec (messages (snd st'))) < length ms"
      if "ep_recv (h3, e\<lparr>messages := \<lparr>vec = ms\<rparr>, memoryused := memoryused e - sz\<rparr>) = (Inr (Ok m), st')"
        and "message_dup_ifok m0 h = (Inr m1, h1)" and "message_cap m1 h1 = (Inr sz, h2)"
        and "payload m1 = Sync s" and "takeasvalid s h2 = (False, h3)" for h1 m1 sz h2 s h3
      using "1.IH" [OF g [symmetric] refl refl that(2) [symmetric] refl that(3) [symmetric] refl refl
          that(4) that(5) [symmetric] refl] that(1) by simp
    show ?thesis
      using "1.prems" g Cons
      by (subst (asm) ep_recv.simps)
        (auto simp: Let_def less_Suc_eq split: prod.splits sum.splits payload.splits bool.splits dest: IH)
  qed
qed

lemma at_recv_shorter:
  "at_ep i ep_recv w = (Inr (Ok m), w') \<Longrightarrow> length (queue w' i) < length (queue w i)"
  by (auto simp: at_ep_def queue_def split: prod.splits dest: recv_shorter)

function try_recv ::
    "receiver_proxy \<Rightarrow> rtype \<Rightarrow> (world, try_recv_error + cell list) oper" where
  "try_recv r T w =
     (case at_ep (rp_ep r) endpoint_recv w of
        (Inl f, w1) \<Rightarrow> (Inl f, w1)
      | (Inr (Err _), w1) \<Rightarrow> (Inr (Inl TryEmpty), w1)
      | (Inr (Ok msg), w1) \<Rightarrow>
          if is_raw msg then try_recv r T w1
          else if \<not> is_type T msg then try_recv r T w1
          else bindO (on_heap (typeunwrap T msg)) (\<lambda>t. retO (Inr t)) w1)"
  by pat_completeness auto
termination
proof (relation "measure (\<lambda>(r, T, w). length (queue w (rp_ep r)))", goal_cases)
  case 1
  then show ?case by simp
next
  case 2
  then show ?case by (auto simp: endpoint_recv_def dest: at_recv_shorter [OF sym])
next
  case 3
  then show ?case by (auto simp: endpoint_recv_def dest: at_recv_shorter [OF sym])
qed

declare try_recv.simps [simp del]

text \<open>
  The blocking receives, round by round: what the rest of the program did before the round, the
  waits inside it, and what it did between a timeout and the look at the number of peers. \<open>None\<close>:
  still blocked when the rounds or the waits end.
\<close>

record rx_round =
  rd_before :: "world \<Rightarrow> world"
  rd_waits :: "wait_event list"
  rd_late :: "world \<Rightarrow> world"

definition block_at ::
    "nat \<Rightarrow> (ep_state \<Rightarrow> ((failure + 'a) \<times> ep_state) option) \<Rightarrow> world \<Rightarrow> ((failure + 'a) \<times> world) option" where
  "block_at i f w =
     (case f (heap w, eps w i) of
        None \<Rightarrow> None
      | Some (r, (h, e)) \<Rightarrow> Some (r, w\<lparr>heap := h, eps := (eps w)(i := e)\<rparr>))"

fun proxy_recv ::
    "receiver_proxy \<Rightarrow> rtype \<Rightarrow> rx_round list \<Rightarrow> world \<Rightarrow> ((failure + cell list) \<times> world) option" where
  "proxy_recv r T [] w = None"
| "proxy_recv r T (rd # rds) w =
     (case block_at (rp_ep r) (endpoint_recvorblockforever (rd_waits rd)) (rd_before rd w) of
        None \<Rightarrow> None
      | Some (Inl f, w1) \<Rightarrow> Some (Inl f, w1)
      | Some (Inr (Err _), w1) \<Rightarrow> Some (Inl RecvIoError, w1)
      | Some (Inr (Ok msg), w1) \<Rightarrow>
          if is_raw msg then proxy_recv r T rds w1
          else if \<not> is_type T msg then proxy_recv r T rds w1
          else Some (on_heap (typeunwrap T msg) w1))"

text \<open>\<open>Result<T, ()>\<close>: \<open>Inl ()\<close> is the disconnection.\<close>

fun recv_opt ::
    "receiver_proxy \<Rightarrow> rtype \<Rightarrow> rx_round list \<Rightarrow> world \<Rightarrow> ((failure + unit + cell list) \<times> world) option" where
  "recv_opt r T [] w = None"
| "recv_opt r T (rd # rds) w =
     (case block_at (rp_ep r) (endpoint_recvorblock (rd_waits rd)) (rd_before rd w) of
        None \<Rightarrow> None
      | Some (Inl f, w1) \<Rightarrow> Some (Inl f, w1)
      | Some (Inr (Err _), w1) \<Rightarrow>
          (case getpeercount (rp_ep r) (rd_late rd w1) of
             (Inl f, w2) \<Rightarrow> Some (Inl f, w2)
           | (Inr n, w2) \<Rightarrow> if n < 2 then Some (Inr (Inl ()), w2) else recv_opt r T rds w2)
      | Some (Inr (Ok msg), w1) \<Rightarrow>
          if is_raw msg then recv_opt r T rds w1
          else if \<not> is_type T msg then recv_opt r T rds w1
          else Some (bindO (on_heap (typeunwrap T msg)) (\<lambda>t. retO (Inr t)) w1))"

definition proxy_iter :: "receiver_proxy \<Rightarrow> world \<Rightarrow> messages_iterator \<times> world" where
  "proxy_iter r w = (case receiver_clone r w of (r', w1) \<Rightarrow> (\<lparr>mi_proxy = r'\<rparr>, w1))"

definition iter_next ::
    "messages_iterator \<Rightarrow> rtype \<Rightarrow> rx_round list \<Rightarrow> world \<Rightarrow> ((failure + cell list option) \<times> world) option" where
  "iter_next it T rds w =
     (case recv_opt (mi_proxy it) T rds w of
        None \<Rightarrow> None
      | Some (Inl f, w1) \<Rightarrow> Some (Inl f, w1)
      | Some (Inr (Inr t), w1) \<Rightarrow> Some (Inr (Some t), w1)
      | Some (Inr (Inl _), w1) \<Rightarrow> Some (Inr None, w1))"

text \<open>The handle on the net itself goes out of scope; its endpoints keep the net.\<close>

definition channel :: "(world, sender_proxy \<times> receiver_proxy) oper" where
  "channel w =
     (case net_new 200 w of (n, w1) \<Rightarrow>
        bindO (new_endpoint n)
          (\<lambda>epa. bindO (new_endpoint n)
            (\<lambda>epb. retO (\<lparr>sp_ep = epa\<rparr>, \<lparr>rp_ep = epb\<rparr>))) w1)"

text \<open>A \<open>for\<close> loop over the iterator that collects what it yields; the rounds of each call.\<close>

fun iter_collect ::
    "messages_iterator \<Rightarrow> rtype \<Rightarrow> rx_round list list \<Rightarrow> world \<Rightarrow> ((failure + cell list list) \<times> world) option" where
  "iter_collect it T [] w = None"
| "iter_collect it T (rds # rdss) w =
     (case iter_next it T rds w of
        None \<Rightarrow> None
      | Some (Inl f, w1) \<Rightarrow> Some (Inl f, w1)
      | Some (Inr None, w1) \<Rightarrow> Some (Inr [], w1)
      | Some (Inr (Some t), w1) \<Rightarrow>
          (case iter_collect it T rdss w1 of
             None \<Rightarrow> None
           | Some (Inl f, w2) \<Rightarrow> Some (Inl f, w2)
           | Some (Inr ts, w2) \<Rightarrow> Some (Inr (t # ts), w2)))"

section \<open>What the receiver's queue holds\<close>

text \<open>The value in a message's buffer, read at type \<open>T\<close>.\<close>

definition val_of :: "rtype \<Rightarrow> heap \<Rightarrow> message \<Rightarrow> cell list" where
  "val_of T h m = window 0 (ty_size T) (rbuf (guarded (raws h (buffer_of m))))"

definition flags :: "message list \<Rightarrow> nat list" where
  "flags ms = concat (map (\<lambda>m. case payload m of Sync s \<Rightarrow> [sm_valid s] | _ \<Rightarrow> []) ms)"

lemma flags_simps [simp]:
  "flags [] = []"
  "flags (m # ms) = (case payload m of Sync s \<Rightarrow> [sm_valid s] | _ \<Rightarrow> []) @ flags ms"
  "flags (xs @ ys) = flags xs @ flags ys"
  by (simp_all add: flags_def)

text \<open>
  Messages that can be received: their buffers exist and are not poisoned, no sync message among
  them was taken or is there twice, and those of type \<open>T\<close> hold a value of that type.
\<close>

definition readable :: "rtype \<Rightarrow> heap \<Rightarrow> message \<Rightarrow> bool" where
  "readable T h m \<longleftrightarrow>
     buffer_of m < raw_lim h \<and> \<not> poisoned (raws h (buffer_of m)) \<and> \<not> stale h m \<and>
     (is_type T m \<longrightarrow> stored T (val_of T h m) (guarded (raws h (buffer_of m))))"

definition mail_ok :: "rtype \<Rightarrow> heap \<Rightarrow> message list \<Rightarrow> bool" where
  "mail_ok T h ms \<longleftrightarrow>
     (\<forall>m \<in> set ms. readable T h m) \<and> (\<forall>v \<in> set (flags ms). v < valid_lim h) \<and> distinct (flags ms)"

definition rx_ok :: "rtype \<Rightarrow> nat \<Rightarrow> world \<Rightarrow> bool" where
  "rx_ok T i w \<longleftrightarrow>
     heap_wf (heap w) \<and> \<not> poisoned (waitmutex (eps w i)) \<and> mail_ok T (heap w) (queue w i)"

text \<open>The abstract channel: the values of type \<open>T\<close> in the queue, in order.\<close>

definition items :: "rtype \<Rightarrow> nat \<Rightarrow> world \<Rightarrow> cell list list" where
  "items T i w = map (val_of T (heap w)) (filter (is_type T) (queue w i))"

text \<open>What a receive leaves alone.\<close>

definition rx_frame :: "nat \<Rightarrow> world \<Rightarrow> world \<Rightarrow> bool" where
  "rx_frame i w w' \<longleftrightarrow>
     nets w' = nets w \<and> net_lim w' = net_lim w \<and> ep_lim w' = ep_lim w \<and>
     length (queue w' i) \<le> length (queue w i) \<and>
     (\<exists>q u. eps w' = (eps w)(i := (eps w i)\<lparr>messages := q, memoryused := u\<rparr>))"

lemma rx_frame_refl [simp]: "rx_frame i w w"
proof -
  have "eps w = (eps w)(i := (eps w i)\<lparr>messages := messages (eps w i), memoryused := memoryused (eps w i)\<rparr>)"
    by simp
  then show ?thesis unfolding rx_frame_def by blast
qed

lemma rx_frame_trans: "rx_frame i w1 w2 \<Longrightarrow> rx_frame i w2 w3 \<Longrightarrow> rx_frame i w1 w3"
  by (fastforce simp: rx_frame_def)

lemma is_type_not_raw: "is_type T m \<Longrightarrow> \<not> is_raw m"
  by (auto simp: is_type_def is_raw_def is_sync_def is_clone_def split: payload.splits if_splits)

lemma is_type_iff:
  "payload m = Sync s \<Longrightarrow> is_type T m \<longleftrightarrow> ty_id T = sm_tyid s"
  "payload m = Clone c \<Longrightarrow> is_type T m \<longleftrightarrow> ty_id T = cm_tyid c"
  "payload m = Raw r \<Longrightarrow> \<not> is_type T m"
  by (simp_all add: is_type_def get_syncref_def sync_is_type_def get_cloneref_def clone_is_type_def)

lemma is_type_received [simp]: "is_type T (fst (received m h)) = is_type T m"
  by (auto simp: received_def is_type_iff split: payload.splits)

lemma readable_received:
  assumes "readable T h x" and "\<And>s v. payload m = Sync s \<Longrightarrow> payload x = Sync v \<Longrightarrow> sm_valid s \<noteq> sm_valid v"
  shows "readable T (snd (received m h)) x \<and> val_of T (snd (received m h)) x = val_of T h x"
proof -
  have b: "raws (snd (received m h)) (buffer_of x) = raws h (buffer_of x)"
    and l: "raw_lim h \<le> raw_lim (snd (received m h))"
    using assms(1) by (auto simp: readable_def received_def split: payload.splits)
  have "stale (snd (received m h)) x = stale h x"
    by (auto simp: received_def stale_def split: payload.splits dest!: assms(2))
  with assms(1) b l show ?thesis by (simp add: readable_def val_of_def)
qed

lemma mail_received:
  assumes "mail_ok T h (m # ms)"
  shows "mail_ok T (snd (received m h)) ms \<and> (\<forall>x \<in> set ms. val_of T (snd (received m h)) x = val_of T h x)"
proof -
  have "sm_valid s \<noteq> sm_valid v" if "payload m = Sync s" "x \<in> set ms" "payload x = Sync v" for s v x
  proof -
    have "sm_valid v \<in> set (flags ms)" using that(2,3) by (force simp: flags_def)
    with assms that(1) show ?thesis by (auto simp: mail_ok_def)
  qed
  then have "readable T (snd (received m h)) x \<and> val_of T (snd (received m h)) x = val_of T h x"
    if "x \<in> set ms" for x
    using assms that by (intro readable_received) (auto simp: mail_ok_def)
  moreover have "valid_lim (snd (received m h)) = valid_lim h"
    by (simp add: received_def split: payload.splits)
  ultimately show ?thesis using assms by (simp add: mail_ok_def)
qed

lemma typeunwrap_readable:
  assumes "readable T h m" and "is_type T m"
  shows "typeunwrap T (fst (received m h)) (snd (received m h)) = (Inr (val_of T h m), snd (received m h))"
proof -
  have "raws (snd (received m h)) = raws h"
    using assms(2) by (auto simp: received_def is_type_iff split: payload.splits)
  with assms(1) assms(2)
  have "raw_readstructunsafe (buffer_of m) 0 (ty_size T) (snd (received m h)) =
      (Inr (val_of T h m), snd (received m h))"
    by (intro read_stored) (simp_all add: readable_def)
  with assms(2) show ?thesis
    by (cases "payload m")
      (auto simp: received_def typeunwrap_def is_type_iff sync_get_payload_def clone_get_payload_def buffer_of_def)
qed

text \<open>One receive of the endpoint.\<close>

lemma recv_step:
  assumes "rx_ok T i w" and q: "queue w i = m # ms"
  obtains m' w1 where "at_ep i ep_recv w = (Inr (Ok m'), w1)" "rx_ok T i w1" "queue w1 i = ms"
    "rx_frame i w w1" "is_type T m' = is_type T m"
    "is_type T m \<longrightarrow> on_heap (typeunwrap T m') w1 = (Inr (val_of T (heap w) m), w1)"
    "items T i w = (if is_type T m then [val_of T (heap w) m] else []) @ items T i w1"
proof -
  let ?h = "heap w" and ?e = "eps w i"
  let ?m' = "fst (received m ?h)" and ?h' = "snd (received m ?h)"
  let ?e' = "?e\<lparr>messages := \<lparr>vec = ms\<rparr>, memoryused := memoryused ?e - rcap (guarded (raws ?h (buffer_of m)))\<rparr>"
  let ?w1 = "w\<lparr>heap := ?h', eps := (eps w)(i := ?e')\<rparr>"
  have ok: "heap_wf ?h" "mail_ok T ?h (m # ms)" "readable T ?h m"
    using assms by (simp_all add: rx_ok_def mail_ok_def)
  have r: "at_ep i ep_recv w = (Inr (Ok ?m'), ?w1)"
    using recv_fresh [of ?e m ms ?h] q ok by (simp add: at_ep_def queue_def readable_def)
  note mr = mail_received [OF ok(2)]
  have qw: "queue ?w1 i = ms" by (simp add: queue_def)
  have "rx_ok T i ?w1"
    using assms(1) mr ok(1) by (simp add: rx_ok_def qw received_frame(1))
  moreover have "rx_frame i w ?w1" using q by (auto simp: rx_frame_def qw)
  moreover have "items T i w = (if is_type T m then [val_of T ?h m] else []) @ items T i ?w1"
    using mr by (auto simp: items_def q qw)
  ultimately show ?thesis
    using that [OF r _ qw] typeunwrap_readable [OF ok(3)] by (simp add: on_heap_def)
qed

text \<open>
  The receives of the channel are loops over that step, so they share an induction: nothing is
  left, or the next message is another one and is thrown away, or it is the next value.
\<close>

lemma drain_induct [consumes 1, case_names empty other found]:
  assumes "rx_ok T i w"
    and empty: "\<And>w. rx_ok T i w \<Longrightarrow> queue w i = [] \<Longrightarrow> items T i w = [] \<Longrightarrow> P w"
    and other: "\<And>w m w1. rx_ok T i w \<Longrightarrow> queue w i \<noteq> [] \<Longrightarrow> at_ep i ep_recv w = (Inr (Ok m), w1) \<Longrightarrow>
      \<not> is_type T m \<Longrightarrow> rx_ok T i w1 \<Longrightarrow> rx_frame i w w1 \<Longrightarrow> items T i w1 = items T i w \<Longrightarrow>
      length (queue w i) = Suc (length (queue w1 i)) \<Longrightarrow> P w1 \<Longrightarrow> P w"
    and found: "\<And>w m w1 t. rx_ok T i w \<Longrightarrow> queue w i \<noteq> [] \<Longrightarrow> at_ep i ep_recv w = (Inr (Ok m), w1) \<Longrightarrow>
      is_type T m \<Longrightarrow> rx_ok T i w1 \<Longrightarrow> rx_frame i w w1 \<Longrightarrow> items T i w = t # items T i w1 \<Longrightarrow>
      on_heap (typeunwrap T m) w1 = (Inr t, w1) \<Longrightarrow> P w"
  shows "P w"
  using assms(1)
proof (induction "queue w i" arbitrary: w)
  case Nil
  then show ?case by (intro empty) (simp_all add: items_def)
next
  case (Cons m ms)
  obtain m' w1 where s: "at_ep i ep_recv w = (Inr (Ok m'), w1)" "rx_ok T i w1" "queue w1 i = ms"
    "rx_frame i w w1" "is_type T m' = is_type T m"
    "is_type T m \<longrightarrow> on_heap (typeunwrap T m') w1 = (Inr (val_of T (heap w) m), w1)"
    "items T i w = (if is_type T m then [val_of T (heap w) m] else []) @ items T i w1"
    using recv_step [OF Cons.prems Cons.hyps(2) [symmetric]] .
  have n: "queue w i \<noteq> []" "length (queue w i) = Suc (length (queue w1 i))"
    using Cons.hyps(2) s(3) by (metis list.distinct(1), metis length_Cons)
  show ?case
  proof (cases "is_type T m")
    case True
    with s show ?thesis by (intro found [OF Cons.prems n(1) s(1)]) simp_all
  next
    case False
    with s Cons.hyps(1) [of w1] show ?thesis by (intro other [OF Cons.prems n(1) s(1) _ _ _ _ n(2)]) simp_all
  qed
qed

text \<open>A blocking receive does not wait when there is a message.\<close>

lemma block_at_found:
  assumes "rx_ok T i w" and "at_ep i ep_recv w = (Inr (Ok m), w1)"
  shows "block_at i (endpoint_recvorblock ws) w = Some (Inr (Ok m), w1)"
    and "block_at i (endpoint_recvorblockforever ws) w = Some (Inr (Ok m), w1)"
  using assms
  by (auto simp: at_ep_def block_at_def endpoint_recvorblock_def endpoint_recvorblockforever_def
      recv_locked_def rx_ok_def split: prod.splits)

lemma at_recv_empty:
  "queue w i = [] \<Longrightarrow> at_ep i ep_recv w = (Inr (Err \<lparr>code = NoMessages\<rparr>), w)"
  by (simp add: queue_def at_ep_def recv_empty)

text \<open>A round in which the other threads do nothing and a wait times out.\<close>

definition quiet_round :: "rx_round \<Rightarrow> bool" where
  "quiet_round rd \<longleftrightarrow>
     rd_before rd = id \<and> rd_late rd = id \<and> list_all (\<lambda>x. we_env x = id) (rd_waits rd) \<and>
     \<not> list_all we_notified (rd_waits rd)"

lemma timeout_loop_quiet:
  assumes "list_all (\<lambda>x. we_env x = id) ws" and "\<not> list_all we_notified ws"
    and "vec (messages e) = []" and "\<not> poisoned (waitmutex e)"
  shows "timeout_loop ws (h, e) = Some (Inr (Err \<lparr>code = TimedOut\<rparr>), (h, e))"
  using assms by (induction ws) (auto simp: recv_locked_def recv_empty Let_def)

lemma block_at_quiet:
  assumes "rx_ok T i w" and "queue w i = []" and "quiet_round rd"
  shows "block_at i (endpoint_recvorblock (rd_waits rd)) w = Some (Inr (Err \<lparr>code = TimedOut\<rparr>), w)"
  using assms timeout_loop_quiet [of "rd_waits rd" "eps w i" "heap w"]
  by (simp add: block_at_def endpoint_recvorblock_def recv_locked_def recv_empty queue_def rx_ok_def
      quiet_round_def)

lemma try_recv_items:
  assumes "rx_ok T (rp_ep r) w"
  shows "\<exists>w1. rx_ok T (rp_ep r) w1 \<and> rx_frame (rp_ep r) w w1 \<and>
    (case items T (rp_ep r) w of
       [] \<Rightarrow> try_recv r T w = (Inr (Inl TryEmpty), w1) \<and> items T (rp_ep r) w1 = []
     | t # ts \<Rightarrow> try_recv r T w = (Inr (Inr t), w1) \<and> items T (rp_ep r) w1 = ts)"
  using assms
proof (induction rule: drain_induct)
  case (empty w)
  then show ?case
    by (intro exI [of _ w]) (simp add: try_recv.simps endpoint_recv_def at_recv_empty)
next
  case (other w m w1)
  have "try_recv r T w = try_recv r T w1"
    using other.hyps by (subst try_recv.simps) (simp add: endpoint_recv_def)
  with other.IH other.hyps show ?case
    by (auto split: list.splits intro: rx_frame_trans)
next
  case (found w m w1 t)
  then show ?case
    by (intro exI [of _ w1]) (simp add: try_recv.simps endpoint_recv_def is_type_not_raw)
qed

section \<open>Sending\<close>

text \<open>The sender's side: the two endpoints are those of the net, and the receiver's is not limited.\<close>

definition tx_ok :: "nat \<Rightarrow> nat \<Rightarrow> world \<Rightarrow> bool" where
  "tx_ok j i w \<longleftrightarrow>
     i \<noteq> j \<and> net_of w i = net_of w j \<and> ready (net_of w j) w \<and>
     endpoints (guarded (nets w (net_i (net_of w j)))) = [j, i] \<and>
     limitpending (eps w i) = 0 \<and> limitmemory (eps w i) = 0 \<and>
     sid (address (eps w i)) = net_sid (net_of w i) \<and>
     eid (address (eps w i)) \<noteq> eid (address (eps w j))"

text \<open>Use of the channel keeps its handles, and adds at most \<open>n\<close> messages.\<close>

definition used :: "nat \<Rightarrow> nat \<Rightarrow> world \<Rightarrow> world \<Rightarrow> bool" where
  "used n i w w' \<longleftrightarrow>
     (\<forall>k. k \<noteq> i \<longrightarrow> eps w' k = eps w k) \<and> same_life (eps w i) (eps w' i) \<and>
     length (queue w' i) \<le> length (queue w i) + n"

lemma used_refl [simp]: "used n i w w"
  by (simp add: used_def)

lemma used_trans: "used m i w1 w2 \<Longrightarrow> used n i w2 w3 \<Longrightarrow> used (m + n) i w1 w3"
  by (auto simp: used_def same_life_def)

lemma used_frame: "rx_frame i w w' \<Longrightarrow> used n i w w'"
  by (auto simp: used_def rx_frame_def same_life_def)

lemma used_heap: "used n i (w\<lparr>heap := h\<rparr>) w' = used n i w w'"
  by (simp add: used_def queue_def)

lemma tx_ok_frame: "tx_ok j i w \<Longrightarrow> rx_frame i w w' \<Longrightarrow> tx_ok j i w'"
  by (auto simp: tx_ok_def rx_frame_def net_of_def ready_def)

lemma readable_grows:
  assumes "readable T h m" and "heap_grows h h'" and "set (flags [m]) \<subseteq> {..<valid_lim h}"
  shows "readable T h' m \<and> val_of T h' m = val_of T h m"
  using assms by (auto simp: readable_def heap_grows_def val_of_def stale_def split: payload.splits)

lemma mail_grows:
  assumes "mail_ok T h ms" and "heap_grows h h'"
  shows "mail_ok T h' ms \<and> (\<forall>m \<in> set ms. val_of T h' m = val_of T h m)"
proof -
  have "set (flags [m]) \<subseteq> {..<valid_lim h}" if "m \<in> set ms" for m
    using assms(1) that by (auto simp: mail_ok_def flags_def)
  with assms have "readable T h' m \<and> val_of T h' m = val_of T h m" if "m \<in> set ms" for m
    using that by (intro readable_grows) (auto simp: mail_ok_def)
  with assms show ?thesis by (auto simp: mail_ok_def heap_grows_def)
qed

lemma mail_ok_snoc:
  "mail_ok T h (ms @ [m]) \<longleftrightarrow>
     mail_ok T h ms \<and> readable T h m \<and> (\<forall>v \<in> set (flags [m]). v < valid_lim h \<and> v \<notin> set (flags ms))"
  by (auto simp: mail_ok_def split: payload.splits)

lemma flags_below: "mail_ok T h ms \<Longrightarrow> set (flags ms) \<subseteq> {..<valid_lim h}"
  by (auto simp: mail_ok_def)

lemma rx_ok_grows:
  assumes "rx_ok T i w" and "heap_grows (heap w) h"
  shows "rx_ok T i (w\<lparr>heap := h\<rparr>) \<and> items T i (w\<lparr>heap := h\<rparr>) = items T i w"
proof -
  have "queue (w\<lparr>heap := h\<rparr>) i = queue w i" by (simp add: queue_def)
  with assms mail_grows [of T "heap w" "queue w i" h] show ?thesis
    by (simp add: rx_ok_def items_def heap_grows_def)
qed

text \<open>A broadcast from the sender's endpoint reaches the receiver's, and only it.\<close>

lemma broadcast:
  assumes tx: "tx_ok j i w" and rx: "rx_ok T i w"
    and dst: "dstsid m = 1" "dsteid m = 0" "\<not> canloop m"
    and m: "posted m (heap w) = (m', h')" and wf: "heap_wf h'" and free: "\<not> poisoned (raws (heap w) (buffer_of m))"
    and mail: "mail_ok T h' (queue w i @ [m'])"
    and same: "\<forall>x \<in> set (queue w i). val_of T h' x = val_of T (heap w) x"
  shows "\<exists>w1. ep_send j m w = (Inr 1, w1) \<and> tx_ok j i w1 \<and> rx_ok T i w1 \<and> used 1 i w w1 \<and>
    items T i w1 = items T i w @ (if is_type T m then [val_of T h' m'] else [])"
proof -
  let ?src = "\<lambda>m. m\<lparr>srcsid := getsid (eps w j), srceid := geteid (eps w j)\<rparr>"
  let ?m = "?src m'"
  let ?w1 = "w\<lparr>heap := h', eps := (eps w)(i := wakeonewaiter (enqueue h' ?m (eps w i)))\<rparr>"
  have p: "posted (?src m) (heap w) = (?m, h')" and t: "is_type T m' = is_type T m"
    and d: "dstsid ?m = 1" "dsteid ?m = 0" "\<not> canloop ?m"
    using m dst by (auto simp: posted_def is_type_iff split: payload.splits)
  have b: "buffer_of (?src m) = buffer_of m" by (simp add: buffer_of_def)
  have like: "val_of T h' ?m = val_of T h' m'" "readable T h' ?m = readable T h' m'"
    "flags (queue w i @ [?m]) = flags (queue w i @ [m'])" "is_type T ?m = is_type T m'"
    by (simp_all add: val_of_def readable_def buffer_of_def stale_def is_type_def is_sync_def is_clone_def
        get_syncref_def get_cloneref_def)
  have "accepts (eps w i) ?m" "\<not> accepts (eps w j) ?m"
    using tx d by (auto simp: tx_ok_def accepts_def addressed_def has_room_def getsid_def geteid_def net_of_def)
  then have s: "ep_send j m w = (Inr 1, ?w1)"
    using ep_send_eq [of w j m, unfolded p] tx rx free
    by (auto simp: tx_ok_def rx_ok_def Let_def fun_eq_iff intro!: arg_cong [where f = "\<lambda>f. w\<lparr>heap := h', eps := f\<rparr>"])
  have q: "queue ?w1 i = queue w i @ [?m]"
    by (simp add: queue_def wakeonewaiter_def enqueue_def)
  have "tx_ok j i ?w1"
    using tx by (auto simp: tx_ok_def ready_def net_of_def wakeonewaiter_def enqueue_def)
  moreover have "rx_ok T i ?w1"
    using rx wf mail like by (simp add: rx_ok_def q) (simp add: mail_ok_def wakeonewaiter_def enqueue_def)
  moreover have "items T i ?w1 = items T i w @ (if is_type T m then [val_of T h' m'] else [])"
    using same like t by (simp add: items_def q)
  moreover have "used 1 i w ?w1"
    using q by (simp add: used_def same_life_def wakeonewaiter_def enqueue_def)
  ultimately show ?thesis using s by blast
qed

text \<open>What the program may send from the sender's endpoint while the channel is in use.\<close>

datatype send_cmd =
    SendSync rtype "cell list"
  | SendClone rtype "cell list"
  | SendRaw usize

fun send_exec :: "nat \<Rightarrow> send_cmd \<Rightarrow> (world, usize) oper" where
  "send_exec j (SendSync T t) = sendsynctype j T t"
| "send_exec j (SendClone T t) = sendclonetype j T t"
| "send_exec j (SendRaw n) =
     bindO (on_heap (\<lambda>h. case new_raw n h of (m, h1) \<Rightarrow> (Inr m, h1)))
       (\<lambda>m. ep_send j (m\<lparr>dstsid := 1, dsteid := 0\<rparr>))"

text \<open>A value has its type's size, and a type with the id of \<open>T\<close> is \<open>T\<close>.\<close>

fun send_cmd_ok :: "rtype \<Rightarrow> send_cmd \<Rightarrow> bool" where
  "send_cmd_ok T (SendSync T' t) = (value_of T' t \<and> (ty_id T' = ty_id T \<longrightarrow> T' = T))"
| "send_cmd_ok T (SendClone T' t) = (value_of T' t \<and> (ty_id T' = ty_id T \<longrightarrow> T' = T))"
| "send_cmd_ok T (SendRaw n) = True"

fun send_value :: "rtype \<Rightarrow> send_cmd \<Rightarrow> cell list list" where
  "send_value T (SendSync T' t) = (if T' = T then [t] else [])"
| "send_value T (SendClone T' t) = (if T' = T then [t] else [])"
| "send_value T (SendRaw n) = []"

text \<open>A message made for the occasion.\<close>

lemma broadcast_new:
  assumes "tx_ok j i w" and "rx_ok T i w" and n: "new w = (Inr m, w\<lparr>heap := h\<rparr>)"
    and g: "heap_grows (heap w) h" and m: "readable T h m" "\<not> is_raw m" "\<not> canloop m"
    and fresh: "set (flags [m]) \<subseteq> {valid_lim (heap w)..<valid_lim h}"
  shows "\<exists>w1. bindO new (\<lambda>m. ep_send j (m\<lparr>dstsid := 1, dsteid := 0\<rparr>)) w = (Inr 1, w1) \<and>
    tx_ok j i w1 \<and> rx_ok T i w1 \<and> used 1 i w w1 \<and>
    items T i w1 = items T i w @ (if is_type T m then [val_of T h m] else [])"
proof -
  let ?w = "w\<lparr>heap := h\<rparr>" and ?m = "m\<lparr>dstsid := 1, dsteid := 0\<rparr>"
  have rx: "rx_ok T i ?w" "items T i ?w = items T i w" using rx_ok_grows [OF assms(2) g] by simp_all
  have tx: "tx_ok j i ?w" using assms(1) by (simp add: tx_ok_def ready_def net_of_def)
  have like: "readable T h ?m" "flags [?m] = flags [m]" "is_type T ?m = is_type T m" "val_of T h ?m = val_of T h m"
    "\<not> is_raw ?m"
    using m by (simp_all add: val_of_def readable_def buffer_of_def stale_def is_type_def is_sync_def is_clone_def
        get_syncref_def get_cloneref_def is_raw_def)
  have mail: "mail_ok T (heap w) (queue w i)" using assms(2) by (simp add: rx_ok_def)
  have q: "queue ?w i = queue w i" by (simp add: queue_def)
  have "mail_ok T h (queue w i @ [?m])"
    unfolding mail_ok_snoc like(2)
    using mail_grows [OF mail g] like(1) fresh flags_below [OF mail] by fastforce
  moreover have "posted ?m (heap ?w) = (?m, h)" using posted_not_raw [OF like(5)] by simp
  moreover have "heap_wf h" "\<not> poisoned (raws h (buffer_of ?m))"
    using rx(1) like(1) by (simp_all add: rx_ok_def readable_def)
  ultimately have "\<exists>w1. ep_send j ?m ?w = (Inr 1, w1) \<and> tx_ok j i w1 \<and> rx_ok T i w1 \<and> used 1 i w w1 \<and>
      items T i w1 = items T i w @ (if is_type T m then [val_of T h m] else [])"
    using broadcast [OF tx rx(1), of ?m ?m h] m(3) unfolding q like rx(2) used_heap by simp
  with n show ?thesis by simp
qed

lemma send_exec_items:
  assumes tx: "tx_ok j i w" and rx: "rx_ok T i w" and c: "send_cmd_ok T c"
  shows "\<exists>w1. send_exec j c w = (Inr 1, w1) \<and> tx_ok j i w1 \<and> rx_ok T i w1 \<and> used 1 i w w1 \<and>
    items T i w1 = items T i w @ send_value T c"
proof (cases c)
  case (SendSync T' t)
  with c have v: "value_of T' t" "ty_id T' = ty_id T \<longrightarrow> T' = T" by simp_all
  obtain b where b: "stored T' t b" and n: "sync_new T' t (heap w) =
      (Inr \<lparr>sm_tyid = ty_id T', sm_valid = valid_lim (heap w), sm_payload = raw_lim (heap w)\<rparr>,
       snd (alloc_valid (snd (alloc_raw b (heap w)))))"
    using sync_new_eq [OF v(1)] .
  define h where "h = snd (alloc_valid (snd (alloc_raw b (heap w))))"
  define m where "m = \<lparr>srcsid = 0, srceid = 0, dstsid = 0, dsteid = 0, canloop = False,
    payload = Sync \<lparr>sm_tyid = ty_id T', sm_valid = valid_lim (heap w), sm_payload = raw_lim (heap w)\<rparr>\<rparr>"
  have m: "on_heap (new_sync T' t) w = (Inr m, w\<lparr>heap := h\<rparr>)"
    using n by (simp add: on_heap_def new_sync_def m_def h_def)
  have ty: "is_type T m \<longleftrightarrow> T' = T" using v(2) by (auto simp: m_def is_type_iff)
  have val: "val_of T' h m = t" "stored T' t (guarded (raws h (buffer_of m)))"
    using b by (simp_all add: val_of_def m_def buffer_of_def h_def alloc_valid_def stored_def)
  have "heap_grows (heap w) h"
    using heap_grows_trans [OF heap_grows_alloc alloc_valid_grows] b by (simp add: h_def stored_def)
  moreover have "readable T h m" "\<not> is_raw m" "\<not> canloop m"
    "set (flags [m]) \<subseteq> {valid_lim (heap w)..<valid_lim h}"
    using val ty by (auto simp: readable_def, auto simp: m_def buffer_of_def stale_def h_def alloc_valid_def)
  ultimately show ?thesis
    using broadcast_new [OF tx rx, of "on_heap (new_sync T' t)" m h] m SendSync ty val by (auto simp: sendsynctype_def)
next
  case (SendClone T' t)
  with c have v: "value_of T' t" "ty_id T' = ty_id T \<longrightarrow> T' = T" by simp_all
  obtain b where b: "stored T' t b" and n: "clone_new T' t (heap w) =
      (Inr \<lparr>cm_tyid = ty_id T', cm_payload = raw_lim (heap w)\<rparr>, snd (alloc_raw b (heap w)))"
    using clone_new_eq [OF v(1)] .
  define h where "h = snd (alloc_raw b (heap w))"
  define m where "m = \<lparr>srcsid = 0, srceid = 0, dstsid = 0, dsteid = 0, canloop = False,
    payload = Clone \<lparr>cm_tyid = ty_id T', cm_payload = raw_lim (heap w)\<rparr>\<rparr>"
  have m: "on_heap (new_clone T' t) w = (Inr m, w\<lparr>heap := h\<rparr>)"
    using n by (simp add: on_heap_def new_clone_def m_def h_def)
  have ty: "is_type T m \<longleftrightarrow> T' = T" using v(2) by (auto simp: m_def is_type_iff)
  have val: "val_of T' h m = t" "stored T' t (guarded (raws h (buffer_of m)))"
    using b by (simp_all add: val_of_def m_def buffer_of_def h_def stored_def)
  have "heap_grows (heap w) h"
    using heap_grows_alloc b by (simp add: h_def stored_def)
  moreover have "readable T h m" "\<not> is_raw m" "\<not> canloop m"
    "set (flags [m]) \<subseteq> {valid_lim (heap w)..<valid_lim h}"
    using val ty by (auto simp: readable_def, auto simp: m_def buffer_of_def stale_def h_def)
  ultimately show ?thesis
    using broadcast_new [OF tx rx, of "on_heap (new_clone T' t)" m h] m SendClone ty val by (auto simp: sendclonetype_def)
next
  case (SendRaw n)
  define b where "b = raw_lim (heap w)"
  define h where "h = snd (alloc_raw (raw_internal_new n) (heap w))"
  define m where "m = \<lparr>srcsid = 0, srceid = 0, dstsid = 1, dsteid = 0, canloop = False, payload = Raw b\<rparr>"
  let ?w = "w\<lparr>heap := h\<rparr>"
  let ?h = "snd (alloc_raw (dup_of (guarded (raws h b))) h)" and ?m' = "m\<lparr>payload := Raw (raw_lim h)\<rparr>"
  have "heap_grows (heap w) h" by (simp add: h_def heap_grows_alloc)
  with rx_ok_grows [OF rx] have rx1: "rx_ok T i ?w" "items T i ?w = items T i w" by simp_all
  have tx1: "tx_ok j i ?w" using tx by (simp add: tx_ok_def ready_def net_of_def)
  have e: "send_exec j c w = ep_send j m ?w"
    using SendRaw by (simp add: on_heap_def new_raw_def raw_new_def h_def m_def b_def alloc_raw_def)
  have p: "posted m (heap ?w) = (?m', ?h)" by (simp add: posted_def m_def)
  have wf: "heap_wf h" "mail_ok T h (queue ?w i)" using rx1 by (simp_all add: rx_ok_def)
  have g: "heap_grows h ?h" using wf by (intro heap_grows_alloc) (simp add: heap_wfD)
  have "readable T ?h ?m'" "flags [?m'] = []" "\<not> is_type T m"
    by (simp_all add: readable_def buffer_of_def stale_def is_type_iff m_def)
  with mail_grows [OF wf(2) g] have "mail_ok T ?h (queue ?w i @ [?m'])" unfolding mail_ok_snoc by simp
  moreover have "heap_wf ?h" using g wf by (simp add: heap_grows_def)
  moreover have "\<not> poisoned (raws (heap ?w) (buffer_of m))" by (simp add: buffer_of_def m_def b_def h_def)
  ultimately show ?thesis
    using broadcast [OF tx1 rx1(1) _ _ _ p] mail_grows [OF wf(2) g] \<open>\<not> is_type T m\<close> rx1(2) SendRaw
    unfolding e used_heap by (simp add: m_def)
qed

section \<open>The channel is a queue\<close>

lemma getpeercount_eq:
  assumes "\<not> poisoned (nets w (net_i (net_of w j)))"
  shows "getpeercount j w = (Inr (of_nat (length (endpoints (guarded (nets w (net_i (net_of w j))))))), w)"
  using assms by (simp add: getpeercount_def getepcount_def on_net_def mutex_eta)

lemma tx_peers: "tx_ok j i w \<Longrightarrow> getpeercount j w = (Inr 2, w)"
  by (subst getpeercount_eq) (auto simp: tx_ok_def ready_def)

lemma send_opt_items:
  assumes "tx_ok (sp_ep s) i w" and "rx_ok T i w" and "value_of T t"
  shows "\<exists>w1. send_opt s T t w = (Inr (Inr ()), w1) \<and> tx_ok (sp_ep s) i w1 \<and> rx_ok T i w1 \<and>
    used 1 i w w1 \<and> items T i w1 = items T i w @ [t]"
proof -
  have "send_cmd_ok T (SendSync T t)" using assms(3) by simp
  from send_exec_items [OF assms(1,2) this] obtain w1 where "sendsynctype (sp_ep s) T t w = (Inr 1, w1)"
    "tx_ok (sp_ep s) i w1" "rx_ok T i w1" "used 1 i w w1" "items T i w1 = items T i w @ [t]" by auto
  with tx_peers [OF assms(1)] show ?thesis by (auto simp: send_opt_def)
qed

text \<open>A run of a sender and a receiver, with other messages sent through the sender's endpoint.\<close>

datatype chan_op =
    ChSend "cell list"
  | ChTryRecv
  | ChOther send_cmd

datatype chan_result =
    Sent
  | NotSent "cell list"
  | Value "cell list"
  | NoValue
  | OtherSent

fun chan_step ::
    "sender_proxy \<Rightarrow> receiver_proxy \<Rightarrow> rtype \<Rightarrow> chan_op \<Rightarrow> (world, chan_result) oper" where
  "chan_step s r T (ChSend t) =
     bindO (send_opt s T t) (\<lambda>x. retO (case x of Inl t' \<Rightarrow> NotSent t' | Inr _ \<Rightarrow> Sent))"
| "chan_step s r T ChTryRecv =
     bindO (try_recv r T) (\<lambda>x. retO (case x of Inl _ \<Rightarrow> NoValue | Inr t \<Rightarrow> Value t))"
| "chan_step s r T (ChOther c) =
     bindO (send_exec (sender_getendpoint s) c) (\<lambda>_. retO OtherSent)"

fun chan_run ::
    "sender_proxy \<Rightarrow> receiver_proxy \<Rightarrow> rtype \<Rightarrow> chan_op list \<Rightarrow> (world, chan_result list) oper" where
  "chan_run s r T [] = retO []"
| "chan_run s r T (c # cs) =
     bindO (chan_step s r T c) (\<lambda>x. bindO (chan_run s r T cs) (\<lambda>xs. retO (x # xs)))"

text \<open>The specification: a list of values.\<close>

fun chan_spec :: "rtype \<Rightarrow> chan_op list \<Rightarrow> cell list list \<Rightarrow> chan_result list" where
  "chan_spec T [] ts = []"
| "chan_spec T (ChSend t # cs) ts = Sent # chan_spec T cs (ts @ [t])"
| "chan_spec T (ChTryRecv # cs) [] = NoValue # chan_spec T cs []"
| "chan_spec T (ChTryRecv # cs) (t # ts) = Value t # chan_spec T cs ts"
| "chan_spec T (ChOther c # cs) ts = OtherSent # chan_spec T cs (ts @ send_value T c)"

text \<open>The values still inside at the end.\<close>

fun chan_left :: "rtype \<Rightarrow> chan_op list \<Rightarrow> cell list list \<Rightarrow> cell list list" where
  "chan_left T [] ts = ts"
| "chan_left T (ChSend t # cs) ts = chan_left T cs (ts @ [t])"
| "chan_left T (ChTryRecv # cs) ts = chan_left T cs (tl ts)"
| "chan_left T (ChOther c # cs) ts = chan_left T cs (ts @ send_value T c)"

fun chan_op_ok :: "rtype \<Rightarrow> chan_op \<Rightarrow> bool" where
  "chan_op_ok T (ChSend t) = value_of T t"
| "chan_op_ok T ChTryRecv = True"
| "chan_op_ok T (ChOther c) = send_cmd_ok T c"

lemma chan_run_items:
  assumes "tx_ok (sp_ep s) (rp_ep r) w" and "rx_ok T (rp_ep r) w" and "list_all (chan_op_ok T) cs"
  shows "\<exists>w1. chan_run s r T cs w = (Inr (chan_spec T cs (items T (rp_ep r) w)), w1) \<and>
    tx_ok (sp_ep s) (rp_ep r) w1 \<and> rx_ok T (rp_ep r) w1 \<and> used (length cs) (rp_ep r) w w1 \<and>
    items T (rp_ep r) w1 = chan_left T cs (items T (rp_ep r) w)"
  using assms
proof (induction cs arbitrary: w)
  case Nil
  then show ?case by simp
next
  case (Cons c cs)
  let ?i = "rp_ep r"
  have "\<exists>x w1. chan_step s r T c w = (Inr x, w1) \<and> tx_ok (sp_ep s) ?i w1 \<and> rx_ok T ?i w1 \<and>
    used 1 ?i w w1 \<and> chan_spec T (c # cs) (items T ?i w) = x # chan_spec T cs (items T ?i w1) \<and>
    chan_left T (c # cs) (items T ?i w) = chan_left T cs (items T ?i w1)"
  proof (cases c)
    case (ChSend t)
    with Cons.prems(3) send_opt_items [OF Cons.prems(1,2), of t] show ?thesis by auto
  next
    case ChTryRecv
    from try_recv_items [OF Cons.prems(2)] obtain w1 where w1: "rx_ok T ?i w1" "rx_frame ?i w w1"
      and i: "case items T ?i w of
       [] \<Rightarrow> try_recv r T w = (Inr (Inl TryEmpty), w1) \<and> items T ?i w1 = []
     | t # ts \<Rightarrow> try_recv r T w = (Inr (Inr t), w1) \<and> items T ?i w1 = ts" by blast
    with tx_ok_frame [OF Cons.prems(1) w1(2)] used_frame [OF w1(2), of 1] ChTryRecv show ?thesis
      by (auto split: list.splits)
  next
    case (ChOther c')
    with Cons.prems(3) send_exec_items [OF Cons.prems(1,2), of c'] show ?thesis
      by (auto simp: sender_getendpoint_def)
  qed
  then obtain x w1 where c: "chan_step s r T c w = (Inr x, w1)" "tx_ok (sp_ep s) ?i w1" "rx_ok T ?i w1"
    "used 1 ?i w w1" "chan_spec T (c # cs) (items T ?i w) = x # chan_spec T cs (items T ?i w1)"
    "chan_left T (c # cs) (items T ?i w) = chan_left T cs (items T ?i w1)" by blast
  from Cons.prems(3) have "list_all (chan_op_ok T) cs" by simp
  from Cons.IH [OF c(2,3) this] obtain w2 where
    "chan_run s r T cs w1 = (Inr (chan_spec T cs (items T ?i w1)), w2)"
    "tx_ok (sp_ep s) ?i w2" "rx_ok T ?i w2" "used (length cs) ?i w1 w2"
    "items T ?i w2 = chan_left T cs (items T ?i w1)" by blast
  with c used_trans [OF c(4), of "length cs" w2] show ?case by simp
qed

text \<open>A new channel.\<close>

lemma channel_new:
  assumes "heap_wf (heap w)"
  shows "\<exists>w1. channel w = (Inr (\<lparr>sp_ep = ep_lim w\<rparr>, \<lparr>rp_ep = Suc (ep_lim w)\<rparr>), w1) \<and>
    tx_ok (ep_lim w) (Suc (ep_lim w)) w1 \<and> rx_ok T (Suc (ep_lim w)) w1 \<and>
    items T (Suc (ep_lim w)) w1 = [] \<and> queue w1 (Suc (ep_lim w)) = [] \<and> refcnt (eps w1 (ep_lim w)) = 2 \<and>
    refcnt (eps w1 (Suc (ep_lim w))) = 2 \<and>
    \<not> dropped (eps w1 (ep_lim w)) \<and> \<not> dropped (eps w1 (Suc (ep_lim w)))"
  using assms
  by (simp add: channel_def net_new_def new_endpoint_def Let_def ep_alloc_def ep_clone_def on_ep_def
      net_clone_def tx_ok_def rx_ok_def ready_def net_of_def endpoint_new_def mail_ok_def queue_def
      items_def sq_new_def)

section \<open>Disconnection\<close>

text \<open>The endpoint is the only one left on its net.\<close>

definition alone :: "nat \<Rightarrow> world \<Rightarrow> bool" where
  "alone i w \<longleftrightarrow>
     \<not> poisoned (nets w (net_i (net_of w i))) \<and> endpoints (guarded (nets w (net_i (net_of w i)))) = [i]"

lemma alone_frame: "alone i w \<Longrightarrow> rx_frame i w w' \<Longrightarrow> alone i w'"
  by (auto simp: alone_def rx_frame_def net_of_def)

lemma alone_peers: "alone i w \<Longrightarrow> getpeercount i w = (Inr 1, w)"
  by (subst getpeercount_eq) (auto simp: alone_def)

text \<open>The last handle on one of the two endpoints is dropped.\<close>

lemma drop_last:
  assumes "tx_ok j i w" and "k = j \<and> l = i \<or> k = i \<and> l = j"
    and "refcnt (eps w k) = 2" and "\<not> dropped (eps w k)"
  shows "\<exists>w1. ep_drop k w = (Inr (), w1) \<and> alone l w1 \<and> heap w1 = heap w \<and> eps w1 l = eps w l"
  using assms
  by (auto simp: tx_ok_def ready_def ep_drop_def drop_count_def Let_def net_drop_endpoint_def
      endpoint_id_def net_of_def alone_def)

text \<open>Waiting with a timeout, alone: the values that are left, then the disconnection.\<close>

lemma recv_opt_drain:
  assumes "rx_ok T (rp_ep r) w" and "alone (rp_ep r) w" and "length (queue w (rp_ep r)) < length rds"
    and "list_all quiet_round rds"
  shows "\<exists>w1. rx_ok T (rp_ep r) w1 \<and> rx_frame (rp_ep r) w w1 \<and>
    (case items T (rp_ep r) w of
       [] \<Rightarrow> recv_opt r T rds w = Some (Inr (Inl ()), w1) \<and> items T (rp_ep r) w1 = []
     | t # ts \<Rightarrow> recv_opt r T rds w = Some (Inr (Inr t), w1) \<and> items T (rp_ep r) w1 = ts)"
  using assms
proof (induction arbitrary: rds rule: drain_induct)
  case (empty w)
  then obtain rd rds' where rd: "rds = rd # rds'" "quiet_round rd" by (cases rds) auto
  with block_at_quiet [OF empty(1,2)] alone_peers [OF empty(4)] empty show ?case
    by (intro exI [of _ w]) (simp add: quiet_round_def)
next
  case (other w m w1)
  obtain rd rds' where rd: "rds = rd # rds'" "quiet_round rd" "list_all quiet_round rds'"
    "length (queue w1 (rp_ep r)) < length rds'"
    using other.prems(2,3) other.hyps(8) by (cases rds) auto
  have "recv_opt r T rds w = recv_opt r T rds' w1"
    using rd block_at_found(1) [OF other.hyps(1,3)] other.hyps(4) by (simp add: quiet_round_def)
  with other.IH [OF alone_frame [OF other.prems(1) other.hyps(6)] rd(4,3)] other.hyps(6,7) show ?case
    by (auto split: list.splits intro: rx_frame_trans)
next
  case (found w m w1 t)
  obtain rd rds' where rd: "rds = rd # rds'" "quiet_round rd"
    using found.prems(2,3) by (cases rds) auto
  with found block_at_found(1) [OF found.hyps(1,3), of "rd_waits rd"] show ?case
    by (intro exI [of _ w1]) (simp add: quiet_round_def is_type_not_raw)
qed

lemma iter_collect_drain:
  assumes "rx_ok T (rp_ep (mi_proxy it)) w" and "alone (rp_ep (mi_proxy it)) w"
    and "length (items T (rp_ep (mi_proxy it)) w) < length rdss"
    and "list_all (\<lambda>rds. length (queue w (rp_ep (mi_proxy it))) < length rds \<and> list_all quiet_round rds) rdss"
  shows "\<exists>w1. iter_collect it T rdss w = Some (Inr (items T (rp_ep (mi_proxy it)) w), w1)"
  using assms
proof (induction rdss arbitrary: w)
  case Nil
  then show ?case by simp
next
  case (Cons rds rdss)
  let ?i = "rp_ep (mi_proxy it)"
  from Cons.prems(4) have "length (queue w ?i) < length rds" "list_all quiet_round rds" by simp_all
  from recv_opt_drain [OF Cons.prems(1,2) this] obtain w1 where
    w1: "rx_ok T ?i w1" "rx_frame ?i w w1" and
    r: "case items T ?i w of
       [] \<Rightarrow> recv_opt (mi_proxy it) T rds w = Some (Inr (Inl ()), w1) \<and> items T ?i w1 = []
     | t # ts \<Rightarrow> recv_opt (mi_proxy it) T rds w = Some (Inr (Inr t), w1) \<and> items T ?i w1 = ts" by blast
  have "length (queue w1 ?i) \<le> length (queue w ?i)" using w1(2) by (simp add: rx_frame_def)
  then have "list_all (\<lambda>rds. length (queue w1 ?i) < length rds \<and> list_all quiet_round rds) rdss"
    using Cons.prems(4) by (auto simp: list_all_iff)
  with Cons.IH [OF w1(1) alone_frame [OF Cons.prems(2) w1(2)]] r Cons.prems(3) show ?case
    by (cases "items T ?i w") (auto simp: iter_next_def)
qed

text \<open>A receive that waits forever takes the next value if there is one.\<close>

lemma proxy_recv_items:
  assumes "rx_ok T (rp_ep r) w" and "items T (rp_ep r) w = t # ts"
    and "length (queue w (rp_ep r)) \<le> length rds" and "list_all (\<lambda>rd. rd_before rd = id) rds"
  shows "\<exists>w1. proxy_recv r T rds w = Some (Inr t, w1) \<and> items T (rp_ep r) w1 = ts"
  using assms
proof (induction arbitrary: rds rule: drain_induct)
  case (empty w)
  then show ?case by simp
next
  case (other w m w1)
  obtain rd rds' where rd: "rds = rd # rds'" "rd_before rd = id" "list_all (\<lambda>rd. rd_before rd = id) rds'"
    "length (queue w1 (rp_ep r)) \<le> length rds'"
    using other.prems other.hyps(8) by (cases rds) (auto simp: id_def)
  have "proxy_recv r T rds w = proxy_recv r T rds' w1"
    using rd block_at_found(2) [OF other.hyps(1,3)] other.hyps(4) by simp
  with other.IH [OF _ rd(4,3)] other.hyps(7) other.prems(1) show ?case by simp
next
  case (found w m w1 t')
  obtain rd rds' where rd: "rds = rd # rds'" "rd_before rd = id"
    using found.prems found.hyps(2) by (cases rds) (auto simp: id_def)
  with found block_at_found(2) [OF found.hyps(1,3), of "rd_waits rd"] show ?case
    by (intro exI [of _ w1]) (simp add: is_type_not_raw)
qed

text \<open>
  Unlike a native channel, the receive that waits forever does not notice that the sender is gone:
  it stays blocked whatever happens.
\<close>

lemma forever_loop_quiet:
  assumes "vec (messages e) = []" and "\<not> poisoned (waitmutex e)" and "list_all (\<lambda>x. we_env x = id) ws"
  shows "forever_loop ws (h, e) = None"
  using assms by (induction ws) (auto simp: recv_locked_def recv_empty Let_def)

lemma proxy_recv_hangs:
  assumes "rx_ok T (rp_ep r) w" and "queue w (rp_ep r) = []"
    and "list_all (\<lambda>rd. rd_before rd = id \<and> list_all (\<lambda>x. we_env x = id) (rd_waits rd)) rds"
  shows "proxy_recv r T rds w = None"
  using assms forever_loop_quiet [of "eps w (rp_ep r)" _ "heap w"]
  by (cases rds)
    (simp_all add: block_at_def endpoint_recvorblockforever_def recv_locked_def recv_empty queue_def rx_ok_def)

text \<open>
  And a send reports success also when the receiver's endpoint is at its limit and refuses the
  message: the value is lost.
\<close>

lemma send_opt_loses:
  assumes "tx_ok (sp_ep s) i w0" and "rx_ok T i w0" and "value_of T t"
    and w: "w = on_ep i (setlimitpending l) w0" and "l > 0" and "sq_len (messages (eps w0 i)) \<ge> l"
  shows "\<exists>w1. send_opt s T t w = (Inr (Inr ()), w1) \<and> queue w1 i = queue w i"
proof -
  let ?j = "sp_ep s"
  have n: "net_of w k = net_of w0 k" "nets w = nets w0" "heap w = heap w0" for k
    by (simp_all add: w net_of_def setlimitpending_def)
  have rdy: "ready (net_of w ?j) w" and es: "endpoints (guarded (nets w (net_i (net_of w ?j)))) = [?j, i]"
    and "i \<noteq> ?j" using assms(1) unfolding n by (auto simp: tx_ok_def ready_def w setlimitpending_def)
  then have p: "getpeercount ?j w = (Inr 2, w)"
    by (subst getpeercount_eq) (auto simp: ready_def)
  obtain b where b: "stored T t b" and sn: "sync_new T t (heap w) =
      (Inr \<lparr>sm_tyid = ty_id T, sm_valid = valid_lim (heap w), sm_payload = raw_lim (heap w)\<rparr>,
       snd (alloc_valid (snd (alloc_raw b (heap w)))))"
    using sync_new_eq [OF assms(3)] .
  define h where "h = snd (alloc_valid (snd (alloc_raw b (heap w))))"
  define m where "m = \<lparr>srcsid = 0, srceid = 0, dstsid = 1, dsteid = 0, canloop = False,
    payload = Sync \<lparr>sm_tyid = ty_id T, sm_valid = valid_lim (heap w), sm_payload = raw_lim (heap w)\<rparr>\<rparr>"
  let ?w = "w\<lparr>heap := h\<rparr>"
  have e: "sendsynctype ?j T t w = ep_send ?j m ?w"
    using sn by (simp add: sendsynctype_def on_heap_def new_sync_def m_def h_def)
  have "heap_grows (heap w) h"
    using heap_grows_trans [OF heap_grows_alloc alloc_valid_grows] b by (simp add: h_def stored_def)
  then have "heap_wf h" using assms(2) by (simp add: heap_grows_def rx_ok_def n)
  moreover have "ready (net_of ?w ?j) ?w" using rdy by (simp add: ready_def net_of_def)
  moreover have "\<not> poisoned (raws h (buffer_of m))" by (simp add: h_def m_def buffer_of_def alloc_valid_def)
  moreover have "\<not> accepts (eps w i) m'" for m'
    using assms(5,6) by (auto simp: accepts_def has_room_def w setlimitpending_def)
  moreover have "\<not> accepts (eps w ?j) (m\<lparr>srcsid := getsid (eps w ?j), srceid := geteid (eps w ?j)\<rparr>)"
    by (simp add: accepts_def addressed_def m_def getsid_def geteid_def)
  ultimately have "\<exists>w1. ep_send ?j m ?w = (Inr 0, w1) \<and> eps w1 i = eps w i"
    using ep_send_eq [of ?w ?j m] es
    by (cases "posted (m\<lparr>srcsid := getsid (eps w ?j), srceid := geteid (eps w ?j)\<rparr>) h")
      (auto simp: posted_def m_def net_of_def Let_def)
  with p e show ?thesis by (auto simp: send_opt_def queue_def)
qed

section \<open>The channel's guarantees\<close>

text \<open>For the witnesses: a round that times out, and that the initial world is well-formed.\<close>

definition demo_round :: rx_round where
  "demo_round = \<lparr>rd_before = id, rd_waits = [\<lparr>we_env = id, we_notified = False\<rparr>], rd_late = id\<rparr>"

lemma demo_channel [simp]: "heap_wf (heap world_empty)" "value_of demo_type [Some x]"
  by (simp_all add: world_empty_def value_of_def demo_type_def)

text \<open>
  C27. A channel is a first-in first-out queue of its values: any run of sends and non-blocking
  receives on a new channel answers as the list of values does, each value received once and in
  order, also when raw messages, clone messages and values of other types are sent through the
  sender's endpoint in between. Nothing panics.
\<close>

theorem channel_fifo:
  assumes "heap_wf (heap w)" and "list_all (chan_op_ok T) cs"
  shows "\<exists>s r w1 w2. channel w = (Inr (s, r), w1) \<and> chan_run s r T cs w1 = (Inr (chan_spec T cs []), w2)"
proof -
  obtain w1 where c: "channel w = (Inr (\<lparr>sp_ep = ep_lim w\<rparr>, \<lparr>rp_ep = Suc (ep_lim w)\<rparr>), w1)"
    "tx_ok (ep_lim w) (Suc (ep_lim w)) w1" "rx_ok T (Suc (ep_lim w)) w1" "items T (Suc (ep_lim w)) w1 = []"
    using channel_new [OF assms(1)] by blast
  with chan_run_items [of "\<lparr>sp_ep = ep_lim w\<rparr>" "\<lparr>rp_ep = Suc (ep_lim w)\<rparr>" w1 T cs] assms(2)
  show ?thesis by auto
qed

theorem channel_fifo_witness:
  "\<exists>s r w1 w2. channel world_empty = (Inr (s, r), w1) \<and>
     chan_run s r demo_type [ChSend [Some 7], ChOther (SendRaw 4), ChSend [Some 8], ChTryRecv, ChTryRecv, ChTryRecv] w1 =
       (Inr [Sent, OtherSent, Sent, Value [Some 7], Value [Some 8], NoValue], w2)"
  using channel_fifo [of world_empty demo_type
      "[ChSend [Some 7], ChOther (SendRaw 4), ChSend [Some 8], ChTryRecv, ChTryRecv, ChTryRecv]"]
  by simp

text \<open>
  C28. When the sender is dropped, no value is lost and the receiver is told: iterating over the
  receiver after any use of the channel yields exactly the values still inside, in order, and
  then ends, given rounds in which the timeouts elapse and one round more than there are messages.
\<close>

theorem channel_closes:
  assumes "heap_wf (heap w)" and "list_all (chan_op_ok T) cs"
    and "length (chan_left T cs []) < length rdss"
    and "list_all (\<lambda>rds. length cs < length rds \<and> list_all quiet_round rds) rdss"
  shows "\<exists>s r w1 w2 w3 it w4 w5. channel w = (Inr (s, r), w1) \<and>
    chan_run s r T cs w1 = (Inr (chan_spec T cs []), w2) \<and> ep_drop (sp_ep s) w2 = (Inr (), w3) \<and>
    proxy_iter r w3 = (it, w4) \<and> iter_collect it T rdss w4 = Some (Inr (chan_left T cs []), w5)"
proof -
  let ?s = "\<lparr>sp_ep = ep_lim w\<rparr>" and ?r = "\<lparr>rp_ep = Suc (ep_lim w)\<rparr>" and ?i = "Suc (ep_lim w)"
  obtain w1 where c: "channel w = (Inr (?s, ?r), w1)" "tx_ok (ep_lim w) ?i w1" "rx_ok T ?i w1"
    "items T ?i w1 = []" "refcnt (eps w1 (ep_lim w)) = 2" "\<not> dropped (eps w1 (ep_lim w))" "queue w1 ?i = []"
    using channel_new [OF assms(1)] by blast
  with chan_run_items [of ?s ?r w1 T cs] assms(2) obtain w2 where
    r: "chan_run ?s ?r T cs w1 = (Inr (chan_spec T cs []), w2)" "tx_ok (ep_lim w) ?i w2" "rx_ok T ?i w2"
    "used (length cs) ?i w1 w2" "items T ?i w2 = chan_left T cs []" by auto
  from r(4) c(5,6) have "refcnt (eps w2 (ep_lim w)) = 2" "\<not> dropped (eps w2 (ep_lim w))"
    by (simp_all add: used_def)
  with drop_last [OF r(2), of "ep_lim w" ?i] obtain w3 where
    d: "ep_drop (ep_lim w) w2 = (Inr (), w3)" "alone ?i w3" "heap w3 = heap w2" "eps w3 ?i = eps w2 ?i" by auto
  let ?w4 = "ep_clone ?i w3"
  have q: "queue ?w4 ?i = queue w2 ?i" by (simp add: ep_clone_def queue_def d)
  have "rx_ok T ?i ?w4" "items T ?i ?w4 = chan_left T cs []"
    using r(3,5) by (simp_all add: rx_ok_def items_def q) (simp_all add: ep_clone_def d)
  moreover have "alone ?i ?w4" using d(2) by (simp add: alone_def ep_clone_def net_of_def)
  moreover have "list_all (\<lambda>rds. length (queue ?w4 ?i) < length rds \<and> list_all quiet_round rds) rdss"
    using assms(4) r(4) c(7) by (auto simp: q used_def list_all_iff)
  ultimately have "\<exists>w5. iter_collect \<lparr>mi_proxy = ?r\<rparr> T rdss ?w4 = Some (Inr (chan_left T cs []), w5)"
    using iter_collect_drain [of T "\<lparr>mi_proxy = ?r\<rparr>" ?w4 rdss] assms(3) by simp
  with c(1) r(1) d(1) show ?thesis by (fastforce simp: proxy_iter_def receiver_clone_def)
qed

theorem channel_closes_witness:
  "\<exists>s r w1 w2 w3 it w4 w5. channel world_empty = (Inr (s, r), w1) \<and>
     chan_run s r demo_type [ChSend [Some 7], ChSend [Some 8]] w1 = (Inr [Sent, Sent], w2) \<and>
     ep_drop (sp_ep s) w2 = (Inr (), w3) \<and> proxy_iter r w3 = (it, w4) \<and>
     iter_collect it demo_type (replicate 3 (replicate 3 demo_round)) w4 =
       Some (Inr [[Some 7], [Some 8]], w5)"
proof -
  let ?cs = "[ChSend [Some 7], ChSend [Some 8]]"
  have "list_all (chan_op_ok demo_type) ?cs" by simp
  moreover have "length (chan_left demo_type ?cs []) < length (replicate 3 (replicate 3 demo_round))" by simp
  moreover have "list_all (\<lambda>rds. length ?cs < length rds \<and> list_all quiet_round rds)
      (replicate 3 (replicate 3 demo_round))"
    by (simp add: list_all_iff quiet_round_def demo_round_def)
  ultimately show ?thesis
    using channel_closes [of world_empty demo_type ?cs "replicate 3 (replicate 3 demo_round)"]
    unfolding chan_spec.simps chan_left.simps by simp
qed

text \<open>
  C29. When the receiver is dropped, the sender is told: \<open>send_opt\<close> gives the value back and changes
  nothing, and \<open>send\<close> panics, after any use of the channel. While the receiver was alive, no send
  was refused.
\<close>

theorem channel_hangs_up:
  assumes "heap_wf (heap w)" and "list_all (chan_op_ok T) cs"
  shows "\<exists>s r w1 w2 w3. channel w = (Inr (s, r), w1) \<and>
    chan_run s r T cs w1 = (Inr (chan_spec T cs []), w2) \<and> ep_drop (rp_ep r) w2 = (Inr (), w3) \<and>
    send_opt s T t w3 = (Inr (Inl t), w3) \<and> proxy_send s T t w3 = (Inl Disconnected, w3)"
proof -
  let ?s = "\<lparr>sp_ep = ep_lim w\<rparr>" and ?r = "\<lparr>rp_ep = Suc (ep_lim w)\<rparr>" and ?i = "Suc (ep_lim w)"
  obtain w1 where c: "channel w = (Inr (?s, ?r), w1)" "tx_ok (ep_lim w) ?i w1" "rx_ok T ?i w1"
    "items T ?i w1 = []" "refcnt (eps w1 ?i) = 2" "\<not> dropped (eps w1 ?i)"
    using channel_new [OF assms(1)] by blast
  with chan_run_items [of ?s ?r w1 T cs] assms(2) obtain w2 where
    r: "chan_run ?s ?r T cs w1 = (Inr (chan_spec T cs []), w2)" "tx_ok (ep_lim w) ?i w2"
    "used (length cs) ?i w1 w2" by auto
  from r(3) c(5,6) have "refcnt (eps w2 ?i) = 2" "\<not> dropped (eps w2 ?i)"
    by (simp_all add: used_def same_life_def)
  with drop_last [OF r(2), of ?i "ep_lim w"] obtain w3 where
    d: "ep_drop ?i w2 = (Inr (), w3)" "alone (ep_lim w) w3" by auto
  have "send_opt ?s T t w3 = (Inr (Inl t), w3)"
    using alone_peers [OF d(2)] by (simp add: send_opt_def)
  with c(1) r(1) d(1) show ?thesis by (fastforce simp: proxy_send_def)
qed

theorem channel_hangs_up_witness:
  "\<exists>s r w1 w2 w3. channel world_empty = (Inr (s, r), w1) \<and>
     chan_run s r demo_type [ChSend [Some 7], ChTryRecv] w1 = (Inr [Sent, Value [Some 7]], w2) \<and>
     ep_drop (rp_ep r) w2 = (Inr (), w3) \<and>
     send_opt s demo_type [Some 8] w3 = (Inr (Inl [Some 8]), w3)"
  using channel_hangs_up [of world_empty demo_type "[ChSend [Some 7], ChTryRecv]" "[Some 8]"]
  by simp blast

end
