(* ===== verification/Raw_Owners.thy ===== *)
theory Raw_Owners
  imports Raw_Message
begin

text \<open>
  Who owns the buffers of raw messages (\<open>Internal::drop\<close>, \<open>RawMessage::clone\<close> and the allocations of
  \<open>rawmessage.rs\<close>): the handles of a program, the count of the \<open>Arc\<close> behind each buffer, and the blocks of the
  allocator. Shown: a block is allocated exactly while a handle to its buffer is left, and is freed once, with
  the size it was allocated with; and a slice of a buffer does not keep its block.
\<close>

section \<open>Handles and blocks\<close>

text \<open>
  \<open>ro_handles\<close> are the \<open>RawMessage\<close> values of the program in the order of their creation, \<open>None\<close> once dropped;
  \<open>ro_count\<close> is the strong count and \<open>ro_buf\<close> the field \<open>buf\<close> of each buffer. \<open>ro_mem\<close> and \<open>ro_brk\<close> are the
  allocator's: the size of each block, and the next one. \<open>deallocate\<close> must be given the size that the block was
  allocated with.
\<close>

record raw_owners =
  ro_heap :: heap
  ro_handles :: "nat option list"
  ro_count :: "nat \<Rightarrow> nat"
  ro_buf :: "nat \<Rightarrow> nat"
  ro_mem :: "nat \<Rightarrow> usize option"
  ro_brk :: nat

definition own_start :: raw_owners where
  "own_start = \<lparr>ro_heap = heap_empty, ro_handles = [], ro_count = (\<lambda>_. 0), ro_buf = (\<lambda>_. 0),
     ro_mem = (\<lambda>_. None), ro_brk = 0\<rparr>"

definition block_new :: "usize \<Rightarrow> raw_owners \<Rightarrow> nat \<times> raw_owners" where
  "block_new n s = (ro_brk s, s\<lparr>ro_mem := (ro_mem s)(ro_brk s \<mapsto> n), ro_brk := Suc (ro_brk s)\<rparr>)"

definition block_free :: "nat \<Rightarrow> usize \<Rightarrow> (raw_owners, unit) oper" where
  "block_free p n s =
     (if ro_mem s p = Some n then (Inr (), s\<lparr>ro_mem := (ro_mem s)(p := None)\<rparr>) else (Inl MemoryUnsafe, s))"

abbreviation owned_cap :: "raw_owners \<Rightarrow> nat \<Rightarrow> usize" where
  "owned_cap s a \<equiv> rcap (guarded (raws (ro_heap s) a))"

text \<open>The buffer behind a handle; a handle that was dropped or never made cannot be named.\<close>

definition handle :: "raw_owners \<Rightarrow> nat \<Rightarrow> nat option" where
  "handle s i = (if i < length (ro_handles s) then ro_handles s ! i else None)"

section \<open>Operations\<close>

text \<open>A new handle, the only one, to the buffer \<open>a\<close> that was just made, with a block of its capacity.\<close>

definition own_fresh :: "nat \<Rightarrow> heap \<Rightarrow> raw_owners \<Rightarrow> raw_owners" where
  "own_fresh a h s =
     (case block_new (rcap (guarded (raws h a))) s of
        (p, s1) \<Rightarrow> s1\<lparr>ro_heap := h, ro_handles := ro_handles s @ [Some a], ro_count := (ro_count s)(a := 1),
                     ro_buf := (ro_buf s)(a := p)\<rparr>)"

definition own_new :: "usize \<Rightarrow> (raw_owners, unit) oper" where
  "own_new c s = (case raw_new c (ro_heap s) of (a, h) \<Rightarrow> (Inr (), own_fresh a h s))"

definition own_dup :: "nat \<Rightarrow> (raw_owners, unit) oper" where
  "own_dup a s =
     (case raw_dup a (ro_heap s) of
        (Inl e, h) \<Rightarrow> (Inl e, s\<lparr>ro_heap := h\<rparr>)
      | (Inr b, h) \<Rightarrow> (Inr (), own_fresh b h s))"

definition own_clone :: "nat \<Rightarrow> (raw_owners, unit) oper" where
  "own_clone a s =
     (Inr (), s\<lparr>ro_handles := ro_handles s @ [Some a], ro_count := (ro_count s)(a := ro_count s a + 1)\<rparr>)"

text \<open>Dropping a handle; the last one drops the buffer, which frees its block.\<close>

definition raw_internal_drop :: "nat \<Rightarrow> (raw_owners, unit) oper" where
  "raw_internal_drop a s = block_free (ro_buf s a) (owned_cap s a) s"

definition own_drop :: "nat \<Rightarrow> nat \<Rightarrow> (raw_owners, unit) oper" where
  "own_drop i a s =
     (let s1 = s\<lparr>ro_handles := (ro_handles s)[i := None], ro_count := (ro_count s)(a := ro_count s a - 1)\<rparr>
      in if ro_count s1 a = 0 then raw_internal_drop a s1 else (Inr (), s1))"

text \<open>\<open>resize\<close> allocates a block, copies, frees the old block and keeps the new one.\<close>

definition own_resize :: "nat \<Rightarrow> usize \<Rightarrow> (raw_owners, unit) oper" where
  "own_resize a n s =
     (case block_new n s of
        (p, s1) \<Rightarrow>
          (case raw_resize a n (ro_heap s) of
             (Inl e, h) \<Rightarrow> (Inl e, s\<lparr>ro_heap := h\<rparr>)
           | (Inr _, h) \<Rightarrow>
               bindO (block_free (ro_buf s a) (owned_cap s a))
                 (\<lambda>_ s2. (Inr (), s2\<lparr>ro_heap := h, ro_buf := (ro_buf s2)(a := p)\<rparr>)) s1))"

text \<open>The other operations: they only access the buffer, under its lock.\<close>

fun in_place :: "raw_cmd \<Rightarrow> bool" where
  "in_place (CCap _) = True"
| "in_place (CLen _) = True"
| "in_place (CSetLen _ _) = True"
| "in_place (CWriteSlice _ _ _) = True"
| "in_place (CWriteStruct _ _ _) = True"
| "in_place (CReadStruct _ _ _) = True"
| "in_place _ = False"

text \<open>A slice of a buffer is a pointer into its block.\<close>

record own_slice =
  os_slice :: slice
  os_block :: nat

definition own_mutslice :: "nat \<Rightarrow> (raw_owners, own_slice) oper" where
  "own_mutslice a s =
     (case raw_as_mutslice a (ro_heap s) of
        (Inl e, h) \<Rightarrow> (Inl e, s\<lparr>ro_heap := h\<rparr>)
      | (Inr sl, h) \<Rightarrow> (Inr \<lparr>os_slice = sl, os_block = ro_buf s a\<rparr>, s\<lparr>ro_heap := h\<rparr>))"

definition own_slice_set :: "own_slice \<Rightarrow> nat \<Rightarrow> u8 \<Rightarrow> (raw_owners, unit) oper" where
  "own_slice_set sl k v s =
     (if k < unat (sl_len (os_slice sl)) \<and> ro_mem s (os_block sl) = None then (Inl MemoryUnsafe, s)
      else case slice_set (os_slice sl) k v (ro_heap s) of (r, h) \<Rightarrow> (r, s\<lparr>ro_heap := h\<rparr>))"

datatype own_cmd = ONew usize | OClone nat | ODup nat | ODrop nat | OResize nat usize | OUse nat raw_cmd

fun own_exec :: "own_cmd \<Rightarrow> (raw_owners, unit) oper" where
  "own_exec (ONew c) s = own_new c s"
| "own_exec (OClone i) s = (case handle s i of None \<Rightarrow> (Inr (), s) | Some a \<Rightarrow> own_clone a s)"
| "own_exec (ODup i) s = (case handle s i of None \<Rightarrow> (Inr (), s) | Some a \<Rightarrow> own_dup a s)"
| "own_exec (ODrop i) s = (case handle s i of None \<Rightarrow> (Inr (), s) | Some a \<Rightarrow> own_drop i a s)"
| "own_exec (OResize i n) s = (case handle s i of None \<Rightarrow> (Inr (), s) | Some a \<Rightarrow> own_resize a n s)"
| "own_exec (OUse i c) s =
     (case handle s i of
        None \<Rightarrow> (Inr (), s)
      | Some a \<Rightarrow>
          if in_place c \<and> raw_target c a
          then (case raw_exec c (ro_heap s) of (r, h) \<Rightarrow> (r, s\<lparr>ro_heap := h\<rparr>)) else (Inr (), s))"

definition own_step :: "raw_owners \<Rightarrow> own_cmd \<Rightarrow> raw_owners" where
  "own_step s c = snd (own_exec c s)"

section \<open>The invariant\<close>

text \<open>
  The count of a buffer is the number of its handles, each of which is to a buffer that exists; buffers with a
  handle have blocks of their own, of the size of their capacity, and there are no other blocks.
\<close>

definition owned :: "raw_owners \<Rightarrow> nat \<Rightarrow> bool" where
  "owned s a \<longleftrightarrow> Some a \<in> set (ro_handles s)"

definition own_ok :: "raw_owners \<Rightarrow> bool" where
  "own_ok s \<longleftrightarrow>
     heap_wf (ro_heap s) \<and>
     (\<forall>a. ro_count s a = count_list (ro_handles s) (Some a)) \<and>
     (\<forall>a. owned s a \<longrightarrow> a < raw_lim (ro_heap s) \<and> ro_mem s (ro_buf s a) = Some (owned_cap s a)) \<and>
     (\<forall>a b. owned s a \<and> owned s b \<and> ro_buf s a = ro_buf s b \<longrightarrow> a = b) \<and>
     (\<forall>p. ro_mem s p \<noteq> None \<longrightarrow> p < ro_brk s \<and> (\<exists>a. owned s a \<and> ro_buf s a = p))"

lemma own_okI:
  assumes "heap_wf (ro_heap s)" and "\<And>a. ro_count s a = count_list (ro_handles s) (Some a)"
    and "\<And>a. owned s a \<Longrightarrow> a < raw_lim (ro_heap s) \<and> ro_mem s (ro_buf s a) = Some (owned_cap s a)"
    and "\<And>a b. owned s a \<Longrightarrow> owned s b \<Longrightarrow> ro_buf s a = ro_buf s b \<Longrightarrow> a = b"
    and "\<And>p. ro_mem s p \<noteq> None \<Longrightarrow> p < ro_brk s \<and> (\<exists>a. owned s a \<and> ro_buf s a = p)"
  shows "own_ok s"
  using assms unfolding own_ok_def by blast

lemma own_okD:
  assumes "own_ok s"
  shows "heap_wf (ro_heap s)" and "ro_count s a = count_list (ro_handles s) (Some a)"
    and "owned s a \<Longrightarrow> a < raw_lim (ro_heap s)" and "owned s a \<Longrightarrow> ro_mem s (ro_buf s a) = Some (owned_cap s a)"
    and "owned s a \<Longrightarrow> owned s b \<Longrightarrow> ro_buf s a = ro_buf s b \<Longrightarrow> a = b"
    and "ro_mem s p \<noteq> None \<Longrightarrow> p < ro_brk s" and "ro_mem s p \<noteq> None \<Longrightarrow> \<exists>a. owned s a \<and> ro_buf s a = p"
  using assms unfolding own_ok_def by blast+

lemma handle_owned: "handle s i = Some a \<Longrightarrow> i < length (ro_handles s) \<and> ro_handles s ! i = Some a \<and> owned s a"
  unfolding handle_def owned_def by (metis nth_mem option.distinct(1))

lemma own_start_ok: "own_ok own_start"
  by (rule own_okI) (simp_all add: own_start_def owned_def)

text \<open>A change of the heap alone.\<close>

lemma own_ok_heap:
  assumes ok: "own_ok s" and "heap_wf h" and "raw_lim (ro_heap s) \<le> raw_lim h"
    and "\<And>a. a < raw_lim (ro_heap s) \<Longrightarrow> rcap (guarded (raws h a)) = owned_cap s a"
  shows "own_ok (s\<lparr>ro_heap := h\<rparr>)"
proof (rule own_okI)
  fix a assume "owned (s\<lparr>ro_heap := h\<rparr>) a"
  then have "owned s a" by (simp add: owned_def)
  with own_okD(3,4) [OF ok, of a] assms(3) assms(4) [of a]
  show "a < raw_lim (ro_heap (s\<lparr>ro_heap := h\<rparr>)) \<and>
      ro_mem (s\<lparr>ro_heap := h\<rparr>) (ro_buf (s\<lparr>ro_heap := h\<rparr>) a) = Some (owned_cap (s\<lparr>ro_heap := h\<rparr>) a)" by simp
qed (use assms(2) own_okD [OF ok] in \<open>simp_all add: owned_def\<close>)

text \<open>A buffer that was just made.\<close>

lemma own_fresh_ok:
  assumes ok: "own_ok s" and "heap_wf h" and a: "a = raw_lim (ro_heap s)" and "raw_lim (ro_heap s) < raw_lim h"
    and old: "\<And>b. b < raw_lim (ro_heap s) \<Longrightarrow> rcap (guarded (raws h b)) = owned_cap s b"
  shows "own_ok (own_fresh a h s)"
proof -
  let ?s = "own_fresh a h s"
  have new: "\<not> owned s a" using own_okD(3) [OF ok, of a] a by auto
  have f: "ro_heap ?s = h" "ro_handles ?s = ro_handles s @ [Some a]" "ro_count ?s = (ro_count s)(a := 1)"
    "ro_buf ?s = (ro_buf s)(a := ro_brk s)" "ro_mem ?s = (ro_mem s)(ro_brk s \<mapsto> rcap (guarded (raws h a)))"
    "ro_brk ?s = Suc (ro_brk s)"
    by (simp_all add: own_fresh_def block_new_def)
  have o: "owned ?s b \<longleftrightarrow> owned s b \<or> b = a" for b by (auto simp: owned_def f)
  have old_block: "ro_buf s b < ro_brk s" if "owned s b" for b
    using own_okD(6) [OF ok, of "ro_buf s b"] own_okD(4) [OF ok that] by simp
  show ?thesis
  proof (rule own_okI)
    show "heap_wf (ro_heap ?s)" using assms(2) by (simp add: f)
    show "ro_count ?s b = count_list (ro_handles ?s) (Some b)" for b
      using own_okD(2) [OF ok, of b] new by (auto simp: f owned_def count_list_0_iff)
    show "b < raw_lim (ro_heap ?s) \<and> ro_mem ?s (ro_buf ?s b) = Some (owned_cap ?s b)" if "owned ?s b" for b
    proof (cases "b = a")
      case True
      then show ?thesis using a assms(4) unfolding f by simp
    next
      case False
      with that have "owned s b" by (simp add: o)
      with own_okD(3,4) [OF ok, of b] old [of b] old_block [of b] assms(4) False show ?thesis by (simp add: f)
    qed
    show "b = c" if "owned ?s b" "owned ?s c" "ro_buf ?s b = ro_buf ?s c" for b c
      using that old_block [of b] old_block [of c] own_okD(5) [OF ok, of b c] by (auto simp: o f split: if_splits)
    show "p < ro_brk ?s \<and> (\<exists>b. owned ?s b \<and> ro_buf ?s b = p)" if "ro_mem ?s p \<noteq> None" for p
    proof (cases "p = ro_brk s")
      case False
      with that obtain b where "p < ro_brk s" "owned s b" "ro_buf s b = p"
        using own_okD(6,7) [OF ok, of p] by (auto simp: f)
      moreover from this new have "b \<noteq> a" by auto
      ultimately show ?thesis by (auto simp: o f)
    qed (auto simp: o f)
  qed
qed

lemma own_new_ok: "own_ok s \<Longrightarrow> own_ok (snd (own_new c s))"
  by (simp add: own_new_def raw_new_def alloc_raw_def)
    (rule own_fresh_ok, auto simp: heap_wf_def dest: own_okD(1))

lemma own_dup_ok:
  assumes ok: "own_ok s"
  shows "own_ok (snd (own_dup a s))"
proof (cases "poisoned (raws (ro_heap s) a)")
  case False
  let ?i = "guarded (raws (ro_heap s) a)"
  have wf: "raw_wf \<lparr>rlen = rcap ?i, rcap = rcap ?i, rbuf = rbuf ?i\<rparr>"
    using heap_wfD [OF own_okD(1) [OF ok], of a] by (simp add: raw_wf_def)
  show ?thesis
    unfolding own_dup_def raw_dup_free [OF own_okD(1) [OF ok] False]
    by (simp, rule own_fresh_ok [OF ok]) (use own_okD(1) [OF ok] wf in \<open>auto simp: alloc_raw_wf\<close>)
qed (use ok in \<open>simp add: own_dup_def\<close>)

lemma own_clone_ok:
  assumes ok: "own_ok s" and "owned s a"
  shows "own_ok (snd (own_clone a s))"
proof -
  have "owned (snd (own_clone a s)) b \<longleftrightarrow> owned s b" for b
    using assms(2) by (auto simp: own_clone_def owned_def)
  then show ?thesis
    by (intro own_okI) (use own_okD [OF ok] in \<open>simp_all add: own_clone_def\<close>)
qed

text \<open>Dropping a handle never fails, and frees the block with the last one.\<close>

lemma count_list_drop:
  "i < length xs \<Longrightarrow> xs ! i = y \<Longrightarrow> x \<noteq> z \<Longrightarrow>
     count_list (xs[i := z]) x = (if x = y then count_list xs x - 1 else count_list xs x)"
proof (induction xs arbitrary: i)
  case (Cons w xs)
  show ?case
  proof (cases i)
    case (Suc j)
    with Cons have "x = y \<Longrightarrow> x \<in> set xs" by auto
    then have "x = y \<Longrightarrow> count_list xs x \<noteq> 0" by (simp add: count_list_0_iff)
    with Suc Cons show ?thesis by auto
  qed (use Cons in auto)
qed simp

lemma own_drop_ok:
  assumes ok: "own_ok s" and h: "handle s i = Some a"
  shows "fst (own_drop i a s) = Inr () \<and> own_ok (snd (own_drop i a s)) \<and>
    ro_handles (snd (own_drop i a s)) = (ro_handles s)[i := None]"
proof -
  note hi = handle_owned [OF h]
  let ?s = "s\<lparr>ro_handles := (ro_handles s)[i := None], ro_count := (ro_count s)(a := ro_count s a - 1)\<rparr>"
  have cnt: "ro_count ?s b = count_list (ro_handles ?s) (Some b)" for b
    using own_okD(2) [OF ok, of b] hi count_list_drop [of i "ro_handles s" "Some a" "Some b" None] by auto
  have ow: "owned ?s b \<longleftrightarrow> owned s b \<and> (b = a \<longrightarrow> ro_count ?s a \<noteq> 0)" for b
  proof -
    have c: "Some b \<in> set xs \<longleftrightarrow> count_list xs (Some b) \<noteq> 0" for xs :: "nat option list"
      by (simp add: count_list_0_iff)
    show ?thesis
      using cnt [of b] own_okD(2) [OF ok, of b] hi count_list_drop [of i "ro_handles s" "Some a" "Some b" None]
      unfolding owned_def c by auto
  qed
  show ?thesis
  proof (cases "ro_count ?s a = 0")
    case False
    then have "owned ?s = owned s" using ow hi by auto
    then have "own_ok ?s"
      by (intro own_okI) (use own_okD [OF ok] cnt in \<open>simp_all\<close>)
    with False show ?thesis by (simp add: own_drop_def Let_def)
  next
    case True
    let ?t = "?s\<lparr>ro_mem := (ro_mem s)(ro_buf s a := None)\<rparr>"
    have "ro_mem s (ro_buf s a) = Some (owned_cap s a)" using own_okD(4) [OF ok] hi by blast
    then have e: "own_drop i a s = (Inr (), ?t)"
      using True by (simp add: own_drop_def Let_def raw_internal_drop_def block_free_def)
    have o: "owned ?t b \<longleftrightarrow> owned s b \<and> b \<noteq> a" for b using ow [of b] True by (auto simp: owned_def)
    have "own_ok ?t"
    proof (rule own_okI)
      show "b < raw_lim (ro_heap ?t) \<and> ro_mem ?t (ro_buf ?t b) = Some (owned_cap ?t b)" if "owned ?t b" for b
        using that o own_okD(3,4) [OF ok, of b] own_okD(5) [OF ok, of b a] hi by auto
      show "b = c" if "owned ?t b" "owned ?t c" "ro_buf ?t b = ro_buf ?t c" for b c
        using that o own_okD(5) [OF ok, of b c] by simp
      show "p < ro_brk ?t \<and> (\<exists>b. owned ?t b \<and> ro_buf ?t b = p)" if "ro_mem ?t p \<noteq> None" for p
        using that o own_okD(6,7) [OF ok, of p] by (auto split: if_splits)
    qed (use own_okD(1) [OF ok] cnt in simp_all)
    with e show ?thesis by simp
  qed
qed

text \<open>A \<open>resize\<close> that returns kept the capacity, and has moved the buffer to a new block.\<close>

lemma raw_resize_returned:
  assumes "heap_wf h" and "raw_resize a n h = (Inr u, h')"
  shows "n = rcap (guarded (raws h a)) \<and> h' = h"
proof -
  have np: "\<not> poisoned (raws h a)" using assms(2) by (auto simp: raw_resize_def)
  note out = resize_outcome [OF heap_wfD [OF assms(1)], of n a]
  have "n = rcap (guarded (raws h a))"
  proof (rule ccontr)
    assume "n \<noteq> rcap (guarded (raws h a))"
    then have "raw_internal_resize n (guarded (raws h a)) = (Inl MemoryUnsafe, guarded (raws h a))" using out by simp
    from on_raw_free [of h a "raw_internal_resize n", OF np this] assms(2) show False by (simp add: raw_resize_def)
  qed
  then show ?thesis
    using assms(2) on_raw_look [OF np, of "raw_internal_resize n" "()"] out by (simp add: raw_resize_def)
qed

lemma own_resize_returned:
  assumes ok: "own_ok s" and a: "owned s a" and "raw_resize a n (ro_heap s) = (Inr u, h)"
  shows "own_resize a n s =
    (Inr (), s\<lparr>ro_mem := ((ro_mem s)(ro_brk s \<mapsto> n))(ro_buf s a := None), ro_brk := Suc (ro_brk s),
               ro_buf := (ro_buf s)(a := ro_brk s)\<rparr>)"
    and "n = owned_cap s a" and "ro_buf s a < ro_brk s"
proof -
  note ret = raw_resize_returned [OF own_okD(1) [OF ok] assms(3)]
  show lt: "ro_buf s a < ro_brk s" "n = owned_cap s a"
    using own_okD(6) [OF ok, of "ro_buf s a"] own_okD(4) [OF ok a] ret by auto
  show "own_resize a n s =
    (Inr (), s\<lparr>ro_mem := ((ro_mem s)(ro_brk s \<mapsto> n))(ro_buf s a := None), ro_brk := Suc (ro_brk s),
               ro_buf := (ro_buf s)(a := ro_brk s)\<rparr>)"
    using assms(3) ret lt(1) own_okD(4) [OF ok a]
    by (simp add: own_resize_def block_new_def bindO_def block_free_def)
qed

lemma own_resize_ok:
  assumes ok: "own_ok s" and a: "owned s a"
  shows "own_ok (snd (own_resize a n s))"
proof (cases "raw_resize a n (ro_heap s)")
  case (Pair r h)
  note wf = own_okD(1) [OF ok]
  show ?thesis
  proof (cases r)
    case (Inl e)
    have "own_ok (s\<lparr>ro_heap := snd (raw_resize a n (ro_heap s))\<rparr>)"
      using raw_step_wf [OF wf, of "CResize a n"] raw_step_lim [OF wf, of "CResize a n"]
        raw_step_cap [OF wf, of _ "CResize a n"]
      by (intro own_ok_heap [OF ok]) (simp_all add: raw_step_def)
    then show ?thesis using Pair Inl by (simp add: own_resize_def block_new_def)
  next
    case (Inr u)
    note ret = own_resize_returned [OF ok a Pair [unfolded Inr]]
    have old: "ro_buf s b < ro_brk s" if "owned s b" for b
      using own_okD(6) [OF ok, of "ro_buf s b"] own_okD(4) [OF ok that] by simp
    define t where "t = snd (own_resize a n s)"
    have f: "ro_heap t = ro_heap s" "ro_handles t = ro_handles s" "ro_count t = ro_count s"
      "ro_buf t = (ro_buf s)(a := ro_brk s)" "ro_brk t = Suc (ro_brk s)"
      "ro_mem t = ((ro_mem s)(ro_brk s \<mapsto> n))(ro_buf s a := None)"
      by (simp_all add: t_def ret(1))
    have o: "owned t b \<longleftrightarrow> owned s b" for b by (simp add: owned_def f)
    show ?thesis
      unfolding t_def [symmetric]
    proof (rule own_okI)
      show "b < raw_lim (ro_heap t) \<and> ro_mem t (ro_buf t b) = Some (owned_cap t b)" if "owned t b" for b
        using that own_okD(3,4) [OF ok, of b] own_okD(5) [OF ok, of b a] a ret(2) [symmetric] ret(3) old [of b]
        unfolding o by (auto simp: f)
      show "b = c" if "owned t b" "owned t c" "ro_buf t b = ro_buf t c" for b c
        using that own_okD(5) [OF ok, of b c] old [of b] old [of c] unfolding o by (auto simp: f split: if_splits)
      show "p < ro_brk t \<and> (\<exists>b. owned t b \<and> ro_buf t b = p)" if "ro_mem t p \<noteq> None" for p
      proof (cases "p = ro_brk s")
        case True
        with a show ?thesis unfolding o by (auto simp: f intro!: exI [of _ a])
      next
        case False
        with that obtain b where b: "p < ro_brk s" "owned s b" "ro_buf s b = p" "p \<noteq> ro_buf s a"
          using own_okD(6,7) [OF ok, of p] by (auto simp: f split: if_splits)
        then have "b \<noteq> a" by auto
        with b show ?thesis unfolding o by (auto simp: f intro!: exI [of _ b])
      qed
    qed (use wf own_okD(2) [OF ok] in \<open>simp_all add: f\<close>)
  qed
qed

lemma own_step_ok:
  assumes ok: "own_ok s"
  shows "own_ok (own_step s c)"
proof (cases c)
  case (ODrop i)
  with own_drop_ok [OF ok, of i] ok show ?thesis by (auto simp: own_step_def split: option.split)
next
  case (OUse i rc)
  have "own_ok (s\<lparr>ro_heap := raw_step (ro_heap s) rc\<rparr>)"
    using own_okD(1) [OF ok]
    by (intro own_ok_heap [OF ok]) (auto simp: raw_step_wf raw_step_lim raw_step_cap)
  with OUse ok show ?thesis by (auto simp: own_step_def raw_step_def split: option.split prod.split)
qed (use ok own_new_ok own_dup_ok own_clone_ok own_resize_ok handle_owned in
    \<open>auto simp: own_step_def split: option.split\<close>)

interpretation own_sys: step_system own_step own_ok
  by unfold_locales (rule own_step_ok)

section \<open>Slices\<close>

fun resizes :: "own_cmd \<Rightarrow> bool" where
  "resizes (OResize _ _) = True"
| "resizes _ = False"

text \<open>Without a resize a buffer that exists keeps its block and its capacity.\<close>

lemma own_step_keeps_buf:
  assumes ok: "own_ok s" and a: "a < raw_lim (ro_heap s)" and "\<not> resizes c"
  shows "ro_buf (own_step s c) a = ro_buf s a \<and> owned_cap (own_step s c) a = owned_cap s a \<and>
    raw_lim (ro_heap s) \<le> raw_lim (ro_heap (own_step s c))"
proof -
  note wf = own_okD(1) [OF ok]
  have fresh: "ro_buf (own_fresh b h s) a = ro_buf s a \<and> ro_heap (own_fresh b h s) = h"
    if "b = raw_lim (ro_heap s)" for b h
    using a that by (simp add: own_fresh_def block_new_def)
  have dup: "ro_buf (snd (own_dup b s)) a = ro_buf s a \<and> owned_cap (snd (own_dup b s)) a = owned_cap s a \<and>
      raw_lim (ro_heap s) \<le> raw_lim (ro_heap (snd (own_dup b s)))" for b
  proof (cases "poisoned (raws (ro_heap s) b)")
    case False
    with a wf show ?thesis by (simp add: own_dup_def raw_dup_free fresh)
  qed (simp add: own_dup_def)
  have drop: "ro_buf (snd (own_drop i b s)) = ro_buf s \<and> ro_heap (snd (own_drop i b s)) = ro_heap s" for i b
    by (simp add: own_drop_def Let_def raw_internal_drop_def block_free_def)
  show ?thesis
  proof (cases c)
    case (OUse i rc)
    then show ?thesis
      using raw_step_cap [OF wf a, of rc] raw_step_lim [OF wf, of rc]
      by (auto simp: own_step_def raw_step_def split: option.split prod.split)
  qed (use assms(3) a dup drop fresh in
      \<open>auto simp: own_step_def own_new_def own_clone_def raw_new_def alloc_raw_def split: option.split\<close>)
qed

lemma own_run_keeps_buf:
  assumes "own_ok s" and "a < raw_lim (ro_heap s)" and "list_all (\<lambda>c. \<not> resizes c) cs"
  shows "ro_buf (foldl own_step s cs) a = ro_buf s a \<and> owned_cap (foldl own_step s cs) a = owned_cap s a"
  using assms
proof (induction cs arbitrary: s)
  case (Cons c cs)
  with own_step_keeps_buf [of s a c] own_step_ok [of s c] show ?case by simp
qed simp

lemma own_mutslice_eq:
  assumes "own_mutslice a s = (Inr sl, s1)"
  shows "s1 = s" and "os_block sl = ro_buf s a" and "os_slice sl = \<lparr>sl_raw = a, sl_len = rlen (guarded (raws (ro_heap s) a))\<rparr>"
    and "\<not> poisoned (raws (ro_heap s) a)"
proof -
  show np: "\<not> poisoned (raws (ro_heap s) a)"
    using assms by (auto simp: own_mutslice_def raw_as_mutslice_def)
  have "raw_as_mutslice a (ro_heap s) = (Inr \<lparr>sl_raw = a, sl_len = rlen (guarded (raws (ro_heap s) a))\<rparr>, ro_heap s)"
    unfolding raw_as_mutslice_def by (rule on_raw_look [OF np]) simp
  with assms show "s1 = s" "os_block sl = ro_buf s a"
    "os_slice sl = \<lparr>sl_raw = a, sl_len = rlen (guarded (raws (ro_heap s) a))\<rparr>"
    by (auto simp: own_mutslice_def)
qed

section \<open>Debug output\<close>

text \<open>\<open>hextype\<close>: each byte of a value as two hexadecimal digits, which no other value has.\<close>

definition hexdigit :: "nat \<Rightarrow> char" where
  "hexdigit n = ''0123456789abcdef'' ! n"

fun hextype :: "u8 list \<Rightarrow> string" where
  "hextype [] = []"
| "hextype (b # t) = hexdigit (unat b div 16) # hexdigit (unat b mod 16) # hextype t"

lemma hexdigit_inj: "m < 16 \<Longrightarrow> n < 16 \<Longrightarrow> hexdigit m = hexdigit n \<longleftrightarrow> m = n"
  unfolding hexdigit_def by (rule nth_eq_iff_index_eq) simp_all

lemma hextype_inj: "hextype t = hextype u \<longleftrightarrow> t = u"
proof (induction t arbitrary: u)
  case Nil
  show ?case by (cases u) simp_all
next
  case (Cons b t)
  have "b = c" if "unat b div 16 = unat c div 16" "unat b mod 16 = unat c mod 16" for c
    using that by (metis div_mult_mod_eq unsigned_word_eqI)
  moreover have "unat c div 16 < 16" for c :: u8 using unsigned_less [of c, where ?'a = nat] by simp
  ultimately show ?case using Cons by (cases u) (auto simp: hexdigit_inj)
qed

section \<open>Properties\<close>

text \<open>
  C14. After any run of operations on raw messages, panics included: the allocated blocks are exactly those of the
  buffers to which a handle is left, each of the size of its buffer's capacity; and dropping any handle
  succeeds, so no block is freed twice or with a wrong size. When the last handle is dropped no block is left.
\<close>

theorem raw_buffers_owned:
  "let s = foldl own_step own_start cs
   in (ro_mem s p = Some n \<longleftrightarrow>
         (\<exists>a. Some a \<in> set (ro_handles s) \<and> ro_buf s a = p \<and> owned_cap s a = n)) \<and>
      fst (own_exec (ODrop i) s) = Inr ()"
proof -
  let ?s = "foldl own_step own_start cs"
  have ok: "own_ok ?s" by (rule own_sys.run_good) (rule own_start_ok)
  have "ro_mem ?s p = Some n \<longleftrightarrow> (\<exists>a. owned ?s a \<and> ro_buf ?s a = p \<and> owned_cap ?s a = n)"
    using own_okD(4,7) [OF ok] by (metis option.distinct(1) option.inject)
  then show ?thesis
    using own_drop_ok [OF ok, of i] by (auto simp: owned_def Let_def split: option.split)
qed

text \<open>
  C15. A mutable slice of a buffer can be used as long as a handle to the buffer is left and no buffer is
  resized, whatever else is done, dropping the handle that it was taken from included. But a \<open>resize\<close> through
  another handle of the buffer, to the capacity it has, returns normally and frees the block under the slice:
  every write through it then goes to freed memory, although the slice and the call only needed safe code.
\<close>

theorem raw_slice_lifetime:
  assumes "own_mutslice a (foldl own_step own_start cs) = (Inr sl, s)" and "Some a \<in> set (ro_handles s)"
  shows "(\<forall>ds. list_all (\<lambda>c. \<not> resizes c) ds \<and> Some a \<in> set (ro_handles (foldl own_step s ds)) \<longrightarrow>
      no_ub (fst (own_slice_set sl k v (foldl own_step s ds)))) \<and>
    (handle s j = Some a \<and> k < unat (sl_len (os_slice sl)) \<longrightarrow>
      fst (own_exec (OResize j (owned_cap s a)) s) = Inr () \<and>
      fst (own_slice_set sl k v (own_step s (OResize j (owned_cap s a)))) = Inl MemoryUnsafe)"
proof (intro conjI allI impI)
  let ?s = "foldl own_step own_start cs"
  have ok: "own_ok ?s" by (rule own_sys.run_good) (rule own_start_ok)
  note sl = own_mutslice_eq [OF assms(1)]
  have ok: "own_ok s" using ok sl(1) by simp
  have a: "owned s a" using assms(2) by (simp add: owned_def)
  {
    fix ds assume ds: "list_all (\<lambda>c. \<not> resizes c) ds \<and> Some a \<in> set (ro_handles (foldl own_step s ds))"
    let ?t = "foldl own_step s ds"
    have tok: "own_ok ?t" by (rule own_sys.run_good) (rule ok)
    have keep: "ro_buf ?t a = ro_buf s a" "owned_cap ?t a = owned_cap s a"
      using own_run_keeps_buf [OF ok own_okD(3) [OF ok a]] ds by simp_all
    have "ro_mem ?t (os_block sl) = Some (owned_cap ?t a)"
      using own_okD(4) [OF tok, of a] ds keep(1) sl(1,2) by (simp add: owned_def)
    moreover have "unat (sl_len (os_slice sl)) \<le> unat (rcap (guarded (raws (ro_heap ?t) (sl_raw (os_slice sl)))))"
      using raw_wfD(2) [OF heap_wfD [OF own_okD(1) [OF ok]], of a] keep(2) sl(1,3) by (simp add: word_le_nat_alt)
    ultimately show "no_ub (fst (own_slice_set sl k v ?t))"
      using slice_set_safe [OF heap_wfD [OF own_okD(1) [OF tok]], of "os_slice sl" k v]
      by (auto simp: own_slice_set_def split: prod.split)
  }
  assume h: "handle s j = Some a \<and> k < unat (sl_len (os_slice sl))"
  let ?c = "owned_cap s a"
  have "raw_resize a ?c (ro_heap s) = (Inr (), ro_heap s)"
    using on_raw_look [of "ro_heap s" a "raw_internal_resize ?c" "()"] sl(1,4)
      resize_outcome [OF heap_wfD [OF own_okD(1) [OF ok]], of ?c a]
    by (simp add: raw_resize_def)
  note ret = own_resize_returned [OF ok a this]
  show "fst (own_exec (OResize j ?c) s) = Inr ()" using h ret(1) by simp
  show "fst (own_slice_set sl k v (own_step s (OResize j ?c))) = Inl MemoryUnsafe"
    using h ret(1) sl(1,2) by (simp add: own_step_def own_slice_set_def)
qed

theorem raw_slice_lifetime_witness:
  "\<exists>sl s. own_mutslice 0 (foldl own_step own_start [ONew 4, OClone 0]) = (Inr sl, s) \<and>
     no_ub (fst (own_slice_set sl 3 7 (own_step s (ODrop 0)))) \<and>
     fst (own_exec (OResize 1 4) s) = Inr () \<and>
     fst (own_slice_set sl 3 7 (own_step s (OResize 1 4))) = Inl MemoryUnsafe"
proof -
  note defs = own_step_def own_start_def own_new_def own_clone_def own_fresh_def block_new_def raw_new_def alloc_raw_def
    heap_empty_def handle_def
  let ?s = "foldl own_step own_start [ONew 4, OClone 0]"
  let ?sl = "\<lparr>os_slice = \<lparr>sl_raw = 0, sl_len = 4\<rparr>, os_block = 0\<rparr>"
  have h: "ro_handles ?s = [Some 0, Some 0]" "guarded (raws (ro_heap ?s) 0) = raw_internal_new 4"
    "\<not> poisoned (raws (ro_heap ?s) 0)" "ro_buf ?s 0 = 0"
    by (simp_all add: defs mutex_new_def)
  have c: "rlen (raw_internal_new 4) = 4" "rcap (raw_internal_new 4) = 4" by (simp_all add: raw_internal_new_def)
  have look: "raw_as_mutslice 0 (ro_heap ?s) = (Inr \<lparr>sl_raw = 0, sl_len = 4\<rparr>, ro_heap ?s)"
    unfolding raw_as_mutslice_def by (rule on_raw_look) (simp_all add: h c del: foldl.simps)
  have sl: "own_mutslice 0 ?s = (Inr ?sl, ?s)" by (simp add: own_mutslice_def look h(4) del: foldl.simps)
  have d: "ro_handles (foldl own_step ?s [ODrop 0]) = [None, Some 0]"
    by (simp add: defs own_drop_def Let_def)
  have "Some 0 \<in> set (ro_handles ?s)" by (simp add: h(1) del: foldl.simps)
  note both = raw_slice_lifetime [OF sl this, of 3 7 1]
  have "no_ub (fst (own_slice_set ?sl 3 7 (own_step ?s (ODrop 0))))"
    using conjunct1 [OF both, THEN spec, of "[ODrop 0]"] d by simp
  moreover have "handle ?s 1 = Some 0" "owned_cap ?s 0 = 4" by (simp_all add: handle_def h c del: foldl.simps)
  ultimately show ?thesis
    using sl conjunct2 [OF both] by (intro exI [of _ ?sl] exI [of _ ?s]) (simp del: foldl.simps own_exec.simps)
qed

end
