(* ===== verification/Ring_Queue.thy ===== *)
theory Ring_Queue
  imports Safe_Queue Pointer_Cache "HOL-Library.Sublist"
begin

text \<open>
  \<open>SizedRingQueue\<close> of \<open>src/queue.rs\<close>: a ring of \<open>2 ^ bsize\<close> items, each with a state word (0 free,
  1 being written, 2 full, 3 being read), and the positions of the next put and the next get. The
  operations are modelled as one thread runs them; the blocking get comes with the puts that
  other threads make while it waits.
\<close>

section \<open>The queue\<close>

record 'a ring_item =
  it_state :: usize
  it_value :: 'a

record 'a ring_queue =
  rq_block :: "'a ring_item list"
  rq_mask :: usize
  rq_count :: usize
  rq_tx :: usize
  rq_rx :: usize

text \<open>\<open>mem\<close> is what the allocated memory holds.\<close>

definition rq_new :: "(nat \<Rightarrow> 'a ring_item) \<Rightarrow> usize \<Rightarrow> 'a ring_queue" where
  "rq_new mem bsize =
     (let msk = ring_mask bsize
      in \<lparr>rq_block = map (\<lambda>pos. (mem pos)\<lparr>it_state := 0\<rparr>) [0..<unat (msk + 1)],
          rq_mask = msk, rq_count = 0, rq_tx = 0, rq_rx = 0\<rparr>)"

definition rq_len :: "'a ring_queue \<Rightarrow> usize" where
  "rq_len q = rq_count q"

text \<open>\<open>compare_and_swap\<close>: the old value, and the new one.\<close>

definition cas :: "'w \<Rightarrow> 'w \<Rightarrow> 'w \<Rightarrow> 'w \<times> 'w" where
  "cas old new st = (st, if st = old then new else st)"

text \<open>The loop of \<open>put\<close>: it goes on while the exchange succeeds.\<close>

function rq_claim :: "usize \<Rightarrow> usize" where
  "rq_claim st = (case cas 0 1 st of (r, st') \<Rightarrow> if r = 0 then rq_claim st' else st')"
  by pat_completeness auto
termination
  by (relation "measure (\<lambda>st. if st = 0 then 1 else 0)") (auto simp: cas_def)

declare rq_claim.simps [simp del]

definition rq_put :: "'a \<Rightarrow> 'a ring_queue \<Rightarrow> 'a ring_queue" where
  "rq_put t q =
     (let pos = slot (rq_mask q) (rq_tx q);
          item = rq_block q ! pos;
          item1 = item\<lparr>it_state := rq_claim (it_state item)\<rparr>;
          item2 = item1\<lparr>it_value := t\<rparr>;
          item3 = item2\<lparr>it_state := 2\<rparr>
      in q\<lparr>rq_block := (rq_block q)[pos := item3], rq_tx := rq_tx q + 1, rq_count := rq_count q + 1\<rparr>)"

text \<open>The end of \<open>maybeget\<close>: the item at \<open>pos\<close>, claimed with state 3, is read and freed.\<close>

definition rq_take :: "nat \<Rightarrow> 'a ring_queue \<Rightarrow> 'a \<times> 'a ring_queue" where
  "rq_take pos q =
     (let item = rq_block q ! pos
      in (it_value item,
          q\<lparr>rq_block := (rq_block q)[pos := item\<lparr>it_state := 0\<rparr>], rq_count := rq_count q - 1\<rparr>))"

text \<open>\<open>maybeget(false)\<close>.\<close>

definition rq_get :: "'a ring_queue \<Rightarrow> 'a option \<times> 'a ring_queue" where
  "rq_get q =
     (let pos = slot (rq_mask q) (rq_rx q);
          q1 = q\<lparr>rq_rx := rq_rx q + 1\<rparr>;
          item = rq_block q1 ! pos;
          (r, st) = cas 2 3 (it_state item);
          q2 = q1\<lparr>rq_block := (rq_block q1)[pos := item\<lparr>it_state := st\<rparr>]\<rparr>
      in if r \<noteq> 2 then (None, q2) else case rq_take pos q2 of (t, q3) \<Rightarrow> (Some t, q3))"

text \<open>
  \<open>maybeget(true)\<close>: a position is taken back when there is nothing at it. \<open>others\<close> are the items
  that other threads put while this one yields, for each time it does; \<open>None\<close> means that it is still
  waiting when these are over.
\<close>

fun rq_get_block :: "'a list list \<Rightarrow> 'a ring_queue \<Rightarrow> ('a \<times> 'a ring_queue) option" where
  "rq_get_block others q =
     (let pos = slot (rq_mask q) (rq_rx q);
          q1 = q\<lparr>rq_rx := rq_rx q + 1\<rparr>;
          item = rq_block q1 ! pos;
          (r, st) = cas 2 3 (it_state item);
          q2 = q1\<lparr>rq_block := (rq_block q1)[pos := item\<lparr>it_state := st\<rparr>]\<rparr>
      in if r = 2 then Some (rq_take pos q2)
         else
           let q3 = q2\<lparr>rq_rx := rq_rx q2 - 1\<rparr>
           in case others of
                [] \<Rightarrow> None
              | ts # rest \<Rightarrow> rq_get_block rest (fold rq_put ts q3))"

declare rq_get_block.simps [simp del]

section \<open>The queue as a list\<close>

definition rq_at :: "'a ring_queue \<Rightarrow> nat \<Rightarrow> 'a ring_item" where
  "rq_at q k = rq_block q ! slot (rq_mask q) (rq_rx q + of_int (int k))"

definition rq_items :: "'a ring_queue \<Rightarrow> 'a list" where
  "rq_items q = map (\<lambda>k. it_value (rq_at q k)) [0..<unat (rq_count q)]"

text \<open>The items lie behind one another from the next get to the next put.\<close>

definition rq_ok :: "nat \<Rightarrow> 'a ring_queue \<Rightarrow> bool" where
  "rq_ok b q \<longleftrightarrow>
     b < 64 \<and> rq_mask q = mask b \<and> length (rq_block q) = 2 ^ b \<and> rq_tx q = rq_rx q + rq_count q \<and>
     unat (rq_count q) \<le> 2 ^ b \<and>
     (\<forall>k < 2 ^ b. it_state (rq_at q k) = (if k < unat (rq_count q) then 2 else 0))"

lemma length_rq_items [simp]: "length (rq_items q) = unat (rq_count q)"
  by (simp add: rq_items_def)

lemma rq_claim_1: "rq_claim st = (if st = 0 then 1 else st)"
proof -
  have "rq_claim 1 = 1" by (subst rq_claim.simps) (simp add: cas_def)
  then show ?thesis by (subst rq_claim.simps) (simp add: cas_def)
qed

lemma rq_put_eq:
  "rq_put t q = q\<lparr>rq_block := (rq_block q)[slot (rq_mask q) (rq_tx q) :=
       (rq_block q ! slot (rq_mask q) (rq_tx q))\<lparr>it_value := t, it_state := 2\<rparr>],
     rq_tx := rq_tx q + 1, rq_count := rq_count q + 1\<rparr>"
  by (simp add: rq_put_def Let_def)

lemma rq_get_eq:
  "rq_get q =
     (let q1 = q\<lparr>rq_rx := rq_rx q + 1\<rparr>
      in if it_state (rq_at q 0) = 2
         then (Some (it_value (rq_at q 0)), q1\<lparr>rq_block := (rq_block q)[slot (rq_mask q) (rq_rx q) :=
           (rq_at q 0)\<lparr>it_state := 0\<rparr>], rq_count := rq_count q - 1\<rparr>)
         else (None, q1))"
proof (cases "slot (rq_mask q) (rq_rx q) < length (rq_block q)")
  case True
  then show ?thesis by (auto simp: rq_get_def rq_take_def rq_at_def cas_def Let_def)
next
  case False
  then have "(rq_block q)[slot (rq_mask q) (rq_rx q) := x] = rq_block q" for x
    by (simp add: list_update_beyond not_less)
  then show ?thesis by (simp add: rq_get_def rq_take_def rq_at_def cas_def Let_def)
qed

lemma rq_okD:
  assumes "rq_ok b q"
  shows "b \<le> 64" "rq_mask q = mask b" "length (rq_block q) = 2 ^ b"
    "rq_tx q = rq_rx q + of_int (int (unat (rq_count q)))" "unat (rq_count q) \<le> 2 ^ b"
    "k < 2 ^ b \<Longrightarrow> it_state (rq_at q k) = (if k < unat (rq_count q) then 2 else 0)"
  using assms by (simp_all add: rq_ok_def)

text \<open>The slots at different distances from the next get are different.\<close>

lemma rq_slots_differ:
  assumes "b \<le> 64" and "k < 2 ^ b" and "n < 2 ^ b"
  shows "slot (mask b) (p + of_int (int k)) = slot (mask b) (p + of_int (int n)) \<longleftrightarrow> k = n"
proof -
  have "int k < 2 ^ b" "int n < 2 ^ b" using assms by (simp_all add: int_less_exp)
  then have "\<bar>int k - int n\<bar> < 2 ^ b" by linarith
  then show ?thesis using assms(1) by (subst slot_eq_iff) simp_all
qed

lemma rq_put_at:
  assumes "rq_ok b q" and "k < 2 ^ b" and "unat (rq_count q) < 2 ^ b"
  shows "rq_at (rq_put t q) k =
    (if k = unat (rq_count q) then (rq_at q k)\<lparr>it_value := t, it_state := 2\<rparr> else rq_at q k)"
proof -
  note ok = rq_okD [OF assms(1)]
  have "slot (mask b) (rq_rx q + of_int (int k)) = slot (mask b) (rq_tx q) \<longleftrightarrow> k = unat (rq_count q)"
    unfolding ok(4) by (rule rq_slots_differ [OF ok(1) assms(2,3)])
  then show ?thesis
    using ok slot_less [OF ok(1)] by (auto simp: rq_at_def rq_put_eq nth_list_update)
qed

lemma unat_Suc_ring: "b < 64 \<Longrightarrow> unat (n :: usize) \<le> 2 ^ b \<Longrightarrow> unat (n + 1) = Suc (unat n)"
proof -
  assume "b < 64" "unat n \<le> 2 ^ b"
  moreover have "(2 :: nat) ^ b \<le> 2 ^ 63" using \<open>b < 64\<close> by (intro power_increasing) simp_all
  ultimately show ?thesis using unat_add_no_wrap [of n 1] by simp
qed

lemma rq_put_ok:
  assumes "rq_ok b q" and "unat (rq_count q) < 2 ^ b"
  shows "rq_ok b (rq_put t q) \<and> rq_items (rq_put t q) = rq_items q @ [t]"
proof -
  have n: "unat (rq_count q + 1) = Suc (unat (rq_count q))"
    using assms by (intro unat_Suc_ring [of b]) (simp_all add: rq_ok_def)
  have "rq_ok b (rq_put t q)"
    unfolding rq_ok_def
  proof (intro conjI allI impI)
    fix k :: nat
    assume "k < 2 ^ b"
    then show "it_state (rq_at (rq_put t q) k) = (if k < unat (rq_count (rq_put t q)) then 2 else 0)"
      unfolding rq_put_at [OF assms(1) \<open>k < 2 ^ b\<close> assms(2)]
      using rq_okD(6) [OF assms(1)] n by (auto simp: rq_put_eq less_Suc_eq)
  qed (use assms n in \<open>simp_all add: rq_ok_def rq_put_eq\<close>)
  moreover have "rq_items (rq_put t q) = rq_items q @ [t]"
  proof -
    have "rq_items (rq_put t q) =
        map (\<lambda>k. it_value (rq_at (rq_put t q) k)) ([0..<unat (rq_count q)] @ [unat (rq_count q)])"
      using n by (simp add: rq_items_def rq_put_eq)
    also have "\<dots> = rq_items q @ [t]"
      using assms(2) by (auto simp: rq_items_def rq_put_at [OF assms(1) _ assms(2)])
    finally show ?thesis .
  qed
  ultimately show ?thesis by simp
qed

text \<open>
  What a get does, whatever is in the slots: the items seen from the next get move up by one, and
  the one it took, or found not full, comes last.
\<close>

definition rq_shape :: "nat \<Rightarrow> 'a ring_queue \<Rightarrow> bool" where
  "rq_shape b q \<longleftrightarrow> b < 64 \<and> rq_mask q = mask b \<and> length (rq_block q) = 2 ^ b"

lemma rq_get_at:
  assumes "rq_shape b q" and "rq_get q = (r, q')"
  shows "rq_shape b q'" and "rq_tx q' = rq_tx q" and "rq_rx q' = rq_rx q + 1"
    and "r = (if it_state (rq_at q 0) = 2 then Some (it_value (rq_at q 0)) else None)"
    and "rq_count q' = (if r = None then rq_count q else rq_count q - 1)"
    and "Suc k < 2 ^ b \<Longrightarrow> rq_at q' k = rq_at q (Suc k)"
    and "Suc k = 2 ^ b \<Longrightarrow> rq_at q' k =
      (if it_state (rq_at q 0) = 2 then (rq_at q 0)\<lparr>it_state := 0\<rparr> else rq_at q 0)"
proof -
  have ok: "b \<le> 64" "rq_mask q = mask b" "length (rq_block q) = 2 ^ b"
    using assms(1) by (simp_all add: rq_shape_def)
  define i where "i = slot (mask b) (rq_rx q)"
  define it where "it = (if it_state (rq_at q 0) = 2 then (rq_at q 0)\<lparr>it_state := 0\<rparr> else rq_at q 0)"
  have i: "i < 2 ^ b" and at0: "rq_at q 0 = rq_block q ! i"
    using slot_less [OF ok(1), of "rq_rx q"] by (simp_all add: i_def rq_at_def ok(2))
  then have bl: "(rq_block q)[i := rq_at q 0] = rq_block q" by simp
  have q': "r = (if it_state (rq_at q 0) = 2 then Some (it_value (rq_at q 0)) else None)"
    "rq_mask q' = mask b" "rq_rx q' = rq_rx q + 1" "rq_tx q' = rq_tx q" "rq_block q' = (rq_block q)[i := it]"
    "rq_count q' = (if r = None then rq_count q else rq_count q - 1)"
    using assms(2) ok(2) bl by (auto simp: rq_get_eq i_def it_def Let_def split: if_splits)
  then show "rq_tx q' = rq_tx q" "rq_rx q' = rq_rx q + 1"
    "r = (if it_state (rq_at q 0) = 2 then Some (it_value (rq_at q 0)) else None)"
    "rq_count q' = (if r = None then rq_count q else rq_count q - 1)" by blast+
  show "rq_shape b q'" using assms(1) by (simp add: rq_shape_def q')
  show "rq_at q' k = rq_at q (Suc k)" if "Suc k < 2 ^ b"
  proof -
    have "slot (mask b) (rq_rx q + of_int (int (Suc k))) \<noteq> slot (mask b) (rq_rx q + of_int (int 0))"
      using that by (subst rq_slots_differ [OF ok(1)]) simp_all
    then show ?thesis by (simp add: rq_at_def q' i_def ok(2) algebra_simps)
  qed
  show "rq_at q' k = (if it_state (rq_at q 0) = 2 then (rq_at q 0)\<lparr>it_state := 0\<rparr> else rq_at q 0)"
    if "Suc k = 2 ^ b"
  proof -
    have "int (Suc k) = int (2 ^ b)" using that by (simp only:)
    then have k: "int k = 2 ^ b - 1" by simp
    have "slot (mask b) (rq_rx q' + of_int (int k)) = i"
      unfolding k i_def using slot_round [OF ok(1), of "rq_rx q" 0] by (simp add: q'(3) algebra_simps)
    then have "rq_at q' k = it" using i ok(3) by (simp add: rq_at_def q')
    then show ?thesis by (simp only: it_def)
  qed
qed

lemma rq_get_ok:
  assumes "rq_ok b q" and "rq_items q = x # xs" and "rq_get q = (r, q')"
  shows "rq_ok b q' \<and> r = Some x \<and> rq_items q' = xs"
proof -
  note ok = rq_okD [OF assms(1)]
  have shape: "rq_shape b q" using assms(1) by (simp add: rq_ok_def rq_shape_def)
  note g = rq_get_at [OF shape assms(3)]
  obtain n where n: "unat (rq_count q) = Suc n"
    using assms(2) by (metis length_rq_items length_Cons)
  have s0: "it_state (rq_at q 0) = 2" using ok(6) [of 0] n by simp
  then have r: "r = Some (it_value (rq_at q 0))" "rq_count q' = rq_count q - 1" using g(4,5) by simp_all
  have n1: "unat (rq_count q - 1) = n"
    using n by (metis diff_Suc_1 unat_minus_one unat_eq_zero nat.distinct(1))
  have "rq_ok b q'"
    unfolding rq_ok_def
  proof (intro conjI allI impI)
    fix k :: nat
    assume k: "k < 2 ^ b"
    show "it_state (rq_at q' k) = (if k < unat (rq_count q') then 2 else 0)"
      using k n ok(5) ok(6) [of "Suc k"] g(6) [of k] g(7) [of k] s0
      by (cases "Suc k < 2 ^ b") (auto simp: r n1)
  qed (use assms(1) g n n1 r in \<open>simp_all add: rq_ok_def rq_shape_def\<close>)
  moreover have "rq_items q = it_value (rq_at q 0) # map (\<lambda>k. it_value (rq_at q (Suc k))) [0..<n]"
    unfolding rq_items_def n by (simp add: upt_conv_Cons map_Suc_upt [symmetric] del: upt_Suc)
  moreover have "rq_items q' = map (\<lambda>k. it_value (rq_at q (Suc k))) [0..<n]"
    unfolding rq_items_def r(2) n1 using g(6) n ok(5) by (intro map_cong) simp_all
  ultimately show ?thesis using assms(2) r(1) by simp
qed

lemma rq_new_ok:
  assumes "unat bsize < 64"
  shows "rq_ok (unat bsize) (rq_new mem bsize) \<and> rq_items (rq_new mem bsize) = []"
  using assms slot_less [of "unat bsize"]
  by (simp add: rq_ok_def rq_items_def rq_at_def rq_new_def Let_def unat_ring_size) (simp add: ring_mask_eq)

lemma rq_items_new [simp]: "rq_items (rq_new mem bsize) = []"
  by (simp add: rq_items_def rq_new_def Let_def)

text \<open>Any size below \<open>2 ^ 64\<close>: the exponents are \<open>b mod 64\<close>.\<close>

interpretation rq: bounded_fifo "rq_new mem (of_nat (b mod 64))" rq_put rq_get rq_items "rq_ok (b mod 64)"
  "\<lambda>n. n < 2 ^ (b mod 64)" for mem b
proof unfold_locales
  have l: "b mod 64 < 64" by (rule mod_less_divisor) simp
  have "unat (of_nat (b mod 64) :: usize) = b mod 64"
    by (rule unat_of_nat_usize, rule order.strict_trans [OF l]) simp
  from rq_new_ok [of "of_nat (b mod 64)" mem, unfolded this, OF l]
  show "rq_ok (b mod 64) (rq_new mem (of_nat (b mod 64)))" by (rule conjunct1)
qed (auto simp: neq_Nil_conv rq_put_ok dest: rq_get_ok)

section \<open>Properties\<close>

text \<open>
  C36. Used with care, the ring queue is a first-in first-out queue: any run of puts and gets on a
  new queue that never puts when all slots are full and never gets when there is nothing returns
  what the list model returns, and its length is the number of items inside.
\<close>

theorem ring_queue_fifo:
  assumes "b < 64" and "proper (\<lambda>n. n < 2 ^ b) ops 0"
    and "fifo_run rq_put rq_get ops (rq_new mem (of_nat b)) = (rs, q)"
  shows "list_run ops [] = (rs, rq_items q) \<and> unat (rq_len q) = length (rq_items q)"
  using rq.proper_run_refines [OF rq.ok_empty [of b], of ops mem rs q] assms
  by (simp add: rq_len_def)

theorem ring_queue_fifo_witness:
  "fst (fifo_run rq_put rq_get [Put 1, Put 2, Get, Put 3, Get, Get]
     (rq_new (\<lambda>_. \<lparr>it_state = 7, it_value = 0 :: nat\<rparr>) (of_nat 1))) = [Some 1, Some 2, Some 3]"
proof -
  let ?ops = "[Put 1, Put 2, Get, Put 3, Get, Get] :: nat qop list"
  let ?q = "rq_new (\<lambda>_. \<lparr>it_state = 7, it_value = 0 :: nat\<rparr>) (of_nat 1)"
  obtain rs q where r: "fifo_run rq_put rq_get ?ops ?q = (rs, q)" by (meson surj_pair)
  from ring_queue_fifo [OF _ _ r] have "list_run ?ops [] = (rs, rq_items q)" by simp
  with r show ?thesis by simp
qed

text \<open>What gets return is what stands in the slots, in their order.\<close>

definition found :: "'a ring_item \<Rightarrow> 'a option" where
  "found it = (if it_state it = 2 then Some (it_value it) else None)"

lemma gets_find:
  assumes "rq_shape b q" and "n \<le> 2 ^ b"
    and "fifo_run rq_put rq_get (replicate n Get) q = (rs, q')"
  shows "rs = map (\<lambda>k. found (rq_at q k)) [0..<n] \<and> rq_shape b q' \<and>
    rq_count q' = rq_count q - of_nat (length (taken rs)) \<and>
    (\<forall>k. k + n < 2 ^ b \<longrightarrow> rq_at q' k = rq_at q (k + n)) \<and>
    (\<forall>k < n. it_state (rq_at q' (2 ^ b - n + k)) \<noteq> 2)"
  using assms
proof (induction n arbitrary: q rs)
  case 0
  then show ?case by (simp add: taken_def)
next
  case (Suc n)
  obtain r q1 where g: "rq_get q = (r, q1)" by (meson surj_pair)
  obtain rs1 q2 where t: "fifo_run rq_put rq_get (replicate n Get) q1 = (rs1, q2)" by (meson surj_pair)
  have eq: "rs = r # rs1" "q2 = q'" using Suc.prems(3) g t by simp_all
  note at = rq_get_at [OF Suc.prems(1) g]
  from Suc.prems(2) have "n \<le> 2 ^ b" by simp
  note IH = Suc.IH [OF at(1) this t [unfolded eq(2)]]
  have r: "r = found (rq_at q 0)" using at(4) by (simp add: found_def)
  have "rs1 = map (\<lambda>k. found (rq_at q (Suc k))) [0..<n]"
    using IH at(6) Suc.prems(2) by simp
  then have "rs = map (\<lambda>k. found (rq_at q k)) [0..<Suc n]"
    by (simp add: eq(1) r upt_conv_Cons map_Suc_upt [symmetric] del: upt_Suc)
  moreover have "rq_count q' = rq_count q - of_nat (length (taken rs))"
    using IH at(5) by (simp add: eq(1) taken_def)
  moreover have "rq_at q' k = rq_at q (k + Suc n)" if "k + Suc n < 2 ^ b" for k
    using that IH at(6) [of "k + n"] by simp
  moreover have "it_state (rq_at q' (2 ^ b - Suc n + k)) \<noteq> 2" if "k < Suc n" for k
  proof (cases k)
    case 0
    have "rq_at q' (2 ^ b - Suc n) = rq_at q1 (2 ^ b - Suc n + n)"
      using Suc.prems(2) IH by simp
    also have "2 ^ b - Suc n + n = 2 ^ b - 1" using Suc.prems(2) by linarith
    finally show ?thesis using at(7) [of "2 ^ b - 1"] 0 by (simp split: if_splits)
  next
    case (Suc j)
    then have "j < n" "2 ^ b - Suc n + k = 2 ^ b - n + j" using that Suc.prems(2) by simp_all
    with IH show ?thesis by simp
  qed
  ultimately show ?case using IH by blast
qed

lemma fifo_run_append:
  "fifo_run put get (xs @ ys) q =
     (case fifo_run put get xs q of (rs, q1) \<Rightarrow>
        case fifo_run put get ys q1 of (rs', q2) \<Rightarrow> (rs @ rs', q2))"
  by (induction put get xs q rule: fifo_run.induct) (auto split: prod.splits)

lemma fifo_run_puts: "fifo_run put get (map Put xs) q = ([], fold put xs q)"
  by (induction xs arbitrary: q) simp_all

lemma rq_puts_ok:
  assumes "rq_ok b q" and "length (rq_items q) + length xs \<le> 2 ^ b"
  shows "rq_ok b (fold rq_put xs q) \<and> rq_items (fold rq_put xs q) = rq_items q @ xs"
  using assms
proof (induction xs arbitrary: q)
  case (Cons x xs)
  then have "rq_ok b (rq_put x q) \<and> rq_items (rq_put x q) = rq_items q @ [x]" by (intro rq_put_ok) simp_all
  with Cons.IH [of "rq_put x q"] Cons.prems(2) show ?case by (simp del: length_rq_items)
qed simp

lemma rq_new_of_nat: "b < 64 \<Longrightarrow> rq_ok b (rq_new mem (of_nat b))"
  using rq.ok_empty [of b mem] by simp

lemma taken_map_Some [simp]: "taken (map Some xs) = xs"
  by (induction xs) (simp_all add: taken_def)

text \<open>
  C37. A put into a full ring queue does not wait for a slot (its exchange loop ends exactly when it
  should go on): it overwrites the oldest item. The gets that follow return the new item in its
  place, and then nothing, although the length still is 1.
\<close>

theorem ring_put_overwrites:
  assumes "b < 64" and "length xs = 2 ^ b"
    and "fifo_run rq_put rq_get (map Put (xs @ [t]) @ replicate (2 ^ b) Get) (rq_new mem (of_nat b)) = (rs, q)"
  shows "rs = map Some (t # tl xs) \<and> rq_len q = 1 \<and> fst (rq_get q) = None"
proof -
  define q1 where "q1 = fold rq_put xs (rq_new mem (of_nat b))"
  define q2 where "q2 = rq_put t q1"
  have ok: "rq_ok b q1" and xs: "rq_items q1 = xs"
    using rq_puts_ok [OF rq_new_of_nat [OF assms(1)], of mem xs] assms(2) by (simp_all add: q1_def)
  note ok = rq_okD [OF ok] and n = length_rq_items [of q1, unfolded xs assms(2)]
  have c: "rq_count q1 = of_nat (2 ^ b)" using arg_cong [OF n, of "of_nat :: nat \<Rightarrow> usize"] by simp
  have tx: "slot (mask b) (rq_tx q1) = slot (mask b) (rq_rx q1)"
    using slot_round [OF ok(1), of "rq_rx q1" 0] ok(4) c by simp
  have run: "fifo_run rq_put rq_get (replicate (2 ^ b) Get) q2 = (rs, q)"
    using assms(3) by (simp add: fifo_run_append fifo_run_puts q1_def q2_def del: map_append split: prod.splits)
  have shape: "rq_shape b q2" using ok assms(1) by (simp add: rq_shape_def q2_def rq_put_eq)
  have "found (rq_at q2 k) = Some ((t # tl xs) ! k)" if k: "k < 2 ^ b" for k
  proof (cases k)
    case 0
    then show ?thesis using tx slot_less [OF ok(1), of "rq_rx q1"] ok
      by (simp add: found_def rq_at_def q2_def rq_put_eq)
  next
    case (Suc j)
    have "slot (mask b) (rq_rx q1 + of_int (int k)) \<noteq> slot (mask b) (rq_rx q1 + of_int (int 0))"
      using k Suc by (subst rq_slots_differ [OF ok(1)]) simp_all
    then have "rq_at q2 k = rq_at q1 k" using tx ok(2) by (simp add: rq_at_def q2_def rq_put_eq)
    moreover have "it_value (rq_at q1 k) = xs ! k" using k n by (simp add: rq_items_def flip: xs)
    ultimately show ?thesis using ok(6) [OF k] k n Suc assms(2) by (simp add: found_def nth_tl)
  qed
  moreover note g = gets_find [OF shape order.refl run]
  ultimately have "rs = map (\<lambda>k. Some ((t # tl xs) ! k)) [0..<2 ^ b]" by simp
  also have "\<dots> = map Some (map (\<lambda>k. (t # tl xs) ! k) [0..<length (t # tl xs)])"
    using assms(2) by simp
  finally have rs: "rs = map Some (t # tl xs)" by (simp only: map_nth)
  moreover have "rq_count q = 1"
    using g assms(2) c by (simp add: rs q2_def rq_put_eq del: list.map)
  moreover have "it_state (rq_at q 0) \<noteq> 2" using g by force
  ultimately show ?thesis by (simp add: rq_len_def rq_get_eq Let_def)
qed

theorem ring_put_overwrites_witness:
  "fst (fifo_run rq_put rq_get (map Put ([1, 2] @ [3]) @ replicate (2 ^ 1) Get)
     (rq_new (\<lambda>_. \<lparr>it_state = 7, it_value = 0 :: nat\<rparr>) (of_nat 1))) = [Some 3, Some 2]"
proof -
  let ?ops = "map Put ([1, 2] @ [3]) @ replicate (2 ^ 1) Get"
  let ?q = "rq_new (\<lambda>_. \<lparr>it_state = 7, it_value = 0 :: nat\<rparr>) (of_nat 1)"
  obtain rs q where r: "fifo_run rq_put rq_get ?ops ?q = (rs, q)" by (meson surj_pair)
  from ring_put_overwrites [OF _ _ r] have "rs = [Some 3, Some 2]" by simp
  then show ?thesis unfolding r by simp
qed

text \<open>
  A get that finds nothing still advances the position of the gets. An item put after it is
  missed by the next gets, which return nothing though it is there, until they have gone once
  round the ring.
\<close>

lemma ring_get_skips:
  assumes "b < 64"
    and "fifo_run rq_put rq_get ([Get, Put x] @ replicate (2 ^ b) Get) (rq_new mem (of_nat b)) = (rs, q)"
  shows "rs = None # replicate (2 ^ b - 1) None @ [Some x]"
proof -
  let ?q0 = "rq_new mem (of_nat b)"
  have ok0: "rq_ok b ?q0" by (rule rq_new_of_nat [OF assms(1)])
  note ok = rq_okD [OF ok0]
  have n0: "unat (rq_count ?q0) = 0" by (simp add: rq_new_def Let_def)
  have shape0: "rq_shape b ?q0" using ok assms(1) by (simp add: rq_shape_def)
  obtain r q1 where g: "rq_get ?q0 = (r, q1)" by (meson surj_pair)
  note at = rq_get_at [OF shape0 g]
  have e0: "it_state (rq_at ?q0 k) = 0" if "k < 2 ^ b" for k using ok(6) [OF that] n0 by simp
  have e1: "it_state (rq_at q1 k) = 0" if "k < 2 ^ b" for k
    using that at(6,7) [of k] e0 [of 0] e0 [of "Suc k"] by (cases "Suc k < 2 ^ b") auto
  define q2 where "q2 = rq_put x q1"
  have "int (2 ^ b - 1) = 2 ^ b - (1 :: int)" by (simp add: of_nat_diff)
  then have tx: "slot (mask b) (rq_tx q1) = slot (mask b) (rq_rx q1 + of_int (int (2 ^ b - 1)))"
    using slot_round [OF ok(1), of "rq_tx q1" 0] ok(4) n0 at(2,3) by (simp add: algebra_simps)
  have q1: "rq_mask q1 = mask b" "length (rq_block q1) = 2 ^ b" using at(1) by (simp_all add: rq_shape_def)
  have f2: "found (rq_at q2 k) = (if k = 2 ^ b - 1 then Some x else None)" if k: "k < 2 ^ b" for k
  proof (cases "k = 2 ^ b - 1")
    case True
    then show ?thesis using tx slot_less [OF ok(1)] q1
      by (simp add: found_def rq_at_def q2_def rq_put_eq del: of_int_of_nat_eq)
  next
    case False
    have "slot (mask b) (rq_rx q1 + of_int (int k)) \<noteq> slot (mask b) (rq_rx q1 + of_int (int (2 ^ b - 1)))"
      using k False by (subst rq_slots_differ [OF ok(1)]) simp_all
    then have "rq_at q2 k = rq_at q1 k" using tx q1 by (simp add: rq_at_def q2_def rq_put_eq del: of_int_of_nat_eq)
    then show ?thesis using False e1 [OF k] by (simp add: found_def)
  qed
  obtain rs2 where run: "fifo_run rq_put rq_get (replicate (2 ^ b) Get) q2 = (rs2, q)" and rs: "rs = r # rs2"
    using assms(2) g by (auto simp: q2_def split: prod.splits)
  have "rq_shape b q2" using q1 assms(1) by (simp add: rq_shape_def q2_def rq_put_eq)
  from gets_find [OF this order.refl run]
  have "rs2 = map (\<lambda>k. if k = 2 ^ b - 1 then Some x else None) [0..<2 ^ b]" using f2 by simp
  also have "\<dots> = replicate (2 ^ b - 1) None @ [Some x]"
    by (rule nth_equalityI) (auto simp: nth_append)
  finally show ?thesis using rs at(4) e0 [of 0] by simp
qed

lemma ring_get_skips_example:
  "fst (fifo_run rq_put rq_get ([Get, Put 5] @ replicate (2 ^ 1) Get)
     (rq_new (\<lambda>_. \<lparr>it_state = 7, it_value = 0 :: nat\<rparr>) (of_nat 1))) = [None, None, Some 5]"
proof -
  let ?ops = "[Get, Put 5] @ replicate (2 ^ 1) Get"
  let ?q = "rq_new (\<lambda>_. \<lparr>it_state = 7, it_value = 0 :: nat\<rparr>) (of_nat 1)"
  obtain rs q where r: "fifo_run rq_put rq_get ?ops ?q = (rs, q)" by (meson surj_pair)
  from ring_get_skips [OF _ r] have "rs = [None, None, Some 5]" by simp
  then show ?thesis unfolding r by simp
qed

lemma rq_get_block_eq:
  assumes "rq_ok b q"
  shows "rq_get_block others q =
    (case rq_get q of
       (Some x, q') \<Rightarrow> Some (x, q')
     | (None, _) \<Rightarrow> (case others of [] \<Rightarrow> None | ts # rest \<Rightarrow> rq_get_block rest (fold rq_put ts q)))"
proof -
  define i where "i = slot (rq_mask q) (rq_rx q)"
  have i: "i < length (rq_block q)" using rq_okD [OF assms] slot_less [of b] by (simp add: i_def)
  have same: "q\<lparr>rq_rx := rq_rx q + 1 - 1, rq_block := (rq_block q)[i := rq_block q ! i]\<rparr> = q"
    using i by simp
  show ?thesis
  proof (cases "it_state (rq_block q ! i) = 2")
    case True
    then show ?thesis using i
      by (subst rq_get_block.simps)
        (simp add: rq_get_eq rq_at_def cas_def Let_def rq_take_def flip: i_def)
  next
    case False
    then show ?thesis using i same
      by (subst rq_get_block.simps)
        (simp add: rq_get_eq rq_at_def cas_def Let_def flip: i_def cong: list.case_cong)
  qed
qed

lemma rq_get_none: "rq_ok b q \<Longrightarrow> rq_items q = [] \<Longrightarrow> fst (rq_get q) = None"
  using rq_okD(6) [of b q 0] length_rq_items [of q] by (simp add: rq_get_eq Let_def)

lemma rq_get_block_item:
  assumes "rq_ok b q" and "rq_items q = x # xs"
  shows "\<exists>q'. rq_get_block others q = Some (x, q') \<and> rq_ok b q' \<and> rq_items q' = xs"
proof -
  obtain r q' where g: "rq_get q = (r, q')" by (meson surj_pair)
  from rq_get_ok [OF assms g] g show ?thesis by (simp add: rq_get_block_eq [OF assms(1)])
qed

lemma rq_get_block_empty:
  assumes "rq_ok b q" and "rq_items q = []"
  shows "rq_get_block others q =
    (case others of [] \<Rightarrow> None | ts # later \<Rightarrow> rq_get_block later (fold rq_put ts q))"
proof -
  obtain r q' where g: "rq_get q = (r, q')" by (meson surj_pair)
  with rq_get_none [OF assms] show ?thesis by (simp add: rq_get_block_eq [OF assms(1)])
qed

text \<open>
  The blocking get returns as soon as there is an item, the oldest one, and leaves the queue in
  order; it goes on waiting exactly while nothing is put. (Each time it waits, the others put at most
  as many items as there are slots.)
\<close>

lemma ring_get_blocks:
  assumes "rq_ok b q" and "list_all (\<lambda>ts. length ts \<le> 2 ^ b) others"
  shows "case rq_items q @ concat others of
      [] \<Rightarrow> rq_get_block others q = None
    | x # xs \<Rightarrow> \<exists>q' later. rq_get_block others q = Some (x, q') \<and> rq_ok b q' \<and>
        xs = rq_items q' @ concat later \<and> suffix later others"
  using assms
proof (induction others arbitrary: q)
  case Nil
  show ?case
  proof (cases "rq_items q")
    case Nil
    then show ?thesis by (simp add: rq_get_block_empty [OF \<open>rq_ok b q\<close>])
  next
    case (Cons x xs)
    with rq_get_block_item [OF \<open>rq_ok b q\<close> Cons, of "[]"] show ?thesis by auto
  qed
next
  case step: (Cons ts others)
  show ?case
  proof (cases "rq_items q")
    case Nil
    have e: "rq_get_block (ts # others) q = rq_get_block others (fold rq_put ts q)"
      by (simp add: rq_get_block_empty [OF \<open>rq_ok b q\<close> Nil])
    have ok: "rq_ok b (fold rq_put ts q)" "rq_items (fold rq_put ts q) = ts"
      using rq_puts_ok [OF \<open>rq_ok b q\<close>, of ts] step.prems(2) Nil by simp_all
    have "list_all (\<lambda>ts. length ts \<le> 2 ^ b) others" using step.prems(2) by simp
    note IH = step.IH [OF ok(1) this, unfolded ok(2)]
    show ?thesis
    proof (cases "ts @ concat others")
      case Nil
      with IH e show ?thesis unfolding \<open>rq_items q = []\<close> append_Nil concat.simps Nil by simp
    next
      case (Cons x xs)
      from IH [unfolded Cons] obtain q' later where "rq_get_block others (fold rq_put ts q) = Some (x, q')"
        "rq_ok b q'" "xs = rq_items q' @ concat later" "suffix later others" by auto
      with Cons e \<open>rq_items q = []\<close> show ?thesis by (auto intro: suffix_ConsI)
    qed
  next
    case (Cons x xs)
    from rq_get_block_item [OF \<open>rq_ok b q\<close> Cons, of "ts # others"] Cons show ?thesis
      by (auto intro!: exI [of _ "ts # others"])
  qed
qed

lemma ring_get_blocks_example:
  "\<exists>q'. rq_get_block [[], [4, 5 :: nat]] (rq_new (\<lambda>_. \<lparr>it_state = 7, it_value = 0\<rparr>) (of_nat 1)) = Some (4, q')"
proof -
  have "list_all (\<lambda>ts. length ts \<le> 2 ^ 1) [[], [4, 5 :: nat]]" by simp
  from ring_get_blocks [OF rq_new_of_nat [of 1 "\<lambda>_. \<lparr>it_state = 7, it_value = 0\<rparr>"] this]
  show ?thesis by auto
qed

end
