(* ===== verification/Ring_Memory.thy ===== *)
theory Ring_Memory
  imports Ring_Queue
begin

text \<open>
  Where the items of a \<open>SizedRingQueue\<close> and the pointers of a \<open>PointerCache\<close> are in memory: the addresses that
  \<open>getbypos\<close> and \<open>get\<close> compute, the sizes that \<open>new\<close> allocates, and what \<open>drop\<close> gives back. In the other
  theories a block is a list and a position an index into it.
\<close>

section \<open>Addresses and sizes\<close>

text \<open>\<open>sz\<close> is the size of an item; an allocated block never wraps around the end of the address space.\<close>

definition ring_bytes :: "usize \<Rightarrow> usize \<Rightarrow> usize" where
  "ring_bytes sz msk = sz * (msk + 1)"

definition rq_getbypos :: "usize \<Rightarrow> usize \<Rightarrow> usize \<Rightarrow> usize" where
  "rq_getbypos block sz pos = block + sz * pos"

definition pc_get :: "usize \<Rightarrow> usize \<Rightarrow> usize" where
  "pc_get block pos = block + 8 * pos"

text \<open>\<open>drop\<close> of a \<open>SizedRingQueue\<close>: the size it deallocates, and the values it drops, which are none.\<close>

definition rq_drop :: "usize \<Rightarrow> 'a ring_queue \<Rightarrow> usize \<times> 'a list" where
  "rq_drop sz q = (ring_bytes sz (rq_mask q), [])"

text \<open>The position that a \<open>put\<close> or a \<open>get\<close> uses, as the code has it.\<close>

definition ring_pos :: "usize \<Rightarrow> usize \<Rightarrow> usize" where
  "ring_pos msk p = p AND msk"

lemma unat_ring_pos: "unat (ring_pos msk p) = slot msk p"
  by (simp add: ring_pos_def slot_def)

section \<open>Items lie in the block\<close>

lemma unat_ring_bytes:
  assumes "unat bsize < 64" and "unat sz * 2 ^ unat bsize < 2 ^ 64"
  shows "unat (ring_bytes sz (ring_mask bsize)) = unat sz * 2 ^ unat bsize"
  using assms unat_ring_size [OF assms(1)] by (simp add: ring_bytes_def unat_mult_lem [THEN iffD1])

text \<open>An item at a position of the ring: no operation wraps, and it ends inside the block.\<close>

lemma ring_item_in_block:
  assumes "unat bsize < 64" and fit: "unat sz * 2 ^ unat bsize < 2 ^ 64"
    and block: "unat block + unat (ring_bytes sz (ring_mask bsize)) \<le> 2 ^ 64" and "0 < sz"
  shows "unat (rq_getbypos block sz (ring_pos (ring_mask bsize) p)) = unat block + unat sz * slot (ring_mask bsize) p"
    and "unat (rq_getbypos block sz (ring_pos (ring_mask bsize) p)) + unat sz
      \<le> unat block + unat (ring_bytes sz (ring_mask bsize))"
proof -
  let ?k = "slot (ring_mask bsize) p"
  have k: "?k < 2 ^ unat bsize" using slot_less [of "unat bsize" p] assms(1) by (simp add: ring_mask_eq)
  have s: "unat sz * Suc ?k \<le> unat sz * 2 ^ unat bsize" using k by (intro mult_le_mono) simp_all
  have z: "0 < unat sz" using assms(4) by (simp add: unat_gt_0)
  have "unat sz * ?k < 2 ^ 64" using s fit by simp
  then have m: "unat (sz * ring_pos (ring_mask bsize) p) = unat sz * ?k"
    by (simp add: unat_ring_pos unat_mult_lem [THEN iffD1])
  have "unat block + unat sz * ?k < 2 ^ 64" using s z block unat_ring_bytes [OF assms(1) fit] by simp
  then show a: "unat (rq_getbypos block sz (ring_pos (ring_mask bsize) p)) = unat block + unat sz * ?k"
    by (simp add: rq_getbypos_def unat_add_no_wrap m)
  show "unat (rq_getbypos block sz (ring_pos (ring_mask bsize) p)) + unat sz
      \<le> unat block + unat (ring_bytes sz (ring_mask bsize))"
    using s a unat_ring_bytes [OF assms(1) fit] by simp
qed

text \<open>Items at different positions do not overlap.\<close>

lemma ring_items_apart:
  assumes "unat bsize < 64" and "unat sz * 2 ^ unat bsize < 2 ^ 64"
    and "unat block + unat (ring_bytes sz (ring_mask bsize)) \<le> 2 ^ 64" and "0 < sz"
    and "slot (ring_mask bsize) p < slot (ring_mask bsize) p'"
  shows "unat (rq_getbypos block sz (ring_pos (ring_mask bsize) p)) + unat sz
    \<le> unat (rq_getbypos block sz (ring_pos (ring_mask bsize) p'))"
proof -
  have "unat sz * Suc (slot (ring_mask bsize) p) \<le> unat sz * slot (ring_mask bsize) p'"
    using assms(5) by (intro mult_le_mono) simp_all
  with ring_item_in_block(1) [OF assms(1-4)] show ?thesis by simp
qed

lemma pc_get_eq: "pc_get block pos = rq_getbypos block 8 pos"
  by (simp add: pc_get_def rq_getbypos_def)

section \<open>Dropping\<close>

text \<open>No operation changes the mask, so a drop gives back what \<open>new\<close> allocated.\<close>

lemma rq_mask_kept [simp]:
  "rq_mask (rq_put t q) = rq_mask q" "rq_mask (snd (rq_get q)) = rq_mask q" "rq_mask (rq_new mem bsize) = ring_mask bsize"
  by (simp_all add: rq_put_def rq_get_def rq_take_def rq_new_def cas_def Let_def)

lemma rq_drop_frees_block:
  "rq_mask q = rq_mask (rq_new mem bsize) \<Longrightarrow> fst (rq_drop sz q) = ring_bytes sz (ring_mask bsize)"
  by (simp add: rq_drop_def)

text \<open>Nothing checks the size: a ring of \<open>2 ^ 60\<close> items of 16 bytes is allocated with no bytes at all.\<close>

lemma ring_bytes_wraps: "ring_bytes 16 (ring_mask 60) = 0"
  by (simp add: ring_bytes_def ring_mask_def push_bit_eq_mult)

end
