(* ===== verification/Ring_Threads.thy ===== *)
theory Ring_Threads
  imports Ring_Queue "HOL-Library.Multiset"
begin

text \<open>
  The ring queue of \<open>src/queue.rs\<close> with several threads inside at once, each at some atomic access of
  \<open>put\<close> or \<open>maybeget\<close>. What holds for every interleaving: as long as each put finds its slot free, no
  item is lost and none is received twice, though gets may skip items for a while.
\<close>

section \<open>Threads\<close>

text \<open>
  Where a thread is: the access it makes next. \<open>PutStart\<close> and \<open>GetStart\<close> take a position,
  \<open>PutClaim\<close> and \<open>GetClaim\<close> exchange the state of a slot, and so on, in the order of the code.
\<close>

datatype 'a ring_pc =
    Idle
  | PutStart 'a
  | PutClaim nat 'a
  | PutWrite nat 'a
  | PutFull nat 'a
  | PutCount
  | GetStart bool
  | GetClaim bool nat
  | GetBack
  | GetRead nat
  | GetFree nat 'a
  | GetCount 'a
  | GetDone "'a option"

definition set_item :: "nat \<Rightarrow> ('a ring_item \<Rightarrow> 'a ring_item) \<Rightarrow> 'a ring_queue \<Rightarrow> 'a ring_queue" where
  "set_item k f q = q\<lparr>rq_block := (rq_block q)[k := f (rq_block q ! k)]\<rparr>"

fun ring_do :: "'a ring_pc \<Rightarrow> 'a ring_queue \<Rightarrow> 'a ring_pc \<times> 'a ring_queue" where
  "ring_do Idle q = (Idle, q)"
| "ring_do (PutStart t) q = (PutClaim (slot (rq_mask q) (rq_tx q)) t, q\<lparr>rq_tx := rq_tx q + 1\<rparr>)"
| "ring_do (PutClaim k t) q =
     (case cas 0 1 (it_state (rq_block q ! k)) of
        (r, st) \<Rightarrow> (if r = 0 then PutClaim k t else PutWrite k t, set_item k (\<lambda>it. it\<lparr>it_state := st\<rparr>) q))"
| "ring_do (PutWrite k t) q = (PutFull k t, set_item k (\<lambda>it. it\<lparr>it_value := t\<rparr>) q)"
| "ring_do (PutFull k t) q = (PutCount, set_item k (\<lambda>it. it\<lparr>it_state := 2\<rparr>) q)"
| "ring_do PutCount q = (Idle, q\<lparr>rq_count := rq_count q + 1\<rparr>)"
| "ring_do (GetStart block) q = (GetClaim block (slot (rq_mask q) (rq_rx q)), q\<lparr>rq_rx := rq_rx q + 1\<rparr>)"
| "ring_do (GetClaim block k) q =
     (case cas 2 3 (it_state (rq_block q ! k)) of
        (r, st) \<Rightarrow> (if r = 2 then GetRead k else if block then GetBack else GetDone None,
                   set_item k (\<lambda>it. it\<lparr>it_state := st\<rparr>) q))"
| "ring_do GetBack q = (GetStart True, q\<lparr>rq_rx := rq_rx q - 1\<rparr>)"
| "ring_do (GetRead k) q = (GetFree k (it_value (rq_block q ! k)), q)"
| "ring_do (GetFree k v) q = (GetCount v, set_item k (\<lambda>it. it\<lparr>it_state := 0\<rparr>) q)"
| "ring_do (GetCount v) q = (GetDone (Some v), q\<lparr>rq_count := rq_count q - 1\<rparr>)"
| "ring_do (GetDone r) q = (Idle, q)"

text \<open>The queue, its threads, and what has been put into it and got out of it so far.\<close>

record 'a ring_system =
  rs_q :: "'a ring_queue"
  rs_pcs :: "'a ring_pc list"
  rs_put :: "'a list"
  rs_got :: "'a list"

definition ring_start :: "nat \<Rightarrow> 'a ring_queue \<Rightarrow> 'a ring_system" where
  "ring_start n q = \<lparr>rs_q = q, rs_pcs = replicate n Idle, rs_put = [], rs_got = []\<rparr>"

text \<open>A slot is free if it is marked so and no put has taken its position.\<close>

definition reserved :: "nat \<Rightarrow> 'a ring_pc \<Rightarrow> bool" where
  "reserved k pc = (case pc of PutClaim j _ \<Rightarrow> j = k | _ \<Rightarrow> False)"

definition slot_free :: "'a ring_system \<Rightarrow> nat \<Rightarrow> bool" where
  "slot_free s k \<longleftrightarrow> it_state (rq_block (rs_q s) ! k) = 0 \<and> (\<forall>pc \<in> set (rs_pcs s). \<not> reserved k pc)"

text \<open>
  One thread makes one access. The precondition of the theorems is in \<open>r_run\<close>: a put takes a position
  only when its slot is free, which the code does not check.
\<close>

inductive ring_step :: "'a ring_system \<Rightarrow> 'a ring_system \<Rightarrow> bool" where
  r_put: "i < length (rs_pcs s) \<Longrightarrow> rs_pcs s ! i = Idle \<Longrightarrow>
     ring_step s (s\<lparr>rs_pcs := (rs_pcs s)[i := PutStart t], rs_put := rs_put s @ [t]\<rparr>)"
| r_get: "i < length (rs_pcs s) \<Longrightarrow> rs_pcs s ! i = Idle \<Longrightarrow>
     ring_step s (s\<lparr>rs_pcs := (rs_pcs s)[i := GetStart block]\<rparr>)"
| r_run: "i < length (rs_pcs s) \<Longrightarrow>
     (\<forall>t. rs_pcs s ! i = PutStart t \<longrightarrow> slot_free s (slot (rq_mask (rs_q s)) (rq_tx (rs_q s)))) \<Longrightarrow>
     (\<forall>r. rs_pcs s ! i \<noteq> GetDone r) \<Longrightarrow>
     ring_do (rs_pcs s ! i) (rs_q s) = (pc, q) \<Longrightarrow>
     ring_step s (s\<lparr>rs_q := q, rs_pcs := (rs_pcs s)[i := pc]\<rparr>)"
| r_done: "i < length (rs_pcs s) \<Longrightarrow> rs_pcs s ! i = GetDone r \<Longrightarrow>
     ring_step s (s\<lparr>rs_pcs := (rs_pcs s)[i := Idle], rs_got := rs_got s @ option_list r\<rparr>)"

section \<open>The invariant\<close>

text \<open>The slot that a thread has for itself.\<close>

fun owns :: "'a ring_pc \<Rightarrow> nat option" where
  "owns (PutClaim k _) = Some k"
| "owns (PutWrite k _) = Some k"
| "owns (PutFull k _) = Some k"
| "owns (GetRead k) = Some k"
| "owns (GetFree k _) = Some k"
| "owns _ = None"

text \<open>What a thread knows of that slot.\<close>

fun knows :: "'a ring_pc \<Rightarrow> 'a ring_item \<Rightarrow> bool" where
  "knows (PutClaim _ _) it = (it_state it \<in> {0, 1})"
| "knows (PutWrite _ _) it = (it_state it = 1)"
| "knows (PutFull _ t) it = (it_state it = 1 \<and> it_value it = t)"
| "knows (GetRead _) it = (it_state it = 3)"
| "knows (GetFree _ v) it = (it_state it = 3 \<and> it_value it = v)"
| "knows _ it = True"

fun in_ring :: "nat \<Rightarrow> 'a ring_pc \<Rightarrow> bool" where
  "in_ring n (GetClaim _ k) = (k < n)"
| "in_ring n pc = (\<forall>k. owns pc = Some k \<longrightarrow> k < n)"

text \<open>The items in a slot and on the way in a thread, and what these still owe the length.\<close>

definition held :: "'a ring_item \<Rightarrow> 'a multiset" where
  "held it = (if it_state it \<in> {2, 3} then {#it_value it#} else {#})"

fun carried :: "'a ring_pc \<Rightarrow> 'a multiset" where
  "carried (PutStart t) = {#t#}"
| "carried (PutClaim _ t) = {#t#}"
| "carried (PutWrite _ t) = {#t#}"
| "carried (PutFull _ t) = {#t#}"
| "carried (GetCount v) = {#v#}"
| "carried (GetDone r) = mset (option_list r)"
| "carried _ = {#}"

definition filled :: "'a ring_item \<Rightarrow> usize" where
  "filled it = (if it_state it \<in> {2, 3} then 1 else 0)"

fun owed :: "'a ring_pc \<Rightarrow> usize" where
  "owed PutCount = 1"
| "owed (GetCount _) = - 1"
| "owed _ = 0"

definition slots_ok :: "'a ring_item list \<Rightarrow> 'a ring_pc list \<Rightarrow> bool" where
  "slots_ok bl pcs \<longleftrightarrow>
     (\<forall>i < length pcs. in_ring (length bl) (pcs ! i)) \<and>
     (\<forall>i < length pcs. \<forall>k. owns (pcs ! i) = Some k \<longrightarrow> knows (pcs ! i) (bl ! k)) \<and>
     (\<forall>i < length pcs. \<forall>j < length pcs. owns (pcs ! i) = owns (pcs ! j) \<and> owns (pcs ! i) \<noteq> None \<longrightarrow> i = j) \<and>
     (\<forall>k < length bl. (\<forall>i < length pcs. owns (pcs ! i) \<noteq> Some k) \<longrightarrow> it_state (bl ! k) \<in> {0, 2})"

definition ring_inv :: "nat \<Rightarrow> 'a ring_system \<Rightarrow> bool" where
  "ring_inv b s \<longleftrightarrow>
     rq_shape b (rs_q s) \<and> slots_ok (rq_block (rs_q s)) (rs_pcs s) \<and>
     mset (rs_put s) = sum_list (map held (rq_block (rs_q s))) + sum_list (map carried (rs_pcs s)) + mset (rs_got s) \<and>
     rq_count (rs_q s) + sum_list (map owed (rs_pcs s)) = sum_list (map filled (rq_block (rs_q s)))"

lemma slots_okD:
  assumes "slots_ok bl pcs" and "i < length pcs"
  shows "in_ring (length bl) (pcs ! i)" "owns (pcs ! i) = Some k \<Longrightarrow> knows (pcs ! i) (bl ! k)"
    "j < length pcs \<Longrightarrow> owns (pcs ! i) = Some k \<Longrightarrow> owns (pcs ! j) = Some k \<Longrightarrow> i = j"
  using assms by (auto simp: slots_ok_def)

text \<open>A step outside the slots.\<close>

lemma slots_ok_aside:
  assumes "slots_ok bl pcs" and "i < length pcs" and "owns (pcs ! i) = None" and "owns pc = None"
    and "in_ring (length bl) pc"
  shows "slots_ok bl (pcs[i := pc])"
proof -
  have at: "pcs[i := pc] ! j = (if j = i then pc else pcs ! j)" if "j < length pcs" for j
    using that by (simp add: nth_list_update)
  have o: "owns (pcs[i := pc] ! j) = owns (pcs ! j)" if "j < length pcs" for j
    using that assms(3,4) by (simp add: at)
  show ?thesis unfolding slots_ok_def
  proof (intro conjI allI impI)
    fix j assume "j < length (pcs[i := pc])"
    then show "in_ring (length bl) (pcs[i := pc] ! j)"
      using assms(5) slots_okD(1) [OF assms(1), of j] by (simp add: at)
  next
    fix j k assume "j < length (pcs[i := pc])" "owns (pcs[i := pc] ! j) = Some k"
    then show "knows (pcs[i := pc] ! j) (bl ! k)"
      using assms(4) slots_okD(2) [OF assms(1), of j k] by (auto simp: at split: if_splits)
  next
    fix j l assume "j < length (pcs[i := pc])" "l < length (pcs[i := pc])"
      "owns (pcs[i := pc] ! j) = owns (pcs[i := pc] ! l) \<and> owns (pcs[i := pc] ! j) \<noteq> None"
    then obtain y where "j < length pcs" "l < length pcs" "owns (pcs ! j) = Some y" "owns (pcs ! l) = Some y"
      by (auto simp: o dest!: sym [of "Some _"])
    then show "j = l" using slots_okD(3) [OF assms(1)] by blast
  next
    fix k assume "k < length bl" "\<forall>j < length (pcs[i := pc]). owns (pcs[i := pc] ! j) \<noteq> Some k"
    then show "it_state (bl ! k) \<in> {0, 2}" using assms(1) by (simp add: o slots_ok_def)
  qed
qed

text \<open>A step at a slot of the thread's own, or one that nobody has.\<close>

lemma slots_ok_at:
  assumes "slots_ok bl pcs" and "i < length pcs" and "k < length bl"
    and "\<And>j. j < length pcs \<Longrightarrow> j \<noteq> i \<Longrightarrow> owns (pcs ! j) \<noteq> Some k"
    and "owns (pcs ! i) = None \<or> owns (pcs ! i) = Some k"
    and "owns pc = None \<and> it_state it \<in> {0, 2} \<or> owns pc = Some k \<and> knows pc it"
    and "in_ring (length bl) pc"
  shows "slots_ok (bl[k := it]) (pcs[i := pc])"
proof -
  have at: "pcs[i := pc] ! j = (if j = i then pc else pcs ! j)" if "j < length pcs" for j
    using that by (simp add: nth_list_update)
  show ?thesis unfolding slots_ok_def
  proof (intro conjI allI impI)
    fix j assume "j < length (pcs[i := pc])"
    then show "in_ring (length (bl[k := it])) (pcs[i := pc] ! j)"
      using assms(7) slots_okD(1) [OF assms(1), of j] by (simp add: at)
  next
    fix j l assume j: "j < length (pcs[i := pc])" and l: "owns (pcs[i := pc] ! j) = Some l"
    show "knows (pcs[i := pc] ! j) (bl[k := it] ! l)"
    proof (cases "j = i")
      case True
      with j l assms(3,6) show ?thesis by (auto simp: at)
    next
      case False
      with j l assms(4) [of j] slots_okD(2) [OF assms(1), of j l] show ?thesis by (cases "l = k") (auto simp: at)
    qed
  next
    fix j l assume jl: "j < length (pcs[i := pc])" "l < length (pcs[i := pc])"
      "owns (pcs[i := pc] ! j) = owns (pcs[i := pc] ! l) \<and> owns (pcs[i := pc] ! j) \<noteq> None"
    show "j = l"
    proof (cases "j = i \<or> l = i")
      case True
      with jl assms(4) [of j] assms(4) [of l] assms(6) show ?thesis by (auto simp: at split: if_splits)
    next
      case False
      with jl obtain y where "j < length pcs" "l < length pcs" "owns (pcs ! j) = Some y" "owns (pcs ! l) = Some y"
        by (auto simp: at dest!: sym [of "Some _"])
      then show ?thesis using slots_okD(3) [OF assms(1)] by blast
    qed
  next
    fix l assume l: "l < length (bl[k := it])" "\<forall>j < length (pcs[i := pc]). owns (pcs[i := pc] ! j) \<noteq> Some l"
    show "it_state (bl[k := it] ! l) \<in> {0, 2}"
    proof (cases "l = k")
      case True
      with l assms(2,3,6) show ?thesis by (auto simp: at)
    next
      case False
      have "owns (pcs ! j) \<noteq> Some l" if "j < length pcs" for j
        using that l(2) False assms(5) by (cases "j = i") (auto simp: at)
      then show ?thesis using False l(1) assms(1) by (simp add: slots_ok_def)
    qed
  qed
qed

lemma sum_list_zeros [simp]: "sum_list (replicate n (0 :: 'b :: monoid_add)) = 0"
  by (induction n) simp_all

lemma sums_exchanged:
  fixes a :: "'b :: cancel_comm_monoid_add"
  assumes "a' + x = a + y" and "b' + u = b + v" and "y + v = x + u"
  shows "a' + b' = a + b"
proof -
  have "(a' + b') + (x + u) = (a' + x) + (b' + u)" by (simp only: ac_simps)
  also have "\<dots> = (a + b) + (y + v)" by (simp only: assms(1,2) ac_simps)
  finally show ?thesis by (simp only: assms(3) add_right_cancel)
qed

lemma sums_shifted:
  fixes a :: "'b :: ab_group_add"
  assumes "a' + x = a + y" and "f' + g = f + h" and "c + a = f" and "y + g = x + h"
  shows "c + a' = f'"
proof -
  have "(c + a') + (x + g) = (c + (a' + x)) + g" by (simp only: ac_simps)
  also have "\<dots> = (c + a) + (y + g)" by (simp only: assms(1) ac_simps)
  also have "\<dots> = f + (x + h)" by (simp only: assms(3,4))
  also have "\<dots> = (f + h) + x" by (simp only: ac_simps)
  also have "\<dots> = f' + (x + g)" by (simp only: assms(2) [symmetric] ac_simps)
  finally show ?thesis by (simp only: add_right_cancel)
qed

lemma ring_start_inv:
  assumes "rq_ok b q" and "rq_items q = []"
  shows "ring_inv b (ring_start n q)"
proof -
  note ok = rq_okD [OF assms(1)]
  have n: "unat (rq_count q) = 0" using assms(2) length_rq_items [of q] by simp
  have free: "it_state (rq_block q ! k) = 0" if "k < 2 ^ b" for k
  proof -
    define d where "d = nat ((int k - uint (rq_rx q)) mod 2 ^ b)"
    have d: "int d = (int k - uint (rq_rx q)) mod 2 ^ b" "d < 2 ^ b"
      by (simp_all add: d_def nat_less_iff)
    have "int (slot (mask b) (rq_rx q + of_int (int d))) = int k"
      using that by (simp add: int_slot [OF ok(1)] d(1) mod_simps del: of_int_of_nat_eq)
    then show ?thesis using ok(2) ok(6) [OF d(2)] n by (simp add: rq_at_def del: of_int_of_nat_eq)
  qed
  then have st: "it_state it = 0" if "it \<in> set (rq_block q)" for it
    using that ok(3) by (auto simp: in_set_conv_nth)
  have h: "map held (rq_block q) = replicate (2 ^ b) {#}" "map filled (rq_block q) = replicate (2 ^ b) 0"
    using st ok(3) by (auto intro!: nth_equalityI simp: held_def filled_def)
  have "slots_ok (rq_block q) (replicate n Idle)"
    using free ok(3) by (simp add: slots_ok_def)
  moreover have "rq_count q = 0" using n by (simp add: unat_eq_zero)
  ultimately show ?thesis
    using assms(1) by (simp add: ring_inv_def ring_start_def rq_shape_def rq_ok_def h)
qed

text \<open>What a step must respect to keep the invariant, at a slot or outside of them.\<close>

lemma ring_inv_at:
  assumes "ring_inv b s" and "i < length (rs_pcs s)" and "k < 2 ^ b"
    and "\<And>j. j < length (rs_pcs s) \<Longrightarrow> j \<noteq> i \<Longrightarrow> owns (rs_pcs s ! j) \<noteq> Some k"
    and "owns (rs_pcs s ! i) = None \<or> owns (rs_pcs s ! i) = Some k"
    and "owns pc = None \<and> it_state it \<in> {0, 2} \<or> owns pc = Some k \<and> knows pc it"
    and "in_ring (2 ^ b) pc"
    and "rq_shape b q" and "rq_block q = (rq_block (rs_q s))[k := it]" and "rq_count q = rq_count (rs_q s)"
    and "held it + carried pc = held (rq_block (rs_q s) ! k) + carried (rs_pcs s ! i)"
    and "owed pc + filled (rq_block (rs_q s) ! k) = owed (rs_pcs s ! i) + filled it"
  shows "ring_inv b (s\<lparr>rs_q := q, rs_pcs := (rs_pcs s)[i := pc]\<rparr>)"
proof -
  let ?bl = "rq_block (rs_q s)" and ?pcs = "rs_pcs s"
  have len: "length ?bl = 2 ^ b" using assms(1) by (simp add: ring_inv_def rq_shape_def)
  have "slots_ok (?bl[k := it]) (?pcs[i := pc])"
    using assms(1,2,3,5,6,7) len by (intro slots_ok_at assms(4)) (simp_all add: ring_inv_def)
  moreover have "sum_list (map held (?bl[k := it])) + sum_list (map carried (?pcs[i := pc])) =
      sum_list (map held ?bl) + sum_list (map carried ?pcs)"
  proof -
    have "sum_list (map held (?bl[k := it])) + held (?bl ! k) = sum_list (map held ?bl) + held it"
      and "sum_list (map carried (?pcs[i := pc])) + carried (?pcs ! i) = sum_list (map carried ?pcs) + carried pc"
      using assms(2,3) len by (simp_all only: sum_list_update1)
    then show ?thesis using assms(11) by (rule sums_exchanged)
  qed
  moreover have "rq_count q + sum_list (map owed (?pcs[i := pc])) = sum_list (map filled (?bl[k := it]))"
  proof -
    have "sum_list (map owed (?pcs[i := pc])) + owed (?pcs ! i) = sum_list (map owed ?pcs) + owed pc"
      "sum_list (map filled (?bl[k := it])) + filled (?bl ! k) = sum_list (map filled ?bl) + filled it"
      using assms(2,3) len by (simp_all only: sum_list_update1)
    moreover have "rq_count q + sum_list (map owed ?pcs) = sum_list (map filled ?bl)"
      using assms(1,10) by (simp add: ring_inv_def)
    ultimately show ?thesis using assms(12) by (rule sums_shifted)
  qed
  ultimately show ?thesis using assms(1,8,9) by (simp add: ring_inv_def)
qed

lemma ring_inv_aside:
  assumes "ring_inv b s" and "i < length (rs_pcs s)" and "owns (rs_pcs s ! i) = None" and "owns pc = None"
    and "in_ring (2 ^ b) pc" and "rq_shape b q" and "rq_block q = rq_block (rs_q s)"
    and "rq_count q + owed pc = rq_count (rs_q s) + owed (rs_pcs s ! i)"
    and "mset put' + carried (rs_pcs s ! i) + mset (rs_got s) = mset (rs_put s) + carried pc + mset got'"
  shows "ring_inv b (s\<lparr>rs_q := q, rs_pcs := (rs_pcs s)[i := pc], rs_put := put', rs_got := got'\<rparr>)"
proof -
  let ?pcs = "rs_pcs s"
  have "slots_ok (rq_block q) (?pcs[i := pc])"
    using assms by (intro slots_ok_aside) (simp_all add: ring_inv_def rq_shape_def)
  moreover have c: "sum_list (map carried (?pcs[i := pc])) + carried (?pcs ! i) = sum_list (map carried ?pcs) + carried pc"
    and o: "sum_list (map owed (?pcs[i := pc])) + owed (?pcs ! i) = sum_list (map owed ?pcs) + owed pc"
    using assms(2) by (simp_all only: sum_list_update1)
  moreover have "mset put' = sum_list (map held (rq_block q)) + sum_list (map carried (?pcs[i := pc])) + mset got'"
  proof -
    have "mset (rs_put s) = sum_list (map held (rq_block q)) + sum_list (map carried ?pcs) + mset (rs_got s)"
      using assms(1,7) by (simp add: ring_inv_def)
    then have "mset put' + (carried (?pcs ! i) + mset (rs_got s)) =
        sum_list (map held (rq_block q)) + (sum_list (map carried ?pcs) + carried pc) + mset got' + mset (rs_got s)"
      using assms(9) by (simp add: ac_simps)
    also have "\<dots> = sum_list (map held (rq_block q)) + sum_list (map carried (?pcs[i := pc])) + mset got' +
        (carried (?pcs ! i) + mset (rs_got s))"
      unfolding c [symmetric] by (simp only: ac_simps)
    finally show ?thesis by (simp only: add_right_cancel)
  qed
  moreover have "rq_count q + sum_list (map owed (?pcs[i := pc])) = sum_list (map filled (rq_block q))"
  proof -
    have "(rq_count q + sum_list (map owed (?pcs[i := pc]))) + (owed pc + owed (?pcs ! i)) =
        (rq_count q + owed pc) + (sum_list (map owed ?pcs) + owed pc)"
      using o by (simp add: ac_simps)
    also have "\<dots> = (rq_count (rs_q s) + sum_list (map owed ?pcs)) + (owed pc + owed (?pcs ! i))"
      unfolding assms(8) by (simp only: ac_simps)
    finally have "rq_count q + sum_list (map owed (?pcs[i := pc])) = rq_count (rs_q s) + sum_list (map owed ?pcs)"
      by (simp only: add_right_cancel)
    then show ?thesis using assms(1,7) by (simp add: ring_inv_def)
  qed
  ultimately show ?thesis using assms(6) by (simp add: ring_inv_def)
qed

lemma set_item_shape [simp]: "rq_shape b (set_item k f q) = rq_shape b q"
  by (simp add: rq_shape_def set_item_def)

lemma set_item_simps [simp]:
  "rq_block (set_item k f q) = (rq_block q)[k := f (rq_block q ! k)]"
  "rq_count (set_item k f q) = rq_count q"
  by (simp_all add: set_item_def)

lemma ring_step_inv:
  assumes "ring_step s s'" and "ring_inv b s"
  shows "ring_inv b s'"
  using assms
proof (cases rule: ring_step.cases)
  case (r_put i t)
  with ring_inv_aside [OF assms(2), of i "PutStart t" "rs_q s" "rs_put s @ [t]" "rs_got s"] assms(2)
  show ?thesis by (simp add: ring_inv_def)
next
  case (r_get i block)
  with ring_inv_aside [OF assms(2), of i "GetStart block" "rs_q s" "rs_put s" "rs_got s"] assms(2)
  show ?thesis by (simp add: ring_inv_def)
next
  case (r_done i r)
  with ring_inv_aside [OF assms(2), of i Idle "rs_q s" "rs_put s" "rs_got s @ option_list r"] assms(2)
  show ?thesis by (simp add: ring_inv_def ac_simps)
next
  case (r_run i pc q)
  let ?it = "\<lambda>k. rq_block (rs_q s) ! k"
  have shape: "rq_shape b (rs_q s)" and slots: "slots_ok (rq_block (rs_q s)) (rs_pcs s)"
    and len: "length (rq_block (rs_q s)) = 2 ^ b" and msk: "rq_mask (rs_q s) = mask b" "b \<le> 64"
    using assms(2) by (simp_all add: ring_inv_def rq_shape_def)
  note at = ring_inv_at [OF assms(2) r_run(2)] and aside = ring_inv_aside [OF assms(2) r_run(2)]
  note mine = slots_okD [OF slots r_run(2)]
  have other: "owns (rs_pcs s ! j) \<noteq> Some k"
    if "j < length (rs_pcs s)" "j \<noteq> i" "owns (rs_pcs s ! i) = Some k" for j k
    using that mine(3) by blast
  have s': "s' = s\<lparr>rs_q := q, rs_pcs := (rs_pcs s)[i := pc], rs_put := rs_put s, rs_got := rs_got s\<rparr>"
    using r_run(1) by simp
  show ?thesis
  proof (cases "rs_pcs s ! i")
    case Idle
    with r_run(5) show ?thesis unfolding s' using shape by (intro aside) auto
  next
    case (PutStart t)
    define k where "k = slot (mask b) (rq_tx (rs_q s))"
    have k: "k < 2 ^ b" using slot_less [OF msk(2)] by (simp add: k_def)
    have pc: "pc = PutClaim k t" "q = (rs_q s)\<lparr>rq_tx := rq_tx (rs_q s) + 1\<rparr>"
      using r_run(5) PutStart msk by (simp_all add: k_def)
    have free: "slot_free s k" using r_run(3) PutStart msk by (simp add: k_def)
    have "owns (rs_pcs s ! j) \<noteq> Some k" if "j < length (rs_pcs s)" for j
    proof
      assume o: "owns (rs_pcs s ! j) = Some k"
      have "\<not> reserved k (rs_pcs s ! j)" "it_state (?it k) = 0" using free that by (simp_all add: slot_free_def)
      with o slots_okD(2) [OF slots that o] show False by (cases "rs_pcs s ! j") (auto simp: reserved_def)
    qed
    with PutStart pc k free shape show ?thesis unfolding r_run(1)
      by (intro at [of k _ "?it k"]) (simp_all add: slot_free_def rq_shape_def)
  next
    case (PutClaim k t)
    have k: "k < 2 ^ b" "it_state (?it k) \<in> {0, 1}" using mine PutClaim len by auto
    define it where "it = (?it k)\<lparr>it_state := 1\<rparr>"
    have "q = set_item k (\<lambda>_. it) (rs_q s)" "pc = (if it_state (?it k) = 0 then PutClaim k t else PutWrite k t)"
      using r_run(5) PutClaim k(2) by (auto simp: cas_def it_def set_item_def)
    with PutClaim k other shape show ?thesis unfolding r_run(1)
      by (intro at [of k _ it]) (auto simp: it_def held_def filled_def)
  next
    case (PutWrite k t)
    have k: "k < 2 ^ b" "it_state (?it k) = 1" using mine PutWrite len by auto
    with r_run(5) PutWrite other shape show ?thesis unfolding r_run(1)
      by (intro at [of k _ "(?it k)\<lparr>it_value := t\<rparr>"]) (auto simp: held_def filled_def)
  next
    case (PutFull k t)
    have k: "k < 2 ^ b" "it_state (?it k) = 1" "it_value (?it k) = t" using mine PutFull len by auto
    with r_run(5) PutFull other shape show ?thesis unfolding r_run(1)
      by (intro at [of k _ "(?it k)\<lparr>it_state := 2\<rparr>"]) (auto simp: held_def filled_def)
  next
    case PutCount
    with r_run(5) show ?thesis unfolding s' using shape by (intro aside) (auto simp: rq_shape_def)
  next
    case (GetStart block)
    with r_run(5) show ?thesis unfolding s' using shape slot_less [OF msk(2)] msk(1)
      by (intro aside) (auto simp: rq_shape_def)
  next
    case (GetClaim block k)
    have k: "k < 2 ^ b" using mine GetClaim len by simp
    show ?thesis
    proof (cases "it_state (?it k) = 2")
      case True
      have "owns (rs_pcs s ! j) \<noteq> Some k" if "j < length (rs_pcs s)" for j
      proof
        assume o: "owns (rs_pcs s ! j) = Some k"
        from slots_okD(2) [OF slots that o] o True show False by (cases "rs_pcs s ! j") auto
      qed
      with r_run(5) GetClaim k True shape show ?thesis unfolding r_run(1)
        by (intro at [of k _ "(?it k)\<lparr>it_state := 3\<rparr>"]) (auto simp: held_def filled_def cas_def)
    next
      case False
      with r_run(5) GetClaim show ?thesis unfolding s' using shape
        by (intro aside) (auto simp: cas_def)
    qed
  next
    case GetBack
    with r_run(5) show ?thesis unfolding s' using shape by (intro aside) (auto simp: rq_shape_def)
  next
    case (GetRead k)
    have k: "k < 2 ^ b" "it_state (?it k) = 3" using mine GetRead len by auto
    with r_run(5) GetRead other shape show ?thesis unfolding r_run(1)
      by (intro at [of k _ "?it k"]) auto
  next
    case (GetFree k v)
    have k: "k < 2 ^ b" "it_state (?it k) = 3" "it_value (?it k) = v" using mine GetFree len by auto
    with r_run(5) GetFree other shape show ?thesis unfolding r_run(1)
      by (intro at [of k _ "(?it k)\<lparr>it_state := 0\<rparr>"]) (auto simp: held_def filled_def)
  next
    case (GetCount v)
    with r_run(5) show ?thesis unfolding s' using shape by (intro aside) (auto simp: rq_shape_def)
  next
    case (GetDone r)
    with r_run(4) show ?thesis by simp
  qed
qed

lemma ring_run_inv: "ring_step\<^sup>*\<^sup>* s s' \<Longrightarrow> ring_inv b s \<Longrightarrow> ring_inv b s'"
  by (induction rule: rtranclp_induct) (auto intro: ring_step_inv)

section \<open>The steps of one put are the put\<close>

definition at_thread :: "'a ring_system \<Rightarrow> nat \<Rightarrow> 'a list \<Rightarrow> 'a ring_pc \<Rightarrow> 'a ring_queue \<Rightarrow> 'a ring_system" where
  "at_thread s i ts pc q = s\<lparr>rs_q := q, rs_pcs := (rs_pcs s)[i := pc], rs_put := ts\<rparr>"

lemma at_thread_step:
  assumes "ring_step\<^sup>*\<^sup>* s0 (at_thread s i ts pc q)" and "i < length (rs_pcs s)"
    and "ring_do pc q = (pc', q')" and "\<forall>r. pc \<noteq> GetDone r"
    and "\<forall>t. pc = PutStart t \<longrightarrow> slot_free (at_thread s i ts pc q) (slot (rq_mask q) (rq_tx q))"
  shows "ring_step\<^sup>*\<^sup>* s0 (at_thread s i ts pc' q')"
proof -
  have "ring_step (at_thread s i ts pc q)
      ((at_thread s i ts pc q)\<lparr>rs_q := q', rs_pcs := (rs_pcs (at_thread s i ts pc q))[i := pc']\<rparr>)"
    using assms(2-5) by (intro r_run [of i _ pc' q']) (simp_all add: at_thread_def)
  also have "(at_thread s i ts pc q)\<lparr>rs_q := q', rs_pcs := (rs_pcs (at_thread s i ts pc q))[i := pc']\<rparr> =
      at_thread s i ts pc' q'"
    by (cases s) (simp add: at_thread_def)
  finally have "ring_step (at_thread s i ts pc q) (at_thread s i ts pc' q')" .
  with assms(1) show ?thesis by (rule rtranclp.rtrancl_into_rtrancl)
qed

lemma ring_put_steps:
  assumes "i < length (rs_pcs s)" and "rs_pcs s ! i = Idle" and "rq_shape b (rs_q s)"
    and "slot_free s (slot (mask b) (rq_tx (rs_q s)))"
  shows "ring_step\<^sup>*\<^sup>* s (s\<lparr>rs_q := rq_put t (rs_q s), rs_put := rs_put s @ [t]\<rparr>)"
proof -
  let ?q = "rs_q s" and ?k = "slot (mask b) (rq_tx (rs_q s))" and ?ts = "rs_put s @ [t]"
  let ?it = "rq_block (rs_q s) ! ?k"
  have shape: "rq_mask ?q = mask b" "?k < length (rq_block ?q)" "b \<le> 64"
    using assms(3) slot_less [of b "rq_tx ?q"] by (simp_all add: rq_shape_def)
  have free: "it_state ?it = 0" and unres: "\<forall>pc \<in> set (rs_pcs s). \<not> reserved ?k pc"
    using assms(4) by (simp_all add: slot_free_def)
  have "ring_step s (at_thread s i ?ts (PutStart t) ?q)"
    using r_put [OF assms(1,2)] by (simp add: at_thread_def)
  then have 1: "ring_step\<^sup>*\<^sup>* s (at_thread s i ?ts (PutStart t) ?q)" by (rule r_into_rtranclp)
  note step = at_thread_step [OF _ assms(1)]
  let ?q1 = "?q\<lparr>rq_tx := rq_tx ?q + 1\<rparr>"
  have "slot_free (at_thread s i ?ts (PutStart t) ?q) ?k"
    using free unres assms(1) set_update_subset_insert [of "rs_pcs s" i "PutStart t"]
    by (auto simp: slot_free_def at_thread_def reserved_def)
  then have 2: "ring_step\<^sup>*\<^sup>* s (at_thread s i ?ts (PutClaim ?k t) ?q1)"
    by (intro step [OF 1]) (simp_all add: shape)
  let ?q2 = "set_item ?k (\<lambda>it. it\<lparr>it_state := 1\<rparr>) ?q1"
  have 3: "ring_step\<^sup>*\<^sup>* s (at_thread s i ?ts (PutClaim ?k t) ?q2)"
    by (intro step [OF 2]) (simp_all add: cas_def free)
  have 4: "ring_step\<^sup>*\<^sup>* s (at_thread s i ?ts (PutWrite ?k t) ?q2)"
    by (intro step [OF 3]) (simp_all add: cas_def shape set_item_def)
  let ?q3 = "set_item ?k (\<lambda>it. it\<lparr>it_value := t\<rparr>) ?q2"
  have 5: "ring_step\<^sup>*\<^sup>* s (at_thread s i ?ts (PutFull ?k t) ?q3)"
    by (intro step [OF 4]) simp_all
  let ?q4 = "set_item ?k (\<lambda>it. it\<lparr>it_state := 2\<rparr>) ?q3"
  have 6: "ring_step\<^sup>*\<^sup>* s (at_thread s i ?ts PutCount ?q4)"
    by (intro step [OF 5]) simp_all
  have 7: "ring_step\<^sup>*\<^sup>* s (at_thread s i ?ts Idle (?q4\<lparr>rq_count := rq_count ?q4 + 1\<rparr>))"
    by (intro step [OF 6]) simp_all
  have "?q4\<lparr>rq_count := rq_count ?q4 + 1\<rparr> = rq_put t ?q"
    using shape by (simp add: rq_put_eq set_item_def)
  moreover have "(rs_pcs s)[i := Idle] = rs_pcs s" using assms(2) by (metis list_update_id)
  ultimately show ?thesis using 7 by (simp add: at_thread_def)
qed

section \<open>Properties\<close>

lemma idle_sums:
  "\<forall>pc \<in> set pcs. pc = Idle \<Longrightarrow> sum_list (map carried pcs) = {#} \<and> sum_list (map owed pcs) = 0"
  by (induction pcs) auto

lemma full_slots:
  "\<forall>it \<in> set bl. it_state it \<in> {0, 2} \<Longrightarrow>
     sum_list (map held bl) = mset (map it_value (filter (\<lambda>it. it_state it = 2) bl)) \<and>
     sum_list (map filled bl) = of_nat (length (filter (\<lambda>it. it_state it = 2) bl))"
  by (induction bl) (auto simp: held_def filled_def)


text \<open>
  C35. However the accesses of any number of threads to a ring queue interleave, as long as each put
  finds its slot free: nothing is received that was not put, or more often than it was put; and
  when no thread is inside, what was put has been received or stands in a full slot, and the length
  is the number of full slots. (Without the condition it fails for a single thread already.)
\<close>

theorem ring_threads_conserve:
  assumes "b < 64" and "ring_step\<^sup>*\<^sup>* (ring_start n (rq_new mem (of_nat b))) s"
  shows "mset (rs_got s) \<subseteq># mset (rs_put s) \<and>
    (list_all (\<lambda>pc. pc = Idle) (rs_pcs s) \<longrightarrow>
       mset (rs_put s) = mset (rs_got s) +
         mset (map it_value (filter (\<lambda>it. it_state it = 2) (rq_block (rs_q s)))) \<and>
       rq_len (rs_q s) = of_nat (length (filter (\<lambda>it. it_state it = 2) (rq_block (rs_q s)))))"
proof -
  have "ring_inv b (ring_start n (rq_new mem (of_nat b)))"
    by (rule ring_start_inv [OF rq_new_of_nat [OF assms(1)]]) simp
  then have inv: "ring_inv b s" by (rule ring_run_inv [OF assms(2)])
  then have got: "mset (rs_got s) \<subseteq># mset (rs_put s)" by (simp add: ring_inv_def)
  show ?thesis
  proof (intro conjI got impI)
    assume "list_all (\<lambda>pc. pc = Idle) (rs_pcs s)"
    then have idle: "\<forall>pc \<in> set (rs_pcs s). pc = Idle" by (simp add: list_all_iff)
    have st: "\<forall>it \<in> set (rq_block (rs_q s)). it_state it \<in> {0, 2}"
    proof
      fix it assume "it \<in> set (rq_block (rs_q s))"
      then obtain k where k: "k < length (rq_block (rs_q s))" "it = rq_block (rs_q s) ! k"
        by (auto simp: in_set_conv_nth)
      have "owns (rs_pcs s ! i) \<noteq> Some k" if "i < length (rs_pcs s)" for i
        using idle nth_mem [OF that] by auto
      moreover have "slots_ok (rq_block (rs_q s)) (rs_pcs s)" using inv by (simp add: ring_inv_def)
      ultimately show "it_state it \<in> {0, 2}" using k unfolding slots_ok_def by blast
    qed
    note z = idle_sums [OF idle] and f = full_slots [OF st]
    from inv z f show "mset (rs_put s) = mset (rs_got s) +
         mset (map it_value (filter (\<lambda>it. it_state it = 2) (rq_block (rs_q s))))"
      and "rq_len (rs_q s) = of_nat (length (filter (\<lambda>it. it_state it = 2) (rq_block (rs_q s))))"
      by (simp_all add: ring_inv_def rq_len_def ac_simps)
  qed
qed

theorem ring_threads_conserve_witness:
  "let q = rq_put 5 (rq_new (\<lambda>_. \<lparr>it_state = 7, it_value = 0 :: nat\<rparr>) (of_nat 0))
   in {#5#} = mset (map it_value (filter (\<lambda>it. it_state it = 2) (rq_block q))) \<and> rq_len q = 1"
proof -
  let ?q = "rq_new (\<lambda>_. \<lparr>it_state = 7, it_value = 0 :: nat\<rparr>) (of_nat 0)"
  let ?s = "ring_start 2 ?q"
  have ok: "rq_ok 0 ?q" by (rule rq_new_of_nat) simp
  have sh: "rq_shape 0 (rs_q ?s)" using ok by (simp add: ring_start_def rq_ok_def rq_shape_def)
  have fr: "slot_free ?s (slot (mask 0) (rq_tx (rs_q ?s)))"
    by (simp add: slot_free_def ring_start_def reserved_def rq_new_def Let_def slot_def ring_mask_def)
  have "ring_step\<^sup>*\<^sup>* ?s (?s\<lparr>rs_q := rq_put 5 (rs_q ?s), rs_put := rs_put ?s @ [5]\<rparr>)"
    by (rule ring_put_steps [OF _ _ sh fr, of 0]) (simp_all add: ring_start_def)
  from ring_threads_conserve [OF _ this]
  have "{#5#} = mset (map it_value (filter (\<lambda>it. it_state it = 2) (rq_block (rq_put 5 ?q)))) \<and>
      rq_len (rq_put 5 ?q) = of_nat (length (filter (\<lambda>it. it_state it = 2) (rq_block (rq_put 5 ?q))))"
    by (simp add: ring_start_def list_all_iff)
  moreover have "rq_len (rq_put 5 ?q) = 1" by (simp add: rq_len_def rq_put_eq rq_new_def Let_def)
  ultimately show ?thesis by (simp add: Let_def)
qed

end
