(* ===== verification/Link_Threads.thy ===== *)
theory Link_Threads
  imports Link_Queue "HOL-Library.Multiset" "HOL-Library.Sublist"
begin

text \<open>
  \<open>InfiniteLinkQueue\<close> of \<open>src/queue.rs\<close> with several threads inside at once, each at some atomic
  access of \<open>put\<close> or \<open>get\<close> (copying a payload is one access). With one consumer every interleaving
  is safe and first-in first-out. With several it is not: a thread may release an item, and a put
  use it again, while another thread still reads it. It is safe if items are released only when no
  other get is under way, which is the test the code has commented out.
\<close>

section \<open>Threads\<close>

text \<open>
  Where a thread is: the access it makes next. Constructors \<open>L\<close> belong to \<open>put\<close> and the cache's
  \<open>pop\<close>, constructors \<open>G\<close> to \<open>get\<close>, \<open>taildealloc\<close> and the cache's \<open>push\<close>, in the order of the code.
  The last argument of \<open>LSent\<close> and \<open>LSwap\<close> is the value put, which is in the item by then.
  \<open>LCrash\<close> is an access to an address that is not allocated.
\<close>

datatype 'a link_pc =
    LIdle
  | LPop 'a
  | LPopSwap nat 'a
  | LReset nat nat 'a
  | LNew 'a
  | LSent nat 'a
  | LSwap nat 'a
  | LNext nat nat
  | LPrev nat nat
  | LCount
  | GEnter
  | GLst
  | GCheck nat
  | GLock nat
  | GTail nat
  | GTake nat nat
  | GPush nat nat nat
  | GPushSwap nat nat nat nat
  | GFree nat nat nat
  | GCut nat
  | GUnlock nat
  | GStart nat
  | GStartPrev nat
  | GStartMove nat nat
  | GClaim bool nat
  | GLen bool nat
  | GPrev nat
  | GMove nat nat
  | GRead nat
  | GMark nat 'a
  | GNeed 'a
  | GExit 'a
  | GBack nat
  | GNone
  | GDone "'a option"
  | LCrash

definition with_item ::
    "nat \<Rightarrow> ('a link_item \<Rightarrow> 'a link_pc) \<Rightarrow> 'a link_queue \<Rightarrow> 'a link_pc \<times> 'a link_queue" where
  "with_item a k q = (case lq_mem q a of None \<Rightarrow> (LCrash, q) | Some it \<Rightarrow> (k it, q))"

definition set_at ::
    "nat \<Rightarrow> ('a link_item \<Rightarrow> 'a link_item) \<Rightarrow> 'a link_pc \<Rightarrow> 'a link_queue \<Rightarrow> 'a link_pc \<times> 'a link_queue" where
  "set_at a f pc q =
     (case lq_mem q a of
        None \<Rightarrow> (LCrash, q)
      | Some it \<Rightarrow> (pc, q\<lparr>lq_mem := (lq_mem q)(a \<mapsto> f it)\<rparr>))"

text \<open>The stores with which \<open>put\<close> resets a recycled item, in their order.\<close>

definition reset_field :: "nat \<Rightarrow> 'a \<Rightarrow> 'a link_item \<Rightarrow> 'a link_item" where
  "reset_field n t it =
     (if n = 0 then it\<lparr>it_claimed := False\<rparr>
      else if n = 1 then it\<lparr>it_needrel := False\<rparr>
      else if n = 2 then it\<lparr>it_next := 0\<rparr>
      else if n = 3 then it\<lparr>it_prev := 0\<rparr>
      else it\<lparr>it_payload := t\<rparr>)"

text \<open>The accesses of \<open>put\<close>.\<close>

fun putting :: "'a link_pc \<Rightarrow> bool" where
  "putting LIdle = True"
| "putting (LPop _) = True"
| "putting (LPopSwap _ _) = True"
| "putting (LReset _ _ _) = True"
| "putting (LNew _) = True"
| "putting (LSent _ _) = True"
| "putting (LSwap _ _) = True"
| "putting (LNext _ _) = True"
| "putting (LPrev _ _) = True"
| "putting LCount = True"
| "putting LCrash = True"
| "putting _ = False"

text \<open>One access of \<open>put\<close>.\<close>

fun put_do :: "'a link_pc \<Rightarrow> 'a link_queue \<Rightarrow> 'a link_pc \<times> 'a link_queue" where
  "put_do (LPop t) q =
     (let c = lq_recycle q; p = pc_pos c - 1
      in (LPopSwap (slot (pc_mask c) p) t, q\<lparr>lq_recycle := c\<lparr>pc_pos := p\<rparr>\<rparr>))"
| "put_do (LPopSwap k t) q =
     (let c = lq_recycle q; old = pc_block c ! k
      in (if old \<noteq> 0 then LReset 0 old t else LNew t,
          q\<lparr>lq_recycle := c\<lparr>pc_block := (pc_block c)[k := 0]\<rparr>\<rparr>))"
| "put_do (LReset n a t) q =
     set_at a (reset_field n t) (if n < 4 then LReset (Suc n) a t else LSent a t) q"
| "put_do (LNew t) q =
     (LSent (lq_brk q) t,
      q\<lparr>lq_brk := Suc (lq_brk q), lq_mem := (lq_mem q)(lq_brk q \<mapsto>
         \<lparr>it_next = 0, it_prev = 0, it_claimed = False, it_needrel = False, it_payload = t\<rparr>)\<rparr>)"
| "put_do (LSent a t) q = (LSwap a t, q\<lparr>lq_sent := lq_sent q + 1\<rparr>)"
| "put_do (LSwap a t) q = (LNext a (lq_ptr q), q\<lparr>lq_ptr := a\<rparr>)"
| "put_do (LNext a old) q = set_at a (\<lambda>it. it\<lparr>it_next := old\<rparr>) (LPrev a old) q"
| "put_do (LPrev a old) q =
     (if old \<noteq> 0 then set_at old (\<lambda>it. it\<lparr>it_prev := a\<rparr>) LCount q else (LCount, q\<lparr>lq_lst := a\<rparr>))"
| "put_do LCount q = (LIdle, q\<lparr>lq_count := lq_count q + 1\<rparr>)"
| "put_do pc q = (pc, q)"

text \<open>One access of \<open>get\<close>.\<close>

fun get_do :: "'a link_pc \<Rightarrow> 'a link_queue \<Rightarrow> 'a link_pc \<times> 'a link_queue" where
  "get_do GEnter q = (GLst, q\<lparr>lq_rinside := lq_rinside q + 1\<rparr>)"
| "get_do GLst q = (if lq_lst q = 0 then GDone None else GCheck (lq_lst q), q)"
| "get_do (GCheck cur) q = with_item cur (\<lambda>it. if it_needrel it then GLock cur else GStart cur) q"
| "get_do (GLock cur) q =
     (if \<not> lq_doingrel q then (GTail cur, q\<lparr>lq_doingrel := True\<rparr>) else (GStart cur, q))"
| "get_do (GTail cur) q = with_item cur (\<lambda>it. GTake cur (it_next it)) q"
| "get_do (GTake cur n) q =
     (if n \<noteq> 0 then with_item n (\<lambda>it. GPush cur n (it_next it)) q else (GCut cur, q))"
| "get_do (GPush cur n n') q =
     (let c = lq_recycle q; p = pc_pos c
      in (GPushSwap cur n n' (slot (pc_mask c) p), q\<lparr>lq_recycle := c\<lparr>pc_pos := p + 1\<rparr>\<rparr>))"
| "get_do (GPushSwap cur n n' k) q =
     (let c = lq_recycle q; old = pc_block c ! k
      in (if old \<noteq> 0 then GFree cur n' old else GTake cur n',
          q\<lparr>lq_recycle := c\<lparr>pc_block := (pc_block c)[k := n]\<rparr>\<rparr>))"
| "get_do (GFree cur n' old) q =
     (case lq_mem q old of
        None \<Rightarrow> (LCrash, q)
      | Some _ \<Rightarrow> (GTake cur n', q\<lparr>lq_mem := (lq_mem q)(old := None)\<rparr>))"
| "get_do (GCut cur) q = set_at cur (\<lambda>it. it\<lparr>it_next := 0\<rparr>) (GUnlock cur) q"
| "get_do (GUnlock cur) q = (GStart cur, q\<lparr>lq_doingrel := False\<rparr>)"
| "get_do (GStart cur) q = with_item cur (\<lambda>it. if it_needrel it then GStartPrev cur else GClaim True cur) q"
| "get_do (GStartPrev cur) q = with_item cur (\<lambda>it. GStartMove cur (it_prev it)) q"
| "get_do (GStartMove cur n) q = (GClaim True n, move_lst cur n q)"
| "get_do (GClaim first cur) q =
     (if cur = 0 then (GNone, q)
      else case lq_mem q cur of
             None \<Rightarrow> (LCrash, q)
           | Some it \<Rightarrow>
               if it_claimed it then (GBack cur, q)
               else (GLen first cur, q\<lparr>lq_mem := (lq_mem q)(cur \<mapsto> it\<lparr>it_claimed := True\<rparr>)\<rparr>))"
| "get_do (GLen first cur) q = (if first then GPrev cur else GRead cur, q\<lparr>lq_count := lq_count q - 1\<rparr>)"
| "get_do (GPrev cur) q = with_item cur (\<lambda>it. GMove cur (it_prev it)) q"
| "get_do (GMove cur n) q = (GRead cur, move_lst cur n q)"
| "get_do (GRead cur) q = with_item cur (\<lambda>it. GMark cur (it_payload it)) q"
| "get_do (GMark cur v) q = set_at cur (\<lambda>it. it\<lparr>it_needrel := True\<rparr>) (GNeed v) q"
| "get_do (GNeed v) q = (GExit v, q\<lparr>lq_needrel := lq_needrel q + 1\<rparr>)"
| "get_do (GExit v) q = (GDone (Some v), q\<lparr>lq_rinside := lq_rinside q - 1\<rparr>)"
| "get_do (GBack cur) q = with_item cur (\<lambda>it. GClaim False (it_prev it)) q"
| "get_do GNone q = (GDone None, q\<lparr>lq_rinside := lq_rinside q - 1\<rparr>)"
| "get_do pc q = (pc, q)"

definition link_do :: "'a link_pc \<Rightarrow> 'a link_queue \<Rightarrow> 'a link_pc \<times> 'a link_queue" where
  "link_do pc q = (if putting pc then put_do pc q else get_do pc q)"

lemma link_do_put [simp]: "putting pc \<Longrightarrow> link_do pc q = put_do pc q"
  by (simp add: link_do_def)

lemma link_do_get [simp]: "\<not> putting pc \<Longrightarrow> link_do pc q = get_do pc q"
  by (simp add: link_do_def)

text \<open>
  The queue, its threads, and the history: the values put, in the order of the calls; sent, in the
  order in which they became the head; claimed, in the order of the claims; and got.
\<close>

record 'a link_system =
  ls_q :: "'a link_queue"
  ls_pcs :: "'a link_pc list"
  ls_put :: "'a list"
  ls_sent :: "'a list"
  ls_claimed :: "'a list"
  ls_got :: "'a list"

definition link_start :: "nat \<Rightarrow> 'a link_queue \<Rightarrow> 'a link_system" where
  "link_start n q = \<lparr>ls_q = q, ls_pcs = replicate n LIdle, ls_put = [], ls_sent = [], ls_claimed = [], ls_got = []\<rparr>"

fun sends :: "'a link_pc \<Rightarrow> 'a list" where
  "sends (LSwap a t) = [t]"
| "sends pc = []"

fun claims :: "'a link_queue \<Rightarrow> 'a link_pc \<Rightarrow> 'a list" where
  "claims q (GClaim first cur) =
     (case lq_mem q cur of Some it \<Rightarrow> if cur \<noteq> 0 \<and> \<not> it_claimed it then [it_payload it] else [] | None \<Rightarrow> [])"
| "claims q pc = []"

text \<open>A get that has a pointer into the list.\<close>

fun holds :: "'a link_pc \<Rightarrow> bool" where
  "holds LIdle = False"
| "holds (LPop _) = False"
| "holds (LPopSwap _ _) = False"
| "holds (LReset _ _ _) = False"
| "holds (LNew _) = False"
| "holds (LSent _ _) = False"
| "holds (LSwap _ _) = False"
| "holds (LNext _ _) = False"
| "holds (LPrev _ _) = False"
| "holds LCount = False"
| "holds GEnter = False"
| "holds GLst = False"
| "holds (GNeed _) = False"
| "holds (GExit _) = False"
| "holds GNone = False"
| "holds (GDone _) = False"
| "holds LCrash = False"
| "holds _ = True"

definition alone :: "'a link_system \<Rightarrow> nat \<Rightarrow> bool" where
  "alone s i \<longleftrightarrow> (\<forall>j < length (ls_pcs s). j \<noteq> i \<longrightarrow> \<not> holds (ls_pcs s ! j))"

text \<open>Thread \<open>i\<close> made an access, which left the queue \<open>q\<close>, and is now at \<open>pc\<close>.\<close>

abbreviation after :: "'a link_system \<Rightarrow> nat \<Rightarrow> 'a link_queue \<Rightarrow> 'a link_pc \<Rightarrow> 'a link_system" where
  "after s i q pc \<equiv> s\<lparr>ls_q := q, ls_pcs := (ls_pcs s)[i := pc],
     ls_sent := ls_sent s @ sends (ls_pcs s ! i),
     ls_claimed := ls_claimed s @ claims (ls_q s) (ls_pcs s ! i)\<rparr>"

text \<open>
  One thread makes one access. \<open>C\<close> are the threads that call \<open>get\<close>. If \<open>calm\<close>, a thread begins a release
  only while no other get has a pointer into the list; otherwise whenever the code would.
\<close>

inductive link_step :: "nat set \<Rightarrow> bool \<Rightarrow> 'a link_system \<Rightarrow> 'a link_system \<Rightarrow> bool" for C calm where
  l_put: "i < length (ls_pcs s) \<Longrightarrow> ls_pcs s ! i = LIdle \<Longrightarrow>
     link_step C calm s (s\<lparr>ls_pcs := (ls_pcs s)[i := LPop t], ls_put := ls_put s @ [t]\<rparr>)"
| l_get: "i < length (ls_pcs s) \<Longrightarrow> ls_pcs s ! i = LIdle \<Longrightarrow> i \<in> C \<Longrightarrow>
     link_step C calm s (s\<lparr>ls_pcs := (ls_pcs s)[i := GEnter]\<rparr>)"
| l_run: "i < length (ls_pcs s) \<Longrightarrow>
     (calm \<and> (\<exists>cur. ls_pcs s ! i = GLock cur) \<and> \<not> lq_doingrel (ls_q s) \<longrightarrow> alone s i) \<Longrightarrow>
     link_do (ls_pcs s ! i) (ls_q s) = (pc, q) \<Longrightarrow>
     link_step C calm s (after s i q pc)"
| l_done: "i < length (ls_pcs s) \<Longrightarrow> ls_pcs s ! i = GDone r \<Longrightarrow>
     link_step C calm s (s\<lparr>ls_pcs := (ls_pcs s)[i := LIdle], ls_got := ls_got s @ option_list r\<rparr>)"

end
