(* ===== verification/Link_Invariant.thy ===== *)
theory Link_Invariant
  imports Link_Threads
begin

text \<open>
  The invariant of the linked queue with several threads inside, and what a thread relies on of the
  others while it stands still.
\<close>

section \<open>The ghost state\<close>

text \<open>
  \<open>g_list\<close> are the items that were swapped in and not released yet, oldest first, of which the
  first \<open>g_taken\<close> have been claimed; \<open>g_tail\<close> those that are being released; \<open>g_gone\<close> the values of
  those that were released. \<open>g_place\<close> says where each address is: an item in the list may have a
  thread that is still linking it. \<open>g_rel\<close> is the thread that is releasing.
\<close>

datatype place = Nowhere | InList "nat option" | InTail | Cached nat | Private nat

record 'a ghost =
  g_list :: "nat list"
  g_taken :: nat
  g_tail :: "nat list"
  g_gone :: "'a list"
  g_place :: "nat \<Rightarrow> place"
  g_rel :: "nat option"

abbreviation item :: "'a link_queue \<Rightarrow> nat \<Rightarrow> 'a link_item" where
  "item q a \<equiv> the (lq_mem q a)"

abbreviation nxt :: "'a link_queue \<Rightarrow> nat \<Rightarrow> nat" where
  "nxt q a \<equiv> it_next (item q a)"

abbreviation prv :: "'a link_queue \<Rightarrow> nat \<Rightarrow> nat" where
  "prv q a \<equiv> it_prev (item q a)"

text \<open>An item of the list that can be reached: those before it are linked, and claimed.\<close>

definition reached :: "'a link_queue \<Rightarrow> 'a ghost \<Rightarrow> nat \<Rightarrow> bool" where
  "reached q g a \<longleftrightarrow> lq_lst q \<noteq> 0 \<and>
     (\<exists>k < length (g_list g). a = g_list g ! k \<and> k \<le> g_taken g \<and> (\<forall>j < k. prv q (g_list g ! j) \<noteq> 0))"

text \<open>An item that was the last one at some time.\<close>

definition behind :: "'a link_queue \<Rightarrow> 'a ghost \<Rightarrow> nat \<Rightarrow> bool" where
  "behind q g a \<longleftrightarrow>
     (\<exists>k l. k \<le> l \<and> l < length (g_list g) \<and> a = g_list g ! k \<and> lq_lst q = g_list g ! l)"

definition taken_item :: "'a link_queue \<Rightarrow> 'a ghost \<Rightarrow> nat \<Rightarrow> bool" where
  "taken_item q g a \<longleftrightarrow> reached q g a \<and> it_claimed (item q a)"

text \<open>Where a put that swapped its item \<open>a\<close> in has to link it.\<close>

definition link_place :: "'a link_queue \<Rightarrow> 'a ghost \<Rightarrow> nat \<Rightarrow> nat \<Rightarrow> bool" where
  "link_place q g a old \<longleftrightarrow>
     (if old = 0 then g_list g \<noteq> [] \<and> a = hd (g_list g) \<and> lq_lst q = 0
      else \<exists>k. Suc k < length (g_list g) \<and> old = g_list g ! k \<and> a = g_list g ! Suc k \<and> prv q old = 0)"

fun chain :: "'a link_queue \<Rightarrow> nat list \<Rightarrow> bool" where
  "chain q [] = True"
| "chain q (x # xs) = (nxt q x = hd (xs @ [0]) \<and> chain q xs)"

definition releasing :: "'a link_queue \<Rightarrow> 'a ghost \<Rightarrow> nat \<Rightarrow> nat \<Rightarrow> bool" where
  "releasing q g i cur \<longleftrightarrow>
     g_rel g = Some i \<and> lq_lst q \<noteq> 0 \<and> g_list g \<noteq> [] \<and> cur = hd (g_list g) \<and> chain q (g_tail g)"

text \<open>What holds at each access of thread \<open>i\<close>.\<close>

fun pc_inv :: "'a link_queue \<Rightarrow> 'a ghost \<Rightarrow> nat \<Rightarrow> 'a link_pc \<Rightarrow> bool" where
  "pc_inv q g i (LPopSwap k t) = (k < length (pc_block (lq_recycle q)))"
| "pc_inv q g i (LReset n a t) =
     (g_place g a = Private i \<and> n \<le> 4 \<and>
      (n > 0 \<longrightarrow> \<not> it_claimed (item q a)) \<and> (n > 1 \<longrightarrow> \<not> it_needrel (item q a)) \<and>
      (n > 2 \<longrightarrow> nxt q a = 0) \<and> (n > 3 \<longrightarrow> prv q a = 0))"
| "pc_inv q g i (LSent a t) =
     (g_place g a = Private i \<and> lq_mem q a =
        Some \<lparr>it_next = 0, it_prev = 0, it_claimed = False, it_needrel = False, it_payload = t\<rparr>)"
| "pc_inv q g i (LSwap a t) =
     (g_place g a = Private i \<and> lq_mem q a =
        Some \<lparr>it_next = 0, it_prev = 0, it_claimed = False, it_needrel = False, it_payload = t\<rparr>)"
| "pc_inv q g i (LNext a old) = (g_place g a = InList (Some i) \<and> link_place q g a old \<and> nxt q a = 0)"
| "pc_inv q g i (LPrev a old) = (g_place g a = InList (Some i) \<and> link_place q g a old \<and> nxt q a = old)"
| "pc_inv q g i (GCheck cur) = (reached q g cur \<and> behind q g cur)"
| "pc_inv q g i (GLock cur) = (reached q g cur \<and> behind q g cur)"
| "pc_inv q g i (GTail cur) = (releasing q g i cur \<and> nxt q cur = hd (g_tail g @ [0]))"
| "pc_inv q g i (GTake cur n) = (releasing q g i cur \<and> n = hd (g_tail g @ [0]))"
| "pc_inv q g i (GPush cur n n') =
     (releasing q g i cur \<and> g_tail g \<noteq> [] \<and> n = hd (g_tail g) \<and> n' = hd (tl (g_tail g) @ [0]))"
| "pc_inv q g i (GPushSwap cur n n' k) =
     (releasing q g i cur \<and> g_tail g \<noteq> [] \<and> n = hd (g_tail g) \<and> n' = hd (tl (g_tail g) @ [0]) \<and>
      k < length (pc_block (lq_recycle q)))"
| "pc_inv q g i (GFree cur n' old) =
     (releasing q g i cur \<and> n' = hd (g_tail g @ [0]) \<and> g_place g old = Private i)"
| "pc_inv q g i (GCut cur) = (releasing q g i cur \<and> g_tail g = [])"
| "pc_inv q g i (GUnlock cur) = (releasing q g i cur \<and> g_tail g = [] \<and> nxt q cur = 0)"
| "pc_inv q g i (GStart cur) = reached q g cur"
| "pc_inv q g i (GStartPrev cur) = taken_item q g cur"
| "pc_inv q g i (GStartMove cur n) = (taken_item q g cur \<and> (n \<noteq> 0 \<longrightarrow> prv q cur = n))"
| "pc_inv q g i (GClaim first cur) = (cur \<noteq> 0 \<longrightarrow> reached q g cur)"
| "pc_inv q g i (GLen first cur) = taken_item q g cur"
| "pc_inv q g i (GPrev cur) = taken_item q g cur"
| "pc_inv q g i (GMove cur n) = (taken_item q g cur \<and> (n \<noteq> 0 \<longrightarrow> prv q cur = n))"
| "pc_inv q g i (GRead cur) = taken_item q g cur"
| "pc_inv q g i (GMark cur v) = taken_item q g cur"
| "pc_inv q g i (GBack cur) = taken_item q g cur"
| "pc_inv q g i LCrash = False"
| "pc_inv q g i _ = True"

definition list_inv :: "'a link_queue \<Rightarrow> 'a ghost \<Rightarrow> nat \<Rightarrow> bool" where
  "list_inv q g k \<longleftrightarrow>
     (let a = g_list g ! k
      in (it_claimed (item q a) \<longleftrightarrow> k < g_taken g) \<and> (it_needrel (item q a) \<longrightarrow> it_claimed (item q a)) \<and>
         (prv q a \<noteq> 0 \<longrightarrow> Suc k < length (g_list g) \<and> prv q a = g_list g ! Suc k) \<and>
         (prv q a \<noteq> 0 \<longrightarrow> nxt q (g_list g ! Suc k) = a))"

definition sorted_inv :: "'a ghost \<Rightarrow> bool" where
  "sorted_inv g \<longleftrightarrow>
     distinct (g_list g) \<and> distinct (g_tail g) \<and>
     (\<forall>x. x \<in> set (g_list g) \<longleftrightarrow> (\<exists>l. g_place g x = InList l)) \<and>
     (\<forall>x. x \<in> set (g_tail g) \<longleftrightarrow> g_place g x = InTail)"

definition cache_inv :: "'a link_queue \<Rightarrow> (nat \<Rightarrow> place) \<Rightarrow> bool" where
  "cache_inv q p \<longleftrightarrow>
     (\<forall>k < length (pc_block (lq_recycle q)). pc_block (lq_recycle q) ! k \<noteq> 0 \<longrightarrow>
        p (pc_block (lq_recycle q) ! k) = Cached k) \<and>
     length (pc_block (lq_recycle q)) = 2 ^ 10 \<and> pc_mask (lq_recycle q) = mask 10"

definition memory_inv :: "'a link_queue \<Rightarrow> (nat \<Rightarrow> place) \<Rightarrow> bool" where
  "memory_inv q p \<longleftrightarrow>
     0 < lq_brk q \<and> (\<forall>x. p x \<noteq> Nowhere \<longrightarrow> 0 < x \<and> x < lq_brk q \<and> lq_mem q x \<noteq> None)"

definition place_inv :: "'a link_queue \<Rightarrow> 'a ghost \<Rightarrow> bool" where
  "place_inv q g \<longleftrightarrow> sorted_inv g \<and> cache_inv q (g_place g) \<and> memory_inv q (g_place g)"

definition ends_inv :: "'a link_queue \<Rightarrow> 'a ghost \<Rightarrow> bool" where
  "ends_inv q g \<longleftrightarrow>
     lq_ptr q = last (0 # g_list g) \<and> (lq_lst q \<noteq> 0 \<longrightarrow> reached q g (lq_lst q)) \<and>
     g_taken g \<le> length (g_list g) \<and> (lq_doingrel q \<longleftrightarrow> g_rel g \<noteq> None) \<and>
     (g_rel g = None \<longrightarrow> g_tail g = [] \<and> (g_list g \<noteq> [] \<longrightarrow> nxt q (hd (g_list g)) = 0))"

text \<open>An item whose neighbour, or the queue, does not point to it yet has a thread that is linking it.\<close>

definition linker_inv :: "'a link_queue \<Rightarrow> 'a ghost \<Rightarrow> bool" where
  "linker_inv q g \<longleftrightarrow>
     (\<forall>k. Suc k < length (g_list g) \<and> prv q (g_list g ! k) = 0 \<longrightarrow>
        (\<exists>i. g_place g (g_list g ! Suc k) = InList (Some i))) \<and>
     (g_list g \<noteq> [] \<and> lq_lst q = 0 \<longrightarrow> (\<exists>i. g_place g (hd (g_list g)) = InList (Some i)))"

definition shared_inv :: "'a link_queue \<Rightarrow> 'a ghost \<Rightarrow> bool" where
  "shared_inv q g \<longleftrightarrow>
     place_inv q g \<and> ends_inv q g \<and> linker_inv q g \<and> (\<forall>k < length (g_list g). list_inv q g k)"

text \<open>The values on their way: not yet sent, and claimed but not yet got.\<close>

fun outgoing :: "'a link_pc \<Rightarrow> 'a list" where
  "outgoing (LPop t) = [t]"
| "outgoing (LPopSwap _ t) = [t]"
| "outgoing (LReset _ _ t) = [t]"
| "outgoing (LNew t) = [t]"
| "outgoing (LSent _ t) = [t]"
| "outgoing (LSwap _ t) = [t]"
| "outgoing _ = []"

fun incoming :: "'a link_queue \<Rightarrow> 'a link_pc \<Rightarrow> 'a list" where
  "incoming q (GLen _ cur) = [payload_at q cur]"
| "incoming q (GPrev cur) = [payload_at q cur]"
| "incoming q (GMove cur _) = [payload_at q cur]"
| "incoming q (GRead cur) = [payload_at q cur]"
| "incoming q (GMark _ v) = [v]"
| "incoming q (GNeed v) = [v]"
| "incoming q (GExit v) = [v]"
| "incoming q (GDone r) = option_list r"
| "incoming q _ = []"

definition history_inv :: "'a link_system \<Rightarrow> 'a ghost \<Rightarrow> bool" where
  "history_inv s g \<longleftrightarrow>
     ls_sent s = g_gone g @ map (payload_at (ls_q s)) (g_list g) \<and>
     ls_claimed s = g_gone g @ map (payload_at (ls_q s)) (take (g_taken g) (g_list g)) \<and>
     mset (ls_put s) = mset (ls_sent s) + sum_list (map (mset \<circ> outgoing) (ls_pcs s)) \<and>
     mset (ls_claimed s) = mset (ls_got s) + sum_list (map (mset \<circ> incoming (ls_q s)) (ls_pcs s))"

text \<open>The threads that link items and the one that releases are where the ghost state says.\<close>

fun linking :: "nat \<Rightarrow> 'a link_pc \<Rightarrow> bool" where
  "linking x (LNext a old) = (a = x)"
| "linking x (LPrev a old) = (a = x)"
| "linking x pc = False"

fun in_release :: "'a link_pc \<Rightarrow> bool" where
  "in_release (GTail _) = True"
| "in_release (GTake _ _) = True"
| "in_release (GPush _ _ _) = True"
| "in_release (GPushSwap _ _ _ _) = True"
| "in_release (GFree _ _ _) = True"
| "in_release (GCut _) = True"
| "in_release (GUnlock _) = True"
| "in_release _ = False"

definition busy_inv :: "'a link_pc list \<Rightarrow> 'a ghost \<Rightarrow> bool" where
  "busy_inv pcs g \<longleftrightarrow>
     (\<forall>x i. g_place g x = InList (Some i) \<longrightarrow> i < length pcs \<and> linking x (pcs ! i)) \<and>
     (\<forall>i. g_rel g = Some i \<longrightarrow> i < length pcs \<and> in_release (pcs ! i))"

text \<open>What a step of thread \<open>i\<close>, which is then at \<open>pc\<close>, may change of that.\<close>

definition busy_step :: "nat \<Rightarrow> 'a ghost \<Rightarrow> 'a ghost \<Rightarrow> 'a link_pc \<Rightarrow> bool" where
  "busy_step i g g' pc \<longleftrightarrow>
     (\<forall>x j. g_place g' x = InList (Some j) \<longrightarrow> (if j = i then linking x pc else g_place g x = InList (Some j))) \<and>
     (\<forall>j. g_rel g' = Some j \<longrightarrow> (if j = i then in_release pc else g_rel g = Some j))"

lemma busy_inv_step:
  "busy_inv pcs g \<Longrightarrow> busy_step i g g' pc \<Longrightarrow> i < length pcs \<Longrightarrow> busy_inv (pcs[i := pc]) g'"
  unfolding busy_inv_def busy_step_def by (metis length_list_update nth_list_update_eq nth_list_update_neq)

lemma busy_step_keep:
  assumes "busy_inv pcs g" and "\<And>x. \<not> linking x (pcs ! i)" and "in_release (pcs ! i) \<Longrightarrow> in_release pc \<or> g_rel g' = None"
    and "\<And>x j. g_place g' x = InList (Some j) \<Longrightarrow> g_place g x = InList (Some j)"
    and "\<And>j. g_rel g' = Some j \<Longrightarrow> g_rel g = Some j"
  shows "busy_step i g g' pc"
  using assms unfolding busy_inv_def busy_step_def by (metis option.distinct(1))

definition link_inv :: "'a link_system \<Rightarrow> 'a ghost \<Rightarrow> bool" where
  "link_inv s g \<longleftrightarrow>
     shared_inv (ls_q s) g \<and> (\<forall>i < length (ls_pcs s). pc_inv (ls_q s) g i (ls_pcs s ! i)) \<and> history_inv s g \<and>
     busy_inv (ls_pcs s) g"

section \<open>What other threads rely on\<close>

text \<open>
  How the queue may change while thread \<open>j\<close> stands still. The part on reached items matters only to a
  thread that holds one.
\<close>

definition rely :: "bool \<Rightarrow> nat \<Rightarrow> 'a link_queue \<Rightarrow> 'a ghost \<Rightarrow> 'a link_queue \<Rightarrow> 'a ghost \<Rightarrow> bool" where
  "rely holding j q g q' g' \<longleftrightarrow>
     (\<forall>x. g_place g x = Private j \<longrightarrow> g_place g' x = Private j \<and> lq_mem q' x = lq_mem q x) \<and>
     (\<forall>x old. g_place g x = InList (Some j) \<and> link_place q g x old \<longrightarrow>
        g_place g' x = InList (Some j) \<and> nxt q' x = nxt q x \<and> link_place q' g' x old) \<and>
     length (pc_block (lq_recycle q')) = length (pc_block (lq_recycle q)) \<and>
     (g_rel g = Some j \<longrightarrow> g_tail g' = g_tail g \<and>
        (\<forall>cur. releasing q g j cur \<longrightarrow> releasing q' g' j cur \<and> nxt q' cur = nxt q cur)) \<and>
     (holding \<longrightarrow> (\<forall>x. reached q g x \<longrightarrow> reached q' g' x \<and> (behind q g x \<longrightarrow> behind q' g' x) \<and>
        (it_claimed (item q x) \<longrightarrow> it_claimed (item q' x)) \<and> (prv q x \<noteq> 0 \<longrightarrow> prv q' x = prv q x) \<and>
        it_payload (item q' x) = it_payload (item q x)))"

lemma relyI:
  assumes "\<And>x. g_place g x = Private j \<Longrightarrow> g_place g' x = Private j \<and> lq_mem q' x = lq_mem q x"
    and "\<And>x old. g_place g x = InList (Some j) \<Longrightarrow> link_place q g x old \<Longrightarrow>
      g_place g' x = InList (Some j) \<and> nxt q' x = nxt q x \<and> link_place q' g' x old"
    and "length (pc_block (lq_recycle q')) = length (pc_block (lq_recycle q))"
    and "\<And>cur. g_rel g = Some j \<Longrightarrow> g_tail g' = g_tail g"
    and "\<And>cur. releasing q g j cur \<Longrightarrow> releasing q' g' j cur \<and> nxt q' cur = nxt q cur"
    and "\<And>x. holding \<Longrightarrow> reached q g x \<Longrightarrow> reached q' g' x \<and> (behind q g x \<longrightarrow> behind q' g' x) \<and>
      (it_claimed (item q x) \<longrightarrow> it_claimed (item q' x)) \<and> (prv q x \<noteq> 0 \<longrightarrow> prv q' x = prv q x) \<and>
      it_payload (item q' x) = it_payload (item q x)"
  shows "rely holding j q g q' g'"
  using assms unfolding rely_def by blast

lemma releasing_rel: "releasing q g i cur \<Longrightarrow> g_rel g = Some i"
  by (simp add: releasing_def)

lemma rely_pc:
  assumes "rely holding j q g q' g'" and "holds pc \<longrightarrow> holding" and "pc_inv q g j pc"
  shows "pc_inv q' g' j pc \<and> incoming q' pc = incoming q pc"
  using assms
  by (cases pc) (auto simp: rely_def taken_item_def payload_at_def dest: releasing_rel)

lemma link_inv_step:
  assumes inv: "link_inv s g" and i: "i < length (ls_pcs s)"
    and sh: "shared_inv q' g'" and pc: "pc_inv q' g' i pc'"
    and rely: "\<And>j. j < length (ls_pcs s) \<Longrightarrow> j \<noteq> i \<Longrightarrow> rely (holds (ls_pcs s ! j)) j (ls_q s) g q' g'"
    and busy: "busy_step i g g' pc'"
    and sent: "sent' = g_gone g' @ map (payload_at q') (g_list g')"
    and clm: "claimed' = g_gone g' @ map (payload_at q') (take (g_taken g') (g_list g'))"
    and out: "mset put' + mset (ls_sent s) + mset (outgoing (ls_pcs s ! i)) =
      mset (ls_put s) + mset sent' + mset (outgoing pc')"
    and inc: "mset claimed' + mset (ls_got s) + mset (incoming (ls_q s) (ls_pcs s ! i)) =
      mset (ls_claimed s) + mset got' + mset (incoming q' pc')"
  shows "link_inv (s\<lparr>ls_q := q', ls_pcs := (ls_pcs s)[i := pc'], ls_put := put', ls_sent := sent',
    ls_claimed := claimed', ls_got := got'\<rparr>) g'"
proof -
  let ?pcs = "ls_pcs s" and ?q = "ls_q s"
  have others: "pc_inv q' g' j (?pcs ! j) \<and> incoming q' (?pcs ! j) = incoming ?q (?pcs ! j)"
    if "j < length ?pcs" "j \<noteq> i" for j
    using rely_pc [OF rely [OF that]] inv that by (simp add: link_inv_def)
  have hist: "mset (ls_put s) = mset (ls_sent s) + sum_list (map (mset \<circ> outgoing) ?pcs)"
    "mset (ls_claimed s) = mset (ls_got s) + sum_list (map (mset \<circ> incoming ?q) ?pcs)"
    using inv unfolding link_inv_def history_inv_def by blast+
  have eq: "map (mset \<circ> incoming q') (?pcs[i := pc']) = (map (mset \<circ> incoming ?q) ?pcs)[i := mset (incoming q' pc')]"
    using others i by (intro nth_equalityI) (auto simp: nth_list_update)
  have o: "sum_list (map (mset \<circ> outgoing) (?pcs[i := pc'])) + mset (outgoing (?pcs ! i)) =
      sum_list (map (mset \<circ> outgoing) ?pcs) + mset (outgoing pc')"
    using sum_list_update1 [OF i, of "mset \<circ> outgoing" pc'] by simp
  have n: "sum_list (map (mset \<circ> incoming q') (?pcs[i := pc'])) + mset (incoming ?q (?pcs ! i)) =
      sum_list (map (mset \<circ> incoming ?q) ?pcs) + mset (incoming q' pc')"
    unfolding eq
    using sum_list_update1 [of i "map (mset \<circ> incoming ?q) ?pcs" "\<lambda>x. x" "mset (incoming q' pc')"] i by simp
  have "mset put' = mset sent' + sum_list (map (mset \<circ> outgoing) (?pcs[i := pc']))"
  proof -
    have "mset put' + (mset (ls_sent s) + mset (outgoing (?pcs ! i))) =
        mset sent' + (sum_list (map (mset \<circ> outgoing) (?pcs[i := pc'])) + mset (outgoing (?pcs ! i))) + mset (ls_sent s)"
      using out unfolding o hist(1) by (simp add: ac_simps)
    then show ?thesis by (simp add: ac_simps)
  qed
  moreover have "mset claimed' = mset got' + sum_list (map (mset \<circ> incoming q') (?pcs[i := pc']))"
  proof -
    have "mset claimed' + (mset (ls_got s) + mset (incoming ?q (?pcs ! i))) =
        mset got' + (sum_list (map (mset \<circ> incoming q') (?pcs[i := pc'])) + mset (incoming ?q (?pcs ! i))) + mset (ls_got s)"
      using inc unfolding n hist(2) by (simp add: ac_simps)
    then show ?thesis by (simp add: ac_simps)
  qed
  moreover have "pc_inv q' g' j (?pcs[i := pc'] ! j)" if "j < length ?pcs" for j
    using others [OF that] pc that by (cases "j = i") simp_all
  moreover have "busy_inv (?pcs[i := pc']) g'"
    using busy_inv_step [OF _ busy i] inv by (simp add: link_inv_def)
  ultimately show ?thesis using sh sent clm by (simp add: link_inv_def history_inv_def)
qed

section \<open>Steps that change nothing others see\<close>

definition same_queue :: "'a link_queue \<Rightarrow> 'a link_queue \<Rightarrow> bool" where
  "same_queue q q' \<longleftrightarrow>
     lq_mem q' = lq_mem q \<and> lq_brk q' = lq_brk q \<and> lq_ptr q' = lq_ptr q \<and> lq_lst q' = lq_lst q \<and>
     lq_doingrel q' = lq_doingrel q \<and> pc_block (lq_recycle q') = pc_block (lq_recycle q) \<and>
     pc_mask (lq_recycle q') = pc_mask (lq_recycle q)"

lemma chain_cong: "(\<And>x. x \<in> set xs \<Longrightarrow> nxt q' x = nxt q x) \<Longrightarrow> chain q' xs = chain q xs"
  by (induction xs) auto

lemma chain_simps [simp]:
  "chain (q\<lparr>lq_ptr := a\<rparr>) xs = chain q xs" "chain (q\<lparr>lq_lst := a\<rparr>) xs = chain q xs"
  "chain (q\<lparr>lq_doingrel := r\<rparr>) xs = chain q xs" "chain (q\<lparr>lq_recycle := c\<rparr>) xs = chain q xs"
  by (rule chain_cong, simp)+

lemma same_queue_simps:
  assumes "same_queue q q'"
  shows "shared_inv q' g = shared_inv q g" "pc_inv q' g i pc = pc_inv q g i pc" "rely b j q g q' g"
    "payload_at q' = payload_at q" "incoming q' pc = incoming q pc"
proof -
  have e [simp]: "lq_mem q' = lq_mem q" "lq_brk q' = lq_brk q" "lq_ptr q' = lq_ptr q" "lq_lst q' = lq_lst q"
    "lq_doingrel q' = lq_doingrel q" "pc_block (lq_recycle q') = pc_block (lq_recycle q)"
    "pc_mask (lq_recycle q') = pc_mask (lq_recycle q)"
    using assms by (simp_all add: same_queue_def)
  have [simp]: "reached q' g a = reached q g a" "taken_item q' g a = taken_item q g a"
    "link_place q' g a old = link_place q g a old" "releasing q' g i cur = releasing q g i cur"
    "behind q' g a = behind q g a" for a old i cur
    by (simp_all add: reached_def behind_def taken_item_def link_place_def releasing_def chain_cong [of _ q' q])
  show "shared_inv q' g = shared_inv q g"
    by (simp add: shared_inv_def place_inv_def sorted_inv_def cache_inv_def memory_inv_def ends_inv_def list_inv_def
        linker_inv_def)
  show "pc_inv q' g i pc = pc_inv q g i pc" by (cases pc) simp_all
  show "rely b j q g q' g" by (simp add: rely_def)
  show "payload_at q' = payload_at q" by (simp add: payload_at_def fun_eq_iff)
  then show "incoming q' pc = incoming q pc" by (cases pc) simp_all
qed

lemma link_inv_aside:
  assumes inv: "link_inv s g" and i: "i < length (ls_pcs s)" and same: "same_queue (ls_q s) q'"
    and pc: "pc_inv (ls_q s) g i pc'"
    and busy: "\<And>x. \<not> linking x (ls_pcs s ! i)" "in_release (ls_pcs s ! i) \<Longrightarrow> in_release pc'"
    and out: "mset put' + mset (outgoing (ls_pcs s ! i)) = mset (ls_put s) + mset (outgoing pc')"
    and inc: "mset (ls_got s) + mset (incoming (ls_q s) (ls_pcs s ! i)) = mset got' + mset (incoming (ls_q s) pc')"
  shows "link_inv (s\<lparr>ls_q := q', ls_pcs := (ls_pcs s)[i := pc'], ls_put := put', ls_sent := ls_sent s,
    ls_claimed := ls_claimed s, ls_got := got'\<rparr>) g"
proof -
  note sq = same_queue_simps [OF same]
  have h: "ls_sent s = g_gone g @ map (payload_at q') (g_list g)"
    "ls_claimed s = g_gone g @ map (payload_at q') (take (g_taken g) (g_list g))"
    using inv by (simp_all add: link_inv_def history_inv_def sq)
  have "busy_step i g g pc'"
    by (rule busy_step_keep) (use inv busy in \<open>auto simp: link_inv_def\<close>)
  then show ?thesis
    by (rule link_inv_step [OF inv i _ _ _ _ h, rotated 3])
      (use inv pc out inc in \<open>simp_all add: sq link_inv_def ac_simps\<close>)
qed

section \<open>Facts from the invariant\<close>

lemma listed_item:
  assumes "shared_inv q g" and "x \<in> set (g_list g)"
  shows "lq_mem q x = Some (item q x)" "x \<noteq> 0" "\<exists>l. g_place g x = InList l"
proof -
  obtain l where l: "g_place g x = InList l" using assms by (auto simp: shared_inv_def place_inv_def sorted_inv_def)
  then have "0 < x \<and> lq_mem q x \<noteq> None"
    using assms(1) unfolding shared_inv_def place_inv_def memory_inv_def by (metis place.distinct(1))
  with l show "lq_mem q x = Some (item q x)" "x \<noteq> 0" "\<exists>l. g_place g x = InList l" by auto
qed

lemma placed_item:
  assumes "shared_inv q g" and "g_place g x \<noteq> Nowhere"
  shows "lq_mem q x = Some (item q x)" "x \<noteq> 0" "x \<noteq> lq_brk q"
proof -
  have "0 < x \<and> x < lq_brk q \<and> lq_mem q x \<noteq> None"
    using assms unfolding shared_inv_def place_inv_def memory_inv_def by blast
  then show "lq_mem q x = Some (item q x)" "x \<noteq> 0" "x \<noteq> lq_brk q" by auto
qed

lemma reached_listed: "reached q g x \<Longrightarrow> x \<in> set (g_list g)"
  by (auto simp: reached_def)

lemma reached_item: "shared_inv q g \<Longrightarrow> reached q g x \<Longrightarrow> lq_mem q x = Some (item q x) \<and> x \<noteq> 0"
  using listed_item reached_listed by blast

lemma list_index:
  assumes "shared_inv q g" and "j < length (g_list g)" and "k < length (g_list g)"
  shows "g_list g ! j = g_list g ! k \<longleftrightarrow> j = k"
  using assms by (auto simp: shared_inv_def place_inv_def sorted_inv_def nth_eq_iff_index_eq)

lemma list_inj:
  assumes "shared_inv q g" and "x = g_list g ! j" and "j < length (g_list g)"
    and "x = g_list g ! k" and "k < length (g_list g)"
  shows "j = k"
  using list_index [OF assms(1,3,5)] assms(2,4) by blast

lemma list_front:
  assumes "shared_inv q g" and "Suc k < length (g_list g)"
  shows "g_list g ! Suc k \<noteq> hd (g_list g)"
proof -
  have l: "0 < length (g_list g)" using assms(2) by linarith
  then have "hd (g_list g) = g_list g ! 0" by (simp add: hd_conv_nth)
  with list_index [OF assms(1,2) l] show ?thesis by simp
qed

lemma list_invD:
  assumes "shared_inv q g" and "k < length (g_list g)"
  shows "it_claimed (item q (g_list g ! k)) \<longleftrightarrow> k < g_taken g"
    and "it_needrel (item q (g_list g ! k)) \<Longrightarrow> it_claimed (item q (g_list g ! k))"
    and "prv q (g_list g ! k) \<noteq> 0 \<Longrightarrow>
      Suc k < length (g_list g) \<and> prv q (g_list g ! k) = g_list g ! Suc k \<and> nxt q (g_list g ! Suc k) = g_list g ! k"
  using assms by (auto simp: shared_inv_def list_inv_def Let_def)

lemma list_invI:
  assumes "it_claimed (item q (g_list g ! k)) \<longleftrightarrow> k < g_taken g"
    and "it_needrel (item q (g_list g ! k)) \<Longrightarrow> it_claimed (item q (g_list g ! k))"
    and "prv q (g_list g ! k) \<noteq> 0 \<Longrightarrow>
      Suc k < length (g_list g) \<and> prv q (g_list g ! k) = g_list g ! Suc k \<and> nxt q (g_list g ! Suc k) = g_list g ! k"
  shows "list_inv q g k"
  using assms unfolding list_inv_def Let_def by blast

lemma list_inv_cong:
  assumes "list_inv q g k" and "g_list g' = g_list g" and "g_taken g' = g_taken g"
    and "item q' (g_list g ! k) = item q (g_list g ! k)" and "\<And>x. nxt q' x = nxt q x"
  shows "list_inv q' g' k"
  using assms(1) unfolding list_inv_def Let_def assms(2-5) .

lemma linker_keep:
  assumes "shared_inv q g" and "g_list g' = g_list g" and "lq_lst q' = 0 \<Longrightarrow> lq_lst q = 0"
    and "\<And>x. x \<in> set (g_list g) \<Longrightarrow> prv q' x = 0 \<Longrightarrow> prv q x = 0"
    and "\<And>x i. x \<in> set (g_list g) \<Longrightarrow> g_place g x = InList (Some i) \<Longrightarrow> g_place g' x = InList (Some i)"
  shows "linker_inv q' g'"
  unfolding linker_inv_def
proof (intro conjI allI impI)
  have l: "linker_inv q g" using assms(1) by (simp add: shared_inv_def)
  fix k
  assume "Suc k < length (g_list g') \<and> prv q' (g_list g' ! k) = 0"
  then have k: "Suc k < length (g_list g)" "prv q (g_list g ! k) = 0" using assms(2) assms(4) [of "g_list g ! k"] by simp_all
  then obtain i where "g_place g (g_list g ! Suc k) = InList (Some i)" using l unfolding linker_inv_def by blast
  with k(1) assms(2) assms(5) [of "g_list g ! Suc k" i] show "\<exists>i. g_place g' (g_list g' ! Suc k) = InList (Some i)" by auto
next
  have l: "linker_inv q g" using assms(1) by (simp add: shared_inv_def)
  assume h: "g_list g' \<noteq> [] \<and> lq_lst q' = 0"
  then obtain i where "g_place g (hd (g_list g)) = InList (Some i)"
    using l assms(2,3) unfolding linker_inv_def by auto
  with h assms(2) assms(5) [of "hd (g_list g)" i] show "\<exists>i. g_place g' (hd (g_list g')) = InList (Some i)" by auto
qed

text \<open>The item before a claimed one, if it is linked, can be reached.\<close>

lemma reached_prev:
  assumes "shared_inv q g" and "taken_item q g x" and "prv q x \<noteq> 0"
  shows "reached q g (prv q x)"
proof -
  obtain k where k: "k < length (g_list g)" "x = g_list g ! k" "k \<le> g_taken g" "lq_lst q \<noteq> 0"
    "\<forall>j < k. prv q (g_list g ! j) \<noteq> 0" "it_claimed (item q x)"
    using assms(2) by (auto simp: taken_item_def reached_def)
  then have "k < g_taken g" using list_invD(1) [OF assms(1) k(1)] by simp
  with k assms(3) list_invD(3) [OF assms(1) k(1)] show ?thesis
    unfolding reached_def by (intro conjI exI [of _ "Suc k"]) (auto simp: less_Suc_eq)
qed

lemma reached_needrel:
  assumes "shared_inv q g" and "reached q g x" and "it_needrel (item q x)"
  shows "taken_item q g x"
  using assms list_invD(2) [OF assms(1)] by (auto simp: taken_item_def reached_def)

lemma reached_mono:
  assumes "reached q g x" and "lq_lst q' \<noteq> 0"
    and "\<And>k. k < length (g_list g) \<Longrightarrow> k < length (g_list g') \<and> g_list g' ! k = g_list g ! k"
    and "g_taken g \<le> g_taken g'"
    and "\<And>y. y \<in> set (g_list g) \<Longrightarrow> prv q y \<noteq> 0 \<Longrightarrow> prv q' y \<noteq> 0"
  shows "reached q' g' x"
proof -
  obtain k where k: "k < length (g_list g)" "x = g_list g ! k" "k \<le> g_taken g" "\<forall>j < k. prv q (g_list g ! j) \<noteq> 0"
    using assms(1) by (auto simp: reached_def)
  have "prv q' (g_list g' ! j) \<noteq> 0" if "j < k" for j
    using that k(1,4) assms(3) [of j] assms(5) [of "g_list g ! j"] by simp
  with k assms(2,4) assms(3) [OF k(1)] show ?thesis
    unfolding reached_def by (intro conjI exI [of _ k]) auto
qed

lemma link_place_mono:
  assumes "link_place q g a old" and "lq_lst q = 0 \<Longrightarrow> lq_lst q' = 0"
    and "\<And>k. k < length (g_list g) \<Longrightarrow> k < length (g_list g') \<and> g_list g' ! k = g_list g ! k"
    and "old \<noteq> 0 \<Longrightarrow> prv q' old = prv q old"
  shows "link_place q' g' a old"
proof (cases "old = 0")
  case True
  with assms(1,2) assms(3) [of 0] show ?thesis by (auto simp: link_place_def hd_conv_nth)
next
  case False
  then obtain k where k: "Suc k < length (g_list g)" "old = g_list g ! k" "a = g_list g ! Suc k" "prv q old = 0"
    using assms(1) by (auto simp: link_place_def)
  with False assms(3) [of k] assms(3) [of "Suc k"] assms(4) show ?thesis
    unfolding link_place_def by auto
qed

lemma behind_mono:
  assumes "behind q g x" and "lq_lst q' = lq_lst q"
    and "\<And>k. k < length (g_list g) \<Longrightarrow> k < length (g_list g') \<and> g_list g' ! k = g_list g ! k"
  shows "behind q' g' x"
proof -
  obtain k l where "k \<le> l" "l < length (g_list g)" "x = g_list g ! k" "lq_lst q = g_list g ! l"
    using assms(1) by (auto simp: behind_def)
  with assms(2) assms(3) [of k] assms(3) [of l] show ?thesis
    unfolding behind_def by (intro exI [of _ k] exI [of _ l]) simp
qed

lemma lst_reached: "shared_inv q g \<Longrightarrow> lq_lst q \<noteq> 0 \<Longrightarrow> reached q g (lq_lst q) \<and> behind q g (lq_lst q)"
  by (auto simp: shared_inv_def ends_inv_def reached_def behind_def)

lemma cached_item:
  assumes "shared_inv q g" and "k < length (pc_block (lq_recycle q))" and "pc_block (lq_recycle q) ! k \<noteq> 0"
  shows "g_place g (pc_block (lq_recycle q) ! k) = Cached k"
  using assms by (auto simp: shared_inv_def place_inv_def cache_inv_def)

text \<open>Moving an address that is not in the cache.\<close>

lemma cache_inv_move:
  "cache_inv q p \<Longrightarrow> a \<noteq> 0 \<Longrightarrow> \<forall>k. p a \<noteq> Cached k \<Longrightarrow> cache_inv q (p(a := x))"
  by (auto simp: cache_inv_def)

lemma memory_inv_move: "memory_inv q p \<Longrightarrow> p a \<noteq> Nowhere \<Longrightarrow> memory_inv q (p(a := x))"
  by (auto simp: memory_inv_def)

lemma slot_in_cache:
  assumes "shared_inv q g"
  shows "slot (pc_mask (lq_recycle q)) p < length (pc_block (lq_recycle q))"
  using assms slot_less [of 10 p] by (simp add: shared_inv_def place_inv_def cache_inv_def)

end
