(* ===== verification/Link_Changes.thy ===== *)
theory Link_Changes
  imports Link_Invariant
begin

text \<open>
  What each access does to the list, the cache and the allocator, and that the other threads can rely
  on what they know.
\<close>

section \<open>Steps outside the list\<close>

text \<open>
  A step of thread \<open>i\<close> that moves addresses between the cache, the allocator and itself, and stores to
  items of its own only.
\<close>

lemma outside_step:
  assumes sh: "shared_inv q g"
    and q': "lq_ptr q' = lq_ptr q" "lq_lst q' = lq_lst q" "lq_doingrel q' = lq_doingrel q"
      "length (pc_block (lq_recycle q')) = length (pc_block (lq_recycle q))"
      "pc_mask (lq_recycle q') = pc_mask (lq_recycle q)" "0 < lq_brk q'"
    and keep: "\<And>x. (\<exists>l. g_place g x = InList l) \<or> g_place g x = InTail \<or> (\<exists>j. j \<noteq> i \<and> g_place g x = Private j) \<Longrightarrow>
      p x = g_place g x \<and> lq_mem q' x = lq_mem q x"
    and only: "\<And>x. (\<exists>l. p x = InList l) \<or> p x = InTail \<Longrightarrow> g_place g x = p x"
    and cache: "\<And>k. k < length (pc_block (lq_recycle q')) \<Longrightarrow> pc_block (lq_recycle q') ! k \<noteq> 0 \<Longrightarrow>
      p (pc_block (lq_recycle q') ! k) = Cached k"
    and mem: "\<And>x. p x \<noteq> Nowhere \<Longrightarrow> 0 < x \<and> x < lq_brk q' \<and> lq_mem q' x \<noteq> None"
  shows "shared_inv q' (g\<lparr>g_place := p\<rparr>)"
    and "j \<noteq> i \<Longrightarrow> rely b j q g q' (g\<lparr>g_place := p\<rparr>)"
    and "releasing q g i cur \<Longrightarrow> releasing q' (g\<lparr>g_place := p\<rparr>) i cur"
    and "map (payload_at q') (g_list g) = map (payload_at q) (g_list g)"
proof -
  let ?g = "g\<lparr>g_place := p\<rparr>"
  have pl: "place_inv q g" "ends_inv q g" "\<And>k. k < length (g_list g) \<Longrightarrow> list_inv q g k"
    using sh by (simp_all add: shared_inv_def)
  have l: "p x = g_place g x" "lq_mem q' x = lq_mem q x" if "x \<in> set (g_list g)" for x
    using keep [of x] listed_item(3) [OF sh that] by auto
  have t: "p x = g_place g x" "lq_mem q' x = lq_mem q x" if "x \<in> set (g_tail g)" for x
    using keep [of x] pl(1) that by (auto simp: place_inv_def sorted_inv_def)
  have iff: "(\<exists>l. p x = InList l) \<longleftrightarrow> (\<exists>l. g_place g x = InList l)" "p x = InTail \<longleftrightarrow> g_place g x = InTail" for x
    using keep [of x] only [of x] by metis+
  have r: "reached q' ?g x = reached q g x" for x
    by (auto simp: reached_def q' l)
  have "place_inv q' ?g"
    using pl(1) q'(4,5,6) cache mem unfolding place_inv_def sorted_inv_def cache_inv_def memory_inv_def by (simp add: iff)
  moreover have "ends_inv q' ?g"
    using pl(2) l(2) by (auto simp: ends_inv_def q' r)
  moreover have "list_inv q' ?g k" if "k < length (g_list g)" for k
    using pl(3) [OF that] that by (auto simp: list_inv_def Let_def l)
  moreover have "linker_inv q' ?g" by (rule linker_keep [OF sh]) (simp_all add: q' l)
  ultimately show "shared_inv q' ?g" by (simp add: shared_inv_def)
  have chn: "chain q' (g_tail g) = chain q (g_tail g)" by (rule chain_cong) (simp add: t)
  then show rel: "releasing q g i cur \<Longrightarrow> releasing q' ?g i cur" for i
    by (simp add: releasing_def q')
  show "map (payload_at q') (g_list g) = map (payload_at q) (g_list g)"
    by (simp add: payload_at_def l)
  assume "j \<noteq> i"
  have "link_place q' ?g x old \<and> nxt q' x = nxt q x" if "link_place q g x old" for x old
    using that l(2) [of x] by (auto simp: link_place_def q' l split: if_splits)
  moreover have "nxt q' cur = nxt q cur" if "releasing q g j cur" for cur
    using that l(2) [of cur] by (auto simp: releasing_def)
  moreover have "releasing q' ?g j cur" if "releasing q g j cur" for cur
    using that chn by (simp add: releasing_def q')
  moreover have "behind q' ?g x = behind q g x" for x by (simp add: behind_def q')
  ultimately show "rely b j q g q' ?g"
    using \<open>j \<noteq> i\<close> keep l(2) reached_listed [of q g] by (auto simp: rely_def q' r)
qed

text \<open>In each such step one address moves, to thread \<open>i\<close> or back to the allocator.\<close>

lemma outside_move:
  assumes sh: "shared_inv q g"
    and src: "g_place g a = Nowhere \<or> g_place g a = Private i \<or> (\<exists>k. g_place g a = Cached k)"
    and dst: "z = Nowhere \<or> z = Private i"
    and q': "lq_ptr q' = lq_ptr q" "lq_lst q' = lq_lst q" "lq_doingrel q' = lq_doingrel q"
      "length (pc_block (lq_recycle q')) = length (pc_block (lq_recycle q))"
      "pc_mask (lq_recycle q') = pc_mask (lq_recycle q)" "lq_brk q \<le> lq_brk q'"
    and block: "\<And>m. m < length (pc_block (lq_recycle q)) \<Longrightarrow> pc_block (lq_recycle q') ! m \<noteq> 0 \<Longrightarrow>
      pc_block (lq_recycle q') ! m = pc_block (lq_recycle q) ! m \<and> g_place g a \<noteq> Cached m"
    and mem: "\<And>x. x \<noteq> a \<Longrightarrow> lq_mem q' x = lq_mem q x"
      "z \<noteq> Nowhere \<Longrightarrow> 0 < a \<and> a < lq_brk q' \<and> lq_mem q' a \<noteq> None"
  defines "g' \<equiv> g\<lparr>g_place := (g_place g)(a := z)\<rparr>"
  shows "shared_inv q' g'" and "j \<noteq> i \<Longrightarrow> rely b j q g q' g'"
    and "releasing q g i cur \<Longrightarrow> releasing q' g' i cur"
    and "map (payload_at q') (g_list g) = map (payload_at q) (g_list g)"
proof -
  let ?p = "(g_place g)(a := z)"
  have inv: "memory_inv q (g_place g)" using sh by (simp add: shared_inv_def place_inv_def)
  have keep: "?p x = g_place g x \<and> lq_mem q' x = lq_mem q x"
    if "(\<exists>l. g_place g x = InList l) \<or> g_place g x = InTail \<or> (\<exists>j. j \<noteq> i \<and> g_place g x = Private j)" for x
  proof -
    have "x \<noteq> a" using that src by auto
    then show ?thesis using mem(1) by simp
  qed
  have only: "g_place g x = ?p x" if "(\<exists>l. ?p x = InList l) \<or> ?p x = InTail" for x
    using that dst by (auto split: if_splits)
  have cache: "?p (pc_block (lq_recycle q') ! m) = Cached m"
    if m: "m < length (pc_block (lq_recycle q'))" "pc_block (lq_recycle q') ! m \<noteq> 0" for m
  proof -
    have b: "pc_block (lq_recycle q') ! m = pc_block (lq_recycle q) ! m" "g_place g a \<noteq> Cached m"
      using block [OF _ m(2)] m(1) q'(4) by simp_all
    moreover have "g_place g (pc_block (lq_recycle q) ! m) = Cached m"
      by (rule cached_item [OF sh]) (use m b q'(4) in simp_all)
    ultimately show ?thesis by auto
  qed
  have brk: "0 < lq_brk q'" using inv q'(6) by (simp add: memory_inv_def)
  have live: "0 < x \<and> x < lq_brk q' \<and> lq_mem q' x \<noteq> None" if "?p x \<noteq> Nowhere" for x
  proof (cases "x = a")
    case False
    then have "0 < x \<and> x < lq_brk q \<and> lq_mem q x \<noteq> None" using that inv unfolding memory_inv_def by simp
    with mem(1) [OF False] q'(6) show ?thesis by simp
  qed (use mem(2) that in simp)
  note st = outside_step [OF sh q'(1-5) brk keep only cache live]
  show "shared_inv q' g'" unfolding g'_def by (rule st(1))
  show "j \<noteq> i \<Longrightarrow> rely b j q g q' g'" unfolding g'_def by (rule st(2))
  show "releasing q g i cur \<Longrightarrow> releasing q' g' i cur" unfolding g'_def by (rule st(3))
  show "map (payload_at q') (g_list g) = map (payload_at q) (g_list g)" by (rule st(4))
qed

section \<open>Steps at the list\<close>

text \<open>A store to an item of the list that keeps its payload, its claim and, if they were set, its links.\<close>

definition with_mem :: "nat \<Rightarrow> 'a link_item \<Rightarrow> 'a link_queue \<Rightarrow> 'a link_queue" where
  "with_mem a it q = q\<lparr>lq_mem := (lq_mem q)(a \<mapsto> it)\<rparr>"

lemma with_mem_simps [simp]:
  "lq_mem (with_mem a it q) = (lq_mem q)(a \<mapsto> it)" "lq_brk (with_mem a it q) = lq_brk q"
  "lq_ptr (with_mem a it q) = lq_ptr q" "lq_lst (with_mem a it q) = lq_lst q"
  "lq_doingrel (with_mem a it q) = lq_doingrel q" "lq_recycle (with_mem a it q) = lq_recycle q"
  by (simp_all add: with_mem_def)

text \<open>Places are not touched by stores, and only the linker of an item changes when one is done.\<close>

lemma place_inv_store: "place_inv q g \<Longrightarrow> place_inv (with_mem x it q) g"
  by (simp add: place_inv_def cache_inv_def memory_inv_def)

lemma place_inv_linked:
  assumes "place_inv q g" and "g_place g a = InList l"
  shows "place_inv q (g\<lparr>g_place := (g_place g)(a := InList l')\<rparr>)"
proof -
  have "a \<noteq> 0" using assms unfolding place_inv_def memory_inv_def by (metis not_less_zero place.distinct(1))
  with assms cache_inv_move [of q "g_place g" a] memory_inv_move [of q "g_place g" a] show ?thesis
    by (auto simp: place_inv_def sorted_inv_def)
qed

lemma tail_not_listed: "shared_inv q g \<Longrightarrow> x \<in> set (g_tail g) \<Longrightarrow> x \<notin> set (g_list g)"
  by (auto simp: shared_inv_def place_inv_def sorted_inv_def)

lemma link_place_listed:
  assumes "link_place q g a old"
  shows "a \<in> set (g_list g)" "old \<noteq> 0 \<Longrightarrow> old \<in> set (g_list g)"
  using assms by (auto simp: link_place_def split: if_splits)

text \<open>\<open>LSwap\<close>: the item becomes the head.\<close>

lemma swap_step:
  fixes q :: "'a link_queue"
  assumes sh: "shared_inv q g" and a: "g_place g a = Private i"
    and it: "lq_mem q a = Some \<lparr>it_next = 0, it_prev = 0, it_claimed = False, it_needrel = False, it_payload = t\<rparr>"
  defines "q' \<equiv> q\<lparr>lq_ptr := a\<rparr>"
    and "g' \<equiv> g\<lparr>g_list := g_list g @ [a], g_place := (g_place g)(a := InList (Some i))\<rparr>"
  shows "shared_inv q' g'" "link_place q' g' a (lq_ptr q)" "j \<noteq> i \<Longrightarrow> rely b j q g q' g'"
proof -
  let ?l = "g_list g"
  have inv: "place_inv q g" "ends_inv q g" "\<And>k. k < length ?l \<Longrightarrow> list_inv q g k"
    using sh by (simp_all add: shared_inv_def)
  note pa = placed_item [OF sh, of a, unfolded a, simplified]
  have na: "a \<notin> set ?l" using listed_item(3) [OF sh, of a] a by auto
  have ptr: "lq_ptr q = last (0 # ?l)" using inv(2) by (simp add: ends_inv_def)
  have lst: "lq_lst q = 0" if "?l = []"
    using inv(2) that by (auto simp: ends_inv_def reached_def)
  have grow: "k < length (g_list g') \<and> g_list g' ! k = g_list g ! k" if "k < length (g_list g)" for k
    using that by (simp add: g'_def nth_append)
  have r: "reached q g x \<Longrightarrow> reached q' g' x" for x
    by (rule reached_mono [OF _ _ grow]) (auto simp: q'_def g'_def reached_def)
  have "sorted_inv g'"
    using inv(1) na a by (auto simp: place_inv_def sorted_inv_def g'_def)
  moreover have "cache_inv q (g_place g')" "memory_inv q (g_place g')"
    using inv(1) a pa(2) by (auto simp: place_inv_def g'_def intro!: cache_inv_move memory_inv_move)
  ultimately have "place_inv q' g'"
    by (simp add: place_inv_def cache_inv_def memory_inv_def q'_def)
  moreover have "ends_inv q' g'"
    using inv(2) r it by (auto simp: ends_inv_def q'_def g'_def hd_append)
  moreover have "list_inv q' g' k" if "k < length (g_list g')" for k
  proof (cases "k < length ?l")
    case True
    with inv(3) [OF True] list_invD(3) [OF sh True] show ?thesis
      by (auto simp: list_inv_def Let_def q'_def g'_def nth_append)
  next
    case False
    then have "k = length ?l" using that by (simp add: g'_def)
    with it inv(2) show ?thesis by (simp add: list_inv_def Let_def q'_def g'_def ends_inv_def)
  qed
  moreover have "linker_inv q' g'"
    unfolding linker_inv_def
  proof (intro conjI allI impI)
    have l: "linker_inv q g" using sh by (simp add: shared_inv_def)
    fix k
    assume k: "Suc k < length (g_list g') \<and> prv q' (g_list g' ! k) = 0"
    show "\<exists>j. g_place g' (g_list g' ! Suc k) = InList (Some j)"
    proof (cases "Suc k < length ?l")
      case True
      with k l have "\<exists>j. g_place g (?l ! Suc k) = InList (Some j)"
        unfolding linker_inv_def by (simp add: q'_def g'_def nth_append)
      moreover have "?l ! Suc k \<noteq> a" using True na nth_mem by metis
      ultimately show ?thesis using True by (simp add: g'_def nth_append)
    next
      case False
      with k have "Suc k = length ?l" by (simp add: g'_def)
      then show ?thesis by (simp add: g'_def)
    qed
  next
    have l: "linker_inv q g" using sh by (simp add: shared_inv_def)
    assume h: "g_list g' \<noteq> [] \<and> lq_lst q' = 0"
    show "\<exists>j. g_place g' (hd (g_list g')) = InList (Some j)"
    proof (cases "?l = []")
      case False
      with l h have "\<exists>j. g_place g (hd ?l) = InList (Some j)" unfolding linker_inv_def by (simp add: q'_def)
      with False show ?thesis by (simp add: g'_def)
    qed (simp add: g'_def)
  qed
  ultimately show "shared_inv q' g'" by (simp add: shared_inv_def)
  show "link_place q' g' a (lq_ptr q)"
  proof (cases "?l = []")
    case True
    with ptr lst show ?thesis by (simp add: link_place_def q'_def g'_def)
  next
    case False
    define k where "k = length ?l - 1"
    have k: "Suc k = length ?l" "k < length ?l" using False by (simp_all add: k_def)
    have p: "lq_ptr q = ?l ! k" using ptr False by (simp add: last_conv_nth k_def)
    then have "lq_ptr q \<noteq> 0" using listed_item(2) [OF sh] k(2) by simp
    moreover have "prv q (?l ! k) = 0" using list_invD(3) [OF sh k(2)] k(1) by auto
    ultimately show ?thesis
      using k p unfolding link_place_def q'_def g'_def by (auto simp: nth_append intro!: exI [of _ k])
  qed
  have lp: "link_place q' g' x old" if "link_place q g x old" for x old
    using that by (rule link_place_mono [OF _ _ grow]) (simp_all add: q'_def)
  assume "j \<noteq> i"
  moreover have "behind q g x \<Longrightarrow> behind q' g' x" for x
    by (rule behind_mono [OF _ _ grow]) (simp_all add: q'_def)
  moreover have "releasing q g j cur \<Longrightarrow> releasing q' g' j cur" for cur
    by (auto simp: releasing_def q'_def g'_def hd_append)
  ultimately show "rely b j q g q' g'"
    using a lp r link_place_listed(1) na by (fastforce simp: rely_def q'_def g'_def)
qed

text \<open>A store to an item of the list: what others rely on.\<close>

lemma store_step:
  assumes sh: "shared_inv q g" and x: "x \<in> set (g_list g)"
    and it: "it_payload it = it_payload (item q x)" "it_claimed (item q x) \<Longrightarrow> it_claimed it"
      "prv q x \<noteq> 0 \<Longrightarrow> it_prev it = prv q x"
    and g': "g_list g' = g_list g" "g_tail g' = g_tail g" "g_rel g' = g_rel g" "g_taken g \<le> g_taken g'"
    and place: "\<And>y j. j \<noteq> i \<Longrightarrow> g_place g y = Private j \<or> g_place g y = InList (Some j) \<Longrightarrow>
      g_place g' y = g_place g y"
    and link: "\<And>y j old. j \<noteq> i \<Longrightarrow> g_place g y = InList (Some j) \<Longrightarrow> link_place q g y old \<Longrightarrow>
      (y = x \<longrightarrow> it_next it = nxt q x) \<and> (old = x \<longrightarrow> it_prev it = prv q x)"
    and front: "it_next it = nxt q x \<or> x \<noteq> hd (g_list g) \<or> g_rel g = Some i \<or> g_rel g = None \<or> lq_lst q = 0"
  shows "j \<noteq> i \<Longrightarrow> rely b j q g (with_mem x it q) g'"
    and "map (payload_at (with_mem x it q)) (g_list g) = map (payload_at q) (g_list g)"
    and "reached q g y \<Longrightarrow> reached (with_mem x it q) g' y"
    and "releasing q g i cur \<Longrightarrow> releasing (with_mem x it q) g' i cur"
proof -
  let ?q = "with_mem x it q"
  show pay: "map (payload_at ?q) (g_list g) = map (payload_at q) (g_list g)"
    using it(1) by (simp add: payload_at_def)
  have chn: "chain ?q (g_tail g) = chain q (g_tail g)"
    by (rule chain_cong) (use tail_not_listed [OF sh] x in auto)
  then show rel: "releasing q g j cur \<Longrightarrow> releasing ?q g' j cur" for j cur
    by (simp add: releasing_def g')
  show r: "reached q g y \<Longrightarrow> reached ?q g' y" for y
    by (rule reached_mono) (auto simp: g' it(3) reached_def)
  assume "j \<noteq> i"
  have "nxt ?q cur = nxt q cur" if "releasing q g j cur" for cur
    using front that \<open>j \<noteq> i\<close> by (auto simp: releasing_def)
  moreover have "g_place g' y = InList (Some j) \<and> nxt ?q y = nxt q y \<and> link_place ?q g' y old"
    if y: "g_place g y = InList (Some j)" "link_place q g y old" for y old
  proof -
    have "link_place ?q g' y old"
      using y(2) by (rule link_place_mono) (use link [OF \<open>j \<noteq> i\<close> y] in \<open>simp_all add: g'\<close>)
    with y link [OF \<open>j \<noteq> i\<close> y] place [OF \<open>j \<noteq> i\<close>, of y] show ?thesis by auto
  qed
  moreover have "g_place g' y = Private j \<and> lq_mem ?q y = lq_mem q y" if "g_place g y = Private j" for y
    using that place [OF \<open>j \<noteq> i\<close>, of y] listed_item(3) [OF sh x] by auto
  moreover have "behind q g y \<Longrightarrow> behind ?q g' y" for y
    by (rule behind_mono) (simp_all add: g')
  moreover have "reached q g y \<Longrightarrow> reached ?q g' y \<and> (it_claimed (item q y) \<longrightarrow> it_claimed (item ?q y)) \<and>
      (prv q y \<noteq> 0 \<longrightarrow> prv ?q y = prv q y) \<and> it_payload (item ?q y) = it_payload (item q y)" for y
    using r it by auto
  ultimately show "rely b j q g ?q g'"
    by (intro relyI) (simp_all add: g' rel)
qed

text \<open>\<open>LNext\<close>: the new head points to the old one.\<close>

lemma next_step:
  assumes sh: "shared_inv q g" and a: "g_place g a = InList (Some i)" and lp: "link_place q g a old"
  defines "q' \<equiv> with_mem a ((item q a)\<lparr>it_next := old\<rparr>) q"
  shows "shared_inv q' g" "link_place q' g a old" "j \<noteq> i \<Longrightarrow> rely b j q g q' g"
    "map (payload_at q') (g_list g) = map (payload_at q) (g_list g)"
proof -
  let ?l = "g_list g" and ?it = "(item q a)\<lparr>it_next := old\<rparr>"
  have inv: "place_inv q g" "ends_inv q g" using sh by (simp_all add: shared_inv_def)
  have al: "a \<in> set ?l" using link_place_listed(1) [OF lp] .
  have front: "a = hd ?l \<longleftrightarrow> old = 0" "old = 0 \<longrightarrow> lq_lst q = 0"
  proof -
    show "old = 0 \<longrightarrow> lq_lst q = 0" using lp by (simp add: link_place_def)
    show "a = hd ?l \<longleftrightarrow> old = 0"
    proof (cases "old = 0")
      case False
      then obtain k where k: "Suc k < length ?l" "a = ?l ! Suc k" using lp by (auto simp: link_place_def)
      with False list_front [OF sh k(1)] show ?thesis by simp
    qed (use lp in \<open>simp add: link_place_def\<close>)
  qed
  have mine: "y \<noteq> a" if "j \<noteq> i" "g_place g y = InList (Some j)" for y j using a that by auto
  note st = store_step [OF sh al, of ?it g i]
  show "map (payload_at q') ?l = map (payload_at q) ?l"
    unfolding q'_def by (rule st(2)) (use front in \<open>auto dest: mine\<close>)
  show "rely b j q g q' g" if "j \<noteq> i"
    unfolding q'_def by (rule st(1)) (use front that in \<open>auto dest: mine\<close>)
  have r: "reached q g x \<Longrightarrow> reached q' g x" for x
    unfolding q'_def by (rule st(3)) (use front in \<open>auto dest: mine\<close>)
  show "link_place q' g a old"
    using lp by (rule link_place_mono) (use a in \<open>auto simp: q'_def\<close>)
  have "list_inv q' g k" if k: "k < length ?l" for k
  proof -
    have nk: "old = ?l ! k" if "a = ?l ! Suc k" "Suc k < length ?l"
    proof (cases "old = 0")
      case True
      with front that list_front [OF sh that(2)] show ?thesis by simp
    next
      case False
      then obtain k' where k': "Suc k' < length ?l" "old = ?l ! k'" "a = ?l ! Suc k'"
        using lp by (auto simp: link_place_def)
      have "Suc k = Suc k'"
        by (rule list_inj [OF sh that k'(3,1)])
      with k'(2) show ?thesis by (simp only: nat.inject)
    qed
    have "nxt q' (?l ! Suc k) = ?l ! k" if "Suc k < length ?l" "nxt q (?l ! Suc k) = ?l ! k"
    proof (cases "a = ?l ! Suc k")
      case True
      with nk [OF this that(1)] show ?thesis unfolding True [symmetric] by (simp add: q'_def)
    next
      case False
      then have "nxt q' (?l ! Suc k) = nxt q (?l ! Suc k)" by (simp add: q'_def)
      with that(2) show ?thesis by (simp only:)
    qed
    note nx = this
    have e: "it_claimed (item q' x) = it_claimed (item q x)" "it_needrel (item q' x) = it_needrel (item q x)"
      "prv q' x = prv q x" for x by (simp_all add: q'_def)
    show ?thesis by (rule list_invI; unfold e) (use list_invD [OF sh k] nx in blast)+
  qed
  moreover have "ends_inv q' g"
    using inv(2) r front by (auto simp: ends_inv_def q'_def)
  moreover have "linker_inv q' g" by (rule linker_keep [OF sh]) (auto simp: q'_def split: if_splits)
  ultimately show "shared_inv q' g"
    using place_inv_store [OF inv(1)] by (simp add: shared_inv_def q'_def)
qed

text \<open>\<open>LPrev\<close>: the old head points back to the new one, or, if there was none, the queue gets its last item.\<close>

lemma prev_step:
  assumes sh: "shared_inv q g" and a: "g_place g a = InList (Some i)" and lp: "link_place q g a old"
    and nx: "nxt q a = old" and old: "old \<noteq> 0"
  defines "q' \<equiv> with_mem old ((item q old)\<lparr>it_prev := a\<rparr>) q"
    and "g' \<equiv> g\<lparr>g_place := (g_place g)(a := InList None)\<rparr>"
  shows "shared_inv q' g'" "j \<noteq> i \<Longrightarrow> rely b j q g q' g'"
    "map (payload_at q') (g_list g) = map (payload_at q) (g_list g)"
proof -
  let ?l = "g_list g" and ?it = "(item q old)\<lparr>it_prev := a\<rparr>"
  have inv: "place_inv q g" "ends_inv q g" using sh by (simp_all add: shared_inv_def)
  obtain k where k: "Suc k < length ?l" "old = ?l ! k" "a = ?l ! Suc k" "prv q old = 0"
    using lp old by (auto simp: link_place_def)
  then have ol: "old \<in> set ?l" by simp
  have an: "a \<noteq> 0" using listed_item(2) [OF sh] k by simp
  have mine: "old' \<noteq> old" if "j \<noteq> i" "g_place g y = InList (Some j)" "link_place q g y old'" for y j old'
  proof
    assume "old' = old"
    with that(3) old obtain m where m: "Suc m < length ?l" "old = ?l ! m" "y = ?l ! Suc m"
      by (auto simp: link_place_def)
    with list_index [OF sh, of m k] k have "y = a" by simp
    with that a show False by simp
  qed
  have st0: "it_payload ?it = it_payload (item q old)" "it_claimed (item q old) \<Longrightarrow> it_claimed ?it"
    "prv q old \<noteq> 0 \<Longrightarrow> it_prev ?it = prv q old" "it_next ?it = nxt q old" using k(4) by simp_all
  have pl: "g_place g' y = g_place g y"
    if "j \<noteq> i" "g_place g y = Private j \<or> g_place g y = InList (Some j)" for y j
    using that a by (auto simp: g'_def)
  note st = store_step [OF sh ol st0(1-3), of g' i]
  show "map (payload_at q') ?l = map (payload_at q) ?l"
    unfolding q'_def by (rule st(2)) (use pl in \<open>auto simp: g'_def dest: mine\<close>)
  show "rely b j q g q' g'" if "j \<noteq> i"
    unfolding q'_def by (rule st(1)) (use pl that in \<open>auto simp: g'_def dest: mine\<close>)
  have r: "reached q g x \<Longrightarrow> reached q' g' x" for x
    unfolding q'_def by (rule st(3)) (use pl in \<open>auto simp: g'_def dest: mine\<close>)
  have "list_inv q' g' m" if m: "m < length ?l" for m
  proof (cases "m = k")
    case True
    have e: "?l ! m = old" "?l ! Suc m = a" "Suc m < length ?l" using True k by simp_all
    have "a \<noteq> old" using list_index [OF sh k(1) Suc_lessD [OF k(1)]] k(2,3) by simp
    then show ?thesis
      using list_invD(1,2) [OF sh m, unfolded e(1)] by (simp add: list_inv_def Let_def q'_def g'_def e nx)
  next
    case False
    then have "?l ! m \<noteq> old" using list_index [OF sh m Suc_lessD [OF k(1)]] k(2) by simp
    then have "item q' (?l ! m) = item q (?l ! m)" by (simp add: q'_def)
    moreover have "nxt q' x = nxt q x" for x by (simp add: q'_def)
    moreover have "list_inv q g m" using sh m by (simp add: shared_inv_def)
    ultimately show ?thesis by (intro list_inv_cong [where q' = q']) (simp_all add: g'_def)
  qed
  moreover have "ends_inv q' g'"
    using inv(2) r by (auto simp: ends_inv_def q'_def g'_def)
  moreover have "linker_inv q' g'"
    unfolding linker_inv_def
  proof (intro conjI allI impI)
    have l: "linker_inv q g" using sh by (simp add: shared_inv_def)
    fix m
    assume m: "Suc m < length (g_list g') \<and> prv q' (g_list g' ! m) = 0"
    then have ml: "Suc m < length ?l" by (simp add: g'_def)
    have mo: "?l ! m \<noteq> old" using m an by (auto simp: q'_def g'_def)
    then have "prv q (?l ! m) = 0" using m by (simp add: q'_def g'_def)
    with ml l obtain j where "g_place g (?l ! Suc m) = InList (Some j)" unfolding linker_inv_def by blast
    moreover have "?l ! Suc m \<noteq> a"
    proof
      assume "?l ! Suc m = a"
      then have "Suc m = Suc k" using list_inj [OF sh _ ml k(3,1)] by simp
      with mo k(2) show False by simp
    qed
    ultimately show "\<exists>j. g_place g' (g_list g' ! Suc m) = InList (Some j)" by (simp add: g'_def)
  next
    have l: "linker_inv q g" using sh by (simp add: shared_inv_def)
    assume "g_list g' \<noteq> [] \<and> lq_lst q' = 0"
    with l have "\<exists>j. g_place g (hd ?l) = InList (Some j)" unfolding linker_inv_def by (simp add: q'_def g'_def)
    moreover have "hd ?l \<noteq> a" using list_front [OF sh k(1)] k(3) by simp
    ultimately show "\<exists>j. g_place g' (hd (g_list g')) = InList (Some j)" by (simp add: g'_def)
  qed
  ultimately show "shared_inv q' g'"
    using place_inv_store [OF place_inv_linked [OF inv(1) a]] by (simp add: shared_inv_def q'_def g'_def)
qed

lemma first_step:
  assumes sh: "shared_inv q g" and a: "g_place g a = InList (Some i)" and lp: "link_place q g a 0"
  defines "q' \<equiv> q\<lparr>lq_lst := a\<rparr>" and "g' \<equiv> g\<lparr>g_place := (g_place g)(a := InList None)\<rparr>"
  shows "shared_inv q' g'" "j \<noteq> i \<Longrightarrow> rely b j q g q' g'"
proof -
  let ?l = "g_list g"
  have inv: "place_inv q g" "ends_inv q g" "\<And>k. k < length ?l \<Longrightarrow> list_inv q g k"
    using sh by (simp_all add: shared_inv_def)
  have f: "?l \<noteq> []" "a = ?l ! 0" "lq_lst q = 0" using lp by (auto simp: link_place_def hd_conv_nth)
  have an: "a \<noteq> 0" using listed_item(2) [OF sh] f by simp
  have "place_inv q' g'"
    using place_inv_linked [OF inv(1) a] by (simp add: place_inv_def cache_inv_def memory_inv_def q'_def g'_def)
  moreover have "reached q' g' a" using f an by (auto simp: reached_def q'_def g'_def)
  then have "ends_inv q' g'" using inv(2) by (simp add: ends_inv_def q'_def g'_def)
  moreover have "list_inv q' g' k" if "k < length ?l" for k
    by (rule list_inv_cong [OF inv(3) [OF that]]) (simp_all add: q'_def g'_def)
  moreover have "linker_inv q' g'"
    unfolding linker_inv_def
  proof (intro conjI allI impI)
    have l: "linker_inv q g" using sh by (simp add: shared_inv_def)
    fix m
    assume m: "Suc m < length (g_list g') \<and> prv q' (g_list g' ! m) = 0"
    then have "Suc m < length ?l" "prv q (?l ! m) = 0" by (simp_all add: q'_def g'_def)
    moreover from this(1) have "?l ! Suc m \<noteq> a" using list_front [OF sh, of m] f(1,2) by (simp add: hd_conv_nth)
    ultimately show "\<exists>j. g_place g' (g_list g' ! Suc m) = InList (Some j)"
      using l unfolding linker_inv_def by (simp add: g'_def)
  qed (use an in \<open>simp add: q'_def\<close>)
  ultimately show "shared_inv q' g'" by (simp add: shared_inv_def g'_def)
  assume "j \<noteq> i"
  have "g_place g' x = InList (Some j) \<and> link_place q' g' x old"
    if x: "g_place g x = InList (Some j)" "link_place q g x old" for x old
  proof -
    have "x \<noteq> a" using x(1) a \<open>j \<noteq> i\<close> by auto
    moreover from this x(2) f(2) hd_conv_nth [OF f(1)] have "old \<noteq> 0"
      unfolding link_place_def by (cases "old = 0") simp_all
    ultimately show ?thesis using x by (auto simp: link_place_def q'_def g'_def)
  qed
  moreover have "\<not> reached q g x" "\<not> releasing q g j x" for x
    using f(3) by (simp_all add: reached_def releasing_def)
  ultimately show "rely b j q g q' g'"
    using a \<open>j \<noteq> i\<close> by (intro relyI) (auto simp: q'_def g'_def)
qed

text \<open>\<open>GClaim\<close>: the first item that was not claimed is claimed.\<close>

lemma claim_step:
  assumes sh: "shared_inv q g" and re: "reached q g cur" and un: "\<not> it_claimed (item q cur)"
  defines "q' \<equiv> with_mem cur ((item q cur)\<lparr>it_claimed := True\<rparr>) q"
    and "g' \<equiv> g\<lparr>g_taken := Suc (g_taken g)\<rparr>"
  shows "shared_inv q' g'" "j \<noteq> i \<Longrightarrow> rely b j q g q' g'" "taken_item q' g' cur"
    "map (payload_at q') (g_list g) = map (payload_at q) (g_list g)"
    "take (g_taken g') (g_list g) = take (g_taken g) (g_list g) @ [cur]"
proof -
  let ?l = "g_list g" and ?it = "(item q cur)\<lparr>it_claimed := True\<rparr>"
  have inv: "place_inv q g" "ends_inv q g" using sh by (simp_all add: shared_inv_def)
  note cl = reached_listed [OF re]
  obtain k where k: "k < length ?l" "cur = ?l ! k" "k \<le> g_taken g" using re by (auto simp: reached_def)
  with list_invD(1) [OF sh k(1)] un have kt: "k = g_taken g" by simp
  note st = store_step [OF sh cl, of ?it g' i]
  show "map (payload_at q') ?l = map (payload_at q) ?l"
    unfolding q'_def by (rule st(2)) (auto simp: g'_def)
  show "rely b j q g q' g'" if "j \<noteq> i"
    unfolding q'_def by (rule st(1)) (use that in \<open>auto simp: g'_def\<close>)
  have r: "reached q g x \<Longrightarrow> reached q' g' x" for x
    unfolding q'_def by (rule st(3)) (auto simp: g'_def)
  with re show "taken_item q' g' cur" by (simp add: taken_item_def q'_def)
  show "take (g_taken g') ?l = take (g_taken g) ?l @ [cur]"
    using k kt by (simp add: g'_def take_Suc_conv_app_nth)
  have "list_inv q' g' m" if m: "m < length ?l" for m
    using m k kt list_index [OF sh m k(1)] list_invD [OF sh m]
    by (auto simp: list_inv_def Let_def q'_def g'_def)
  moreover have "ends_inv q' g'"
    using inv(2) r k kt by (auto simp: ends_inv_def q'_def g'_def)
  moreover have "place_inv q' g'"
    using place_inv_store [OF inv(1)] by (simp add: q'_def g'_def place_inv_def sorted_inv_def)
  moreover have "linker_inv q' g'" by (rule linker_keep [OF sh]) (auto simp: q'_def g'_def split: if_splits)
  ultimately show "shared_inv q' g'" by (simp add: shared_inv_def g'_def)
qed

text \<open>\<open>GMark\<close>: the item was read.\<close>

lemma mark_step:
  assumes sh: "shared_inv q g" and tk: "taken_item q g cur"
  defines "q' \<equiv> with_mem cur ((item q cur)\<lparr>it_needrel := True\<rparr>) q"
  shows "shared_inv q' g" "j \<noteq> i \<Longrightarrow> rely b j q g q' g"
    "map (payload_at q') (g_list g) = map (payload_at q) (g_list g)"
proof -
  let ?l = "g_list g" and ?it = "(item q cur)\<lparr>it_needrel := True\<rparr>"
  have inv: "place_inv q g" "ends_inv q g" using sh by (simp_all add: shared_inv_def)
  have cl: "cur \<in> set ?l" using tk reached_listed by (auto simp: taken_item_def)
  note st = store_step [OF sh cl, of ?it g i]
  show "map (payload_at q') ?l = map (payload_at q) ?l"
    unfolding q'_def by (rule st(2)) auto
  show "rely b j q g q' g" if "j \<noteq> i"
    unfolding q'_def by (rule st(1)) (use that in auto)
  have r: "reached q g x \<Longrightarrow> reached q' g x" for x
    unfolding q'_def by (rule st(3)) auto
  have "list_inv q' g m" if m: "m < length ?l" for m
    using m tk list_invD [OF sh m] by (auto simp: list_inv_def Let_def q'_def taken_item_def)
  moreover have "ends_inv q' g"
    using inv(2) r by (auto simp: ends_inv_def q'_def)
  moreover have "linker_inv q' g" by (rule linker_keep [OF sh]) (auto simp: q'_def split: if_splits)
  ultimately show "shared_inv q' g"
    using place_inv_store [OF inv(1)] by (simp add: shared_inv_def q'_def)
qed

text \<open>\<open>GLock\<close>: the items before \<open>cur\<close> leave the list, and thread \<open>i\<close> releases them.\<close>

lemma lock_step:
  fixes q :: "'a link_queue"
  assumes sh: "shared_inv q g" and re: "reached q g cur" and be: "behind q g cur" and un: "\<not> lq_doingrel q"
  obtains g' where "shared_inv (q\<lparr>lq_doingrel := True\<rparr>) g'"
    "releasing (q\<lparr>lq_doingrel := True\<rparr>) g' i cur" "nxt q cur = hd (g_tail g' @ [0])"
    "\<And>j. j \<noteq> i \<Longrightarrow> rely False j q g (q\<lparr>lq_doingrel := True\<rparr>) g'"
    "\<And>x j. g_place g' x = InList (Some j) \<Longrightarrow> g_place g x = InList (Some j)" "g_rel g' = Some i"
    "g_gone g' @ map (payload_at q) (g_list g') = g_gone g @ map (payload_at q) (g_list g)"
    "g_gone g' @ map (payload_at q) (take (g_taken g') (g_list g')) =
      g_gone g @ map (payload_at q) (take (g_taken g) (g_list g))"
proof -
  let ?l = "g_list g" and ?q = "q\<lparr>lq_doingrel := True\<rparr>"
  have inv: "sorted_inv g" "cache_inv q (g_place g)" "memory_inv q (g_place g)" "ends_inv q g"
    "\<And>k. k < length ?l \<Longrightarrow> list_inv q g k"
    using sh by (simp_all add: shared_inv_def place_inv_def)
  obtain k where k: "k < length ?l" "cur = ?l ! k" "k \<le> g_taken g" "lq_lst q \<noteq> 0"
    "\<And>j. j < k \<Longrightarrow> prv q (?l ! j) \<noteq> 0"
    using re by (auto simp: reached_def)
  obtain m where m: "k \<le> m" "m < length ?l" "lq_lst q = ?l ! m"
  proof -
    obtain k' m where b: "k' \<le> m" "m < length ?l" "cur = ?l ! k'" "lq_lst q = ?l ! m"
      using be by (auto simp: behind_def)
    have "k' = k" by (rule list_inj [OF sh b(3) _ k(2,1)]) (use b in linarith)
    with b that show ?thesis by blast
  qed
  have rel: "g_rel g = None" "g_tail g = []" "nxt q (hd ?l) = 0"
    using inv(4) un k(1) by (auto simp: ends_inv_def)
  define g' where "g' = g\<lparr>g_list := drop k ?l, g_taken := g_taken g - k, g_tail := rev (take k ?l),
    g_gone := g_gone g @ map (payload_at q) (take k ?l),
    g_place := (\<lambda>x. if x \<in> set (take k ?l) then InTail else g_place g x), g_rel := Some i\<rparr>"
  have ds: "distinct ?l" using inv(1) by (simp add: sorted_inv_def)
  have apart: "x \<notin> set (take k ?l)" if "x \<in> set (drop k ?l)" for x
    using ds that set_take_disj_set_drop_if_distinct [of ?l k k] by auto
  have split: "x \<in> set ?l \<longleftrightarrow> x \<in> set (take k ?l) \<or> x \<in> set (drop k ?l)" for x
    by (metis append_take_drop_id set_append Un_iff)
  have back_nxt: "nxt q (?l ! n) = hd (rev (take n ?l) @ [0])" if "n \<le> k" for n
  proof (cases n)
    case 0
    moreover have "hd ?l = ?l ! 0" by (rule hd_conv_nth) (use k(1) in auto)
    ultimately show ?thesis using rel(3) by simp
  next
    case (Suc n')
    then have "n' < k" "n' < length ?l" using that k(1) by simp_all
    with Suc list_invD(3) [OF sh this(2) k(5) [OF this(1)]] show ?thesis
      by (simp add: take_Suc_conv_app_nth)
  qed
  have chn: "n \<le> k \<Longrightarrow> chain q (rev (take n ?l))" for n
  proof (induction n)
    case (Suc n)
    then have "n < length ?l" using k(1) by simp
    with Suc back_nxt [of n] show ?case by (simp add: take_Suc_conv_app_nth)
  qed simp
  have e [simp]: "g_list g' = drop k ?l" "g_taken g' = g_taken g - k" "g_tail g' = rev (take k ?l)"
    "g_rel g' = Some i" "g_place g' x = (if x \<in> set (take k ?l) then InTail else g_place g x)"
    "g_gone g' = g_gone g @ map (payload_at q) (take k ?l)" for x by (simp_all add: g'_def)
  have listed: "x \<in> set ?l \<longleftrightarrow> (\<exists>l. g_place g x = InList l)" for x using inv(1) by (simp add: sorted_inv_def)
  have "sorted_inv g'"
    unfolding sorted_inv_def
  proof (intro conjI allI)
    fix x
    show "x \<in> set (g_list g') \<longleftrightarrow> (\<exists>l. g_place g' x = InList l)" using apart split listed by auto
    show "x \<in> set (g_tail g') \<longleftrightarrow> g_place g' x = InTail" using inv(1) rel(2) by (simp add: sorted_inv_def)
  qed (use ds in simp_all)
  moreover have took: "x \<in> set (take k ?l) \<Longrightarrow> \<exists>l. g_place g x = InList l" for x
    using in_set_takeD listed by fast
  have "g_place g x = Cached c \<Longrightarrow> g_place g' x = Cached c" for x c using took [of x] by auto
  then have "cache_inv ?q (g_place g')" using inv(2) unfolding cache_inv_def by simp
  moreover have "g_place g' x \<noteq> Nowhere \<Longrightarrow> g_place g x \<noteq> Nowhere" for x using took [of x] by (auto split: if_splits)
  then have "memory_inv ?q (g_place g')" using inv(3) unfolding memory_inv_def by simp
  ultimately have "place_inv ?q g'" by (simp add: place_inv_def)
  moreover have shift: "reached ?q g' x" if r: "reached q g x" "x = ?l ! n" "k \<le> n" "n < length ?l" for x n
  proof -
    obtain n' where n': "n' < length ?l" "x = ?l ! n'" "n' \<le> g_taken g" "\<forall>j < n'. prv q (?l ! j) \<noteq> 0"
      using r(1) by (auto simp: reached_def)
    have "n' = n" by (rule list_inj [OF sh n'(2,1) r(2,4)])
    with n' r(3) k(4) show ?thesis
      unfolding reached_def by (intro conjI exI [of _ "n - k"]) auto
  qed
  moreover have "ends_inv ?q g'"
    using inv(4) k(1) shift [OF _ m(3,1,2)] by (auto simp: ends_inv_def)
  moreover have "list_inv ?q g' n" if "n < length (g_list g')" for n
  proof -
    have "k + n < length ?l" using that by simp
    from list_invD [OF sh this] k(3) less_imp_le [OF k(1)] show ?thesis
      by (intro list_invI) (auto simp: less_diff_conv add.commute)
  qed
  moreover have "linker_inv ?q g'"
    unfolding linker_inv_def
  proof (intro conjI allI impI)
    have l: "linker_inv q g" using sh by (simp add: shared_inv_def)
    fix n
    assume n: "Suc n < length (g_list g') \<and> prv ?q (g_list g' ! n) = 0"
    then have "Suc (k + n) < length ?l" "prv q (?l ! (k + n)) = 0" using k(1) by (simp_all add: less_diff_conv ac_simps)
    with l obtain j where j: "g_place g (?l ! Suc (k + n)) = InList (Some j)" unfolding linker_inv_def by blast
    have e: "g_list g' ! Suc n = ?l ! Suc (k + n)" using k(1) by simp
    have "?l ! Suc (k + n) \<in> set (g_list g')" unfolding e [symmetric] by (rule nth_mem) (use n in blast)
    then have "?l ! Suc (k + n) \<in> set (drop k ?l)" by simp
    then show "\<exists>j. g_place g' (g_list g' ! Suc n) = InList (Some j)" using apart j unfolding e by auto
  qed (use k(4) in simp)
  ultimately have "shared_inv ?q g'" by (simp add: shared_inv_def)
  moreover have "releasing ?q g' i cur" using k(1,2,4) chn [of k] by (simp add: releasing_def hd_drop_conv_nth)
  moreover have "nxt q cur = hd (g_tail g' @ [0])" using back_nxt [of k] k(2) by simp
  moreover have "rely False j q g ?q g'" if "j \<noteq> i" for j
  proof (rule relyI)
    fix x assume p: "g_place g x = Private j"
    then have "x \<notin> set ?l" using listed by auto
    with split p show "g_place g' x = Private j \<and> lq_mem ?q x = lq_mem q x" by simp
  next
    fix x old assume p: "g_place g x = InList (Some j)" "link_place q g x old"
    then obtain n where n: "old \<noteq> 0" "Suc n < length ?l" "old = ?l ! n" "x = ?l ! Suc n" "prv q old = 0"
      using k(4) by (auto simp: link_place_def split: if_splits)
    then have "k \<le> n" using k(5) not_less by blast
    with n have "link_place ?q g' x old"
      unfolding link_place_def by (simp add: exI [of _ "n - k"])
    moreover have "x \<notin> set (take k ?l)"
      using apart [of x] \<open>link_place ?q g' x old\<close> link_place_listed(1) [of ?q g' x old] by simp
    ultimately show "g_place g' x = InList (Some j) \<and> nxt ?q x = nxt q x \<and> link_place ?q g' x old"
      using p(1) by simp
  qed (use rel(1) in \<open>auto simp: releasing_def\<close>)
  moreover have "map (payload_at q) (take k ?l) @ map (payload_at q) (drop k ?l) = map (payload_at q) ?l"
    by (metis append_take_drop_id map_append)
  moreover have "map (payload_at q) (take k ?l) @ map (payload_at q) (take (g_taken g - k) (drop k ?l)) =
      map (payload_at q) (take (g_taken g) ?l)"
    using k(3) by (metis le_add_diff_inverse map_append take_add)
  ultimately show ?thesis by (intro that [of g']) (simp_all split: if_splits)
qed

text \<open>\<open>GPushSwap\<close>: the first item of those to be released goes to the cache, in place of another one.\<close>

lemma push_step:
  fixes q :: "'a link_queue"
  assumes sh: "shared_inv q g" and rl: "releasing q g i cur" and ne: "g_tail g \<noteq> []"
    and k: "k < length (pc_block (lq_recycle q))"
  defines "c \<equiv> lq_recycle q"
  defines "old \<equiv> pc_block c ! k" and "n \<equiv> hd (g_tail g)"
  defines "q' \<equiv> q\<lparr>lq_recycle := c\<lparr>pc_block := (pc_block c)[k := n]\<rparr>\<rparr>"
    and "g' \<equiv> g\<lparr>g_tail := tl (g_tail g),
      g_place := (if old \<noteq> 0 then (g_place g)(n := Cached k, old := Private i) else (g_place g)(n := Cached k))\<rparr>"
  shows "shared_inv q' g'" "releasing q' g' i cur" "old \<noteq> 0 \<Longrightarrow> g_place g' old = Private i"
    "j \<noteq> i \<Longrightarrow> rely b j q g q' g'"
proof -
  have inv: "sorted_inv g" "cache_inv q (g_place g)" "memory_inv q (g_place g)" "ends_inv q g"
    "\<And>k. k < length (g_list g) \<Longrightarrow> list_inv q g k"
    using sh by (simp_all add: shared_inv_def place_inv_def)
  obtain t where t: "g_tail g = n # t" using ne by (cases "g_tail g") (simp_all add: n_def)
  then have n: "g_place g n = InTail" "n \<notin> set t" "distinct t" using inv(1) by (auto simp: sorted_inv_def)
  have old: "g_place g old = Cached k" if "old \<noteq> 0"
    using cached_item [OF sh k] that by (simp add: old_def c_def)
  have pl: "g_place g' x = (if x = n then Cached k else if x = old \<and> old \<noteq> 0 then Private i else g_place g x)" for x
    using n(1) old by (auto simp: g'_def)
  have e [simp]: "g_list g' = g_list g" "g_taken g' = g_taken g" "g_tail g' = t" "g_rel g' = g_rel g"
    "lq_mem q' = lq_mem q" "lq_lst q' = lq_lst q" "lq_ptr q' = lq_ptr q" "lq_brk q' = lq_brk q"
    "lq_doingrel q' = lq_doingrel q" "lq_recycle q' = c\<lparr>pc_block := (pc_block c)[k := n]\<rparr>"
    by (simp_all add: g'_def q'_def t)
  have "sorted_inv g'"
    using inv(1) n t old unfolding sorted_inv_def by (simp add: pl) (metis place.distinct(3,9,11,13) place.simps)
  moreover have "cache_inv q' (g_place g')"
    unfolding cache_inv_def
  proof (intro conjI allI impI)
    fix m
    assume m: "m < length (pc_block (lq_recycle q'))" "pc_block (lq_recycle q') ! m \<noteq> 0"
    show "g_place g' (pc_block (lq_recycle q') ! m) = Cached m"
    proof (cases "m = k")
      case True
      with k show ?thesis by (simp add: pl c_def)
    next
      case False
      with m cached_item [OF sh, of m] have "g_place g (pc_block c ! m) = Cached m" by (simp add: c_def)
      then have "pc_block c ! m \<noteq> n" "old \<noteq> 0 \<Longrightarrow> pc_block c ! m \<noteq> old"
        using False n(1) old by auto
      with False \<open>g_place g (pc_block c ! m) = Cached m\<close> show ?thesis by (auto simp: pl)
    qed
  qed (use inv(2) in \<open>simp_all add: cache_inv_def c_def\<close>)
  moreover have "memory_inv q' (g_place g')"
    using inv(3) n(1) old unfolding memory_inv_def by (simp add: pl)
  ultimately have "place_inv q' g'" by (simp add: place_inv_def)
  moreover have r: "reached q' g' x = reached q g x" "behind q' g' x = behind q g x"
    "link_place q' g' x y = link_place q g x y" for x y
    by (simp_all add: reached_def behind_def link_place_def)
  then have "ends_inv q' g'" using inv(4) rl unfolding ends_inv_def by (auto simp: releasing_def)
  moreover have "list_inv q' g' m" if "m < length (g_list g)" for m
    by (rule list_inv_cong [OF inv(5) [OF that]]) simp_all
  moreover have "linker_inv q' g'"
  proof (rule linker_keep [OF sh])
    fix x j assume "g_place g x = InList (Some j)"
    then show "g_place g' x = InList (Some j)" using n(1) old by (cases "old = 0") (auto simp: pl)
  qed simp_all
  ultimately show "shared_inv q' g'" by (simp add: shared_inv_def)
  have "chain q' t" using rl t by (simp add: releasing_def q'_def)
  then show "releasing q' g' i cur" using rl by (simp add: releasing_def)
  show "old \<noteq> 0 \<Longrightarrow> g_place g' old = Private i" using n(1) old by (auto simp: pl)
  assume "j \<noteq> i"
  have "g_place g' x = g_place g x" if "g_place g x = Private j \<or> g_place g x = InList (Some j)" for x
    using that n(1) old by (cases "old = 0") (auto simp: pl)
  then show "rely b j q g q' g'"
    using rl \<open>j \<noteq> i\<close> by (intro relyI) (auto simp: r releasing_def c_def)
qed

text \<open>\<open>GCut\<close>: the release is over for the list.\<close>

lemma cut_step:
  assumes sh: "shared_inv q g" and rl: "releasing q g i cur"
  defines "q' \<equiv> with_mem cur ((item q cur)\<lparr>it_next := 0\<rparr>) q"
  shows "shared_inv q' g" "releasing q' g i cur" "j \<noteq> i \<Longrightarrow> rely b j q g q' g"
    "map (payload_at q') (g_list g) = map (payload_at q) (g_list g)"
proof -
  let ?l = "g_list g" and ?it = "(item q cur)\<lparr>it_next := 0\<rparr>"
  have inv: "place_inv q g" "ends_inv q g" using sh by (simp_all add: shared_inv_def)
  have c: "?l \<noteq> []" "cur = hd ?l" "g_rel g = Some i" "lq_lst q \<noteq> 0" using rl by (simp_all add: releasing_def)
  have cl: "cur \<in> set ?l" using c by simp
  have mine: "y \<noteq> cur" if "link_place q g y old" for y old
    using that c list_front [OF sh] by (auto simp: link_place_def split: if_splits)
  note st = store_step [OF sh cl, of ?it g i]
  show "map (payload_at q') ?l = map (payload_at q) ?l"
    unfolding q'_def by (rule st(2)) (use c mine in auto)
  show "rely b j q g q' g" if "j \<noteq> i"
    unfolding q'_def by (rule st(1)) (use c that mine in auto)
  have r: "reached q g x \<Longrightarrow> reached q' g x" for x
    unfolding q'_def by (rule st(3)) (use c mine in auto)
  show "releasing q' g i cur"
    unfolding q'_def by (rule st(4)) (use c mine rl in auto)
  have "list_inv q' g m" if m: "m < length ?l" for m
  proof (rule list_invI)
    note D = list_invD [OF sh m]
    have e: "it_claimed (item q' x) = it_claimed (item q x)" "it_needrel (item q' x) = it_needrel (item q x)"
      "prv q' x = prv q x" for x by (simp_all add: q'_def)
    show "it_claimed (item q' (?l ! m)) \<longleftrightarrow> m < g_taken g" using D(1) unfolding e .
    show "it_needrel (item q' (?l ! m)) \<Longrightarrow> it_claimed (item q' (?l ! m))" using D(2) unfolding e .
    assume "prv q' (?l ! m) \<noteq> 0"
    with D(3) have d: "Suc m < length ?l \<and> prv q (?l ! m) = ?l ! Suc m \<and> nxt q (?l ! Suc m) = ?l ! m"
      unfolding e by blast
    then have "?l ! Suc m \<noteq> cur" using c(2) list_front [OF sh, of m] by blast
    then have "nxt q' (?l ! Suc m) = nxt q (?l ! Suc m)" by (simp add: q'_def)
    with d show "Suc m < length ?l \<and> prv q' (?l ! m) = ?l ! Suc m \<and> nxt q' (?l ! Suc m) = ?l ! m"
      unfolding e by (simp only:)
  qed
  moreover have "ends_inv q' g"
    using inv(2) r c by (auto simp: ends_inv_def q'_def)
  moreover have "linker_inv q' g" by (rule linker_keep [OF sh]) (auto simp: q'_def split: if_splits)
  ultimately show "shared_inv q' g"
    using place_inv_store [OF inv(1)] by (simp add: shared_inv_def q'_def)
qed

lemma unlock_step:
  assumes sh: "shared_inv q g" and rl: "releasing q g i cur" and t: "g_tail g = []" "nxt q cur = 0"
  defines "q' \<equiv> q\<lparr>lq_doingrel := False\<rparr>" and "g' \<equiv> g\<lparr>g_rel := None\<rparr>"
  shows "shared_inv q' g'" "j \<noteq> i \<Longrightarrow> rely b j q g q' g'" "reached q' g' cur"
proof -
  have inv: "place_inv q g" "ends_inv q g" "\<And>k. k < length (g_list g) \<Longrightarrow> list_inv q g k"
    using sh by (simp_all add: shared_inv_def)
  have c: "g_list g \<noteq> []" "cur = hd (g_list g)" "g_rel g = Some i" "lq_lst q \<noteq> 0"
    using rl by (simp_all add: releasing_def)
  have e [simp]: "g_list g' = g_list g" "g_taken g' = g_taken g" "g_tail g' = g_tail g" "g_place g' = g_place g"
    "lq_mem q' = lq_mem q" "lq_lst q' = lq_lst q" "lq_recycle q' = lq_recycle q"
    by (simp_all add: g'_def q'_def)
  have r: "reached q' g' x = reached q g x" "behind q' g' x = behind q g x"
    "link_place q' g' x y = link_place q g x y" for x y
    by (simp_all add: reached_def behind_def link_place_def)
  have "place_inv q' g'"
    using inv(1) by (simp add: place_inv_def sorted_inv_def cache_inv_def memory_inv_def q'_def)
  moreover have "ends_inv q' g'"
    using inv(2) t c by (simp add: ends_inv_def r) (simp add: q'_def g'_def)
  moreover have "list_inv q' g' k" if "k < length (g_list g)" for k
    by (rule list_inv_cong [OF inv(3) [OF that]]) simp_all
  moreover have "linker_inv q' g'" by (rule linker_keep [OF sh]) simp_all
  ultimately show "shared_inv q' g'" by (simp add: shared_inv_def)
  show "reached q' g' cur"
    using c hd_conv_nth [OF c(1)] unfolding r reached_def by (intro conjI exI [of _ 0]) simp_all
  show "rely b j q g q' g'" if "j \<noteq> i"
    using that c by (intro relyI) (auto simp: r releasing_def)
qed

text \<open>\<open>GMove\<close>: the last item moves forward.\<close>

lemma move_step:
  assumes sh: "shared_inv q g" and tk: "taken_item q g cur" and n: "n \<noteq> 0 \<longrightarrow> prv q cur = n"
  defines "q' \<equiv> move_lst cur n q"
  shows "shared_inv q' g" "rely b j q g q' g" "pc_inv q g i pc \<Longrightarrow> pc_inv q' g i pc" "payload_at q' = payload_at q"
proof -
  have inv: "place_inv q g" "ends_inv q g" "\<And>k. k < length (g_list g) \<Longrightarrow> list_inv q g k"
    using sh by (simp_all add: shared_inv_def)
  have same: "q' = q" if "n = 0 \<or> lq_lst q \<noteq> cur" using that by (auto simp: q'_def move_lst_def)
  have e [simp]: "lq_mem q' = lq_mem q" "lq_recycle q' = lq_recycle q" "lq_ptr q' = lq_ptr q" "lq_brk q' = lq_brk q"
    "lq_doingrel q' = lq_doingrel q"
    by (simp_all add: q'_def move_lst_def)
  have l: "lq_lst q \<noteq> 0" using tk by (simp add: taken_item_def reached_def)
  then have l': "lq_lst q' \<noteq> 0" by (simp add: q'_def move_lst_def)
  have r: "reached q' g x = reached q g x" "taken_item q' g x = taken_item q g x" for x
    using l l' by (simp_all add: reached_def taken_item_def)
  have lp: "link_place q' g x y = link_place q g x y" for x y using l l' by (simp add: link_place_def)
  have chn: "chain q' xs = chain q xs" for xs by (rule chain_cong) simp
  have rl: "releasing q' g j x = releasing q g j x" for j x using l l' by (simp add: releasing_def chn)
  have lst: "reached q' g (lq_lst q')"
    using reached_prev [OF sh tk] n inv(2) l unfolding r by (auto simp: q'_def move_lst_def ends_inv_def)
  have "behind q' g x" if be: "behind q g x" for x
  proof (cases "n = 0 \<or> lq_lst q \<noteq> cur")
    case False
    obtain k m where k: "k \<le> m" "m < length (g_list g)" "x = g_list g ! k" "cur = g_list g ! m"
      using be False by (auto simp: behind_def)
    then have "Suc m < length (g_list g)" "n = g_list g ! Suc m"
      using list_invD(3) [OF sh k(2)] n False by simp_all
    with k False show ?thesis
      unfolding behind_def by (intro exI [of _ k] exI [of _ "Suc m"]) (simp add: q'_def move_lst_def)
  qed (use be same in simp)
  note bh = this
  show "payload_at q' = payload_at q" by (simp add: payload_at_def fun_eq_iff)
  have "place_inv q' g"
    using inv(1) by (simp add: place_inv_def cache_inv_def memory_inv_def)
  moreover have "ends_inv q' g" using inv(2) lst by (simp add: ends_inv_def)
  moreover have "list_inv q' g k" if "k < length (g_list g)" for k
    by (rule list_inv_cong [OF inv(3) [OF that]]) simp_all
  moreover have "linker_inv q' g" by (rule linker_keep [OF sh]) (simp_all add: l l')
  ultimately show "shared_inv q' g" by (simp add: shared_inv_def)
  show "rely b j q g q' g" by (intro relyI) (auto simp: r lp rl bh)
  show "pc_inv q g i pc \<Longrightarrow> pc_inv q' g i pc" by (cases pc) (auto simp: r lp rl bh)
qed

end
