(* ===== verification/Link_Steps.thy ===== *)
theory Link_Steps
  imports Link_Changes
begin

text \<open>Every access of a thread of the linked queue keeps the invariant.\<close>

section \<open>Every step keeps the invariant\<close>

lemma after_step:
  assumes inv: "link_inv s g" and i: "i < length (ls_pcs s)" and pc0: "ls_pcs s ! i = pc0"
    and sh: "shared_inv q' g'" and pc: "pc_inv q' g' i pc'"
    and rely: "\<And>j. j < length (ls_pcs s) \<Longrightarrow> j \<noteq> i \<Longrightarrow> rely (holds (ls_pcs s ! j)) j (ls_q s) g q' g'"
    and busy: "busy_step i g g' pc'"
    and sent: "g_gone g' @ map (payload_at q') (g_list g') =
      g_gone g @ map (payload_at (ls_q s)) (g_list g) @ sends pc0"
    and clm: "g_gone g' @ map (payload_at q') (take (g_taken g') (g_list g')) =
      g_gone g @ map (payload_at (ls_q s)) (take (g_taken g) (g_list g)) @ claims (ls_q s) pc0"
    and out: "outgoing pc0 = sends pc0 @ outgoing pc'"
    and inc: "claims (ls_q s) pc0 @ incoming (ls_q s) pc0 = incoming q' pc'"
  shows "link_inv (after s i q' pc') g'"
proof -
  have h: "ls_sent s = g_gone g @ map (payload_at (ls_q s)) (g_list g)"
    "ls_claimed s = g_gone g @ map (payload_at (ls_q s)) (take (g_taken g) (g_list g))"
    using inv by (simp_all add: link_inv_def history_inv_def)
  have "link_inv (s\<lparr>ls_q := q', ls_pcs := (ls_pcs s)[i := pc'], ls_put := ls_put s,
    ls_sent := ls_sent s @ sends pc0, ls_claimed := ls_claimed s @ claims (ls_q s) pc0, ls_got := ls_got s\<rparr>) g'"
    by (rule link_inv_step [OF inv i sh pc rely busy])
      (simp_all add: h sent clm pc0 out inc [symmetric] ac_simps)
  then show ?thesis by (simp add: pc0)
qed

lemma after_aside:
  assumes inv: "link_inv s g" and i: "i < length (ls_pcs s)" and pc0: "ls_pcs s ! i = pc0"
    and same: "same_queue (ls_q s) q'" and pc: "pc_inv (ls_q s) g i pc'"
    and busy: "\<And>x. \<not> linking x pc0" "in_release pc0 \<Longrightarrow> in_release pc'"
    and none: "sends pc0 = []" "claims (ls_q s) pc0 = []"
    and carry: "outgoing pc' = outgoing pc0" "incoming (ls_q s) pc' = incoming (ls_q s) pc0"
  shows "link_inv (after s i q' pc') g"
proof -
  have "busy_step i g g pc'"
    by (rule busy_step_keep) (use inv busy pc0 in \<open>auto simp: link_inv_def\<close>)
  then show ?thesis
    by (intro after_step [OF inv i pc0])
      (use inv pc none carry in \<open>simp_all add: same_queue_simps [OF same] link_inv_def\<close>)
qed

text \<open>Steps that change nothing others see.\<close>

fun quiet :: "'a link_queue \<Rightarrow> 'a link_pc \<Rightarrow> bool" where
  "quiet q (LPopSwap _ _) = False"
| "quiet q (LReset _ _ _) = False"
| "quiet q (LNew _) = False"
| "quiet q (LSwap _ _) = False"
| "quiet q (LNext _ _) = False"
| "quiet q (LPrev _ _) = False"
| "quiet q (GLock _) = lq_doingrel q"
| "quiet q (GPushSwap _ _ _ _) = False"
| "quiet q (GFree _ _ _) = False"
| "quiet q (GCut _) = False"
| "quiet q (GUnlock _) = False"
| "quiet q (GStartMove _ _) = False"
| "quiet q (GMove _ _) = False"
| "quiet q (GMark _ _) = False"
| "quiet q (GClaim _ cur) = (cur = 0 \<or> it_claimed (item q cur))"
| "quiet q _ = True"

lemma taken_reached: "taken_item q g x \<Longrightarrow> reached q g x"
  by (simp add: taken_item_def)

text \<open>Accesses to live items.\<close>

lemma live_access:
  assumes "lq_mem q a = Some (item q a)"
  shows "with_item a k q = (k (item q a), q)"
    and "set_at a f pc q = (pc, with_mem a (f (item q a)) q)"
    and "link_do (GClaim first a) q =
      (if a = 0 then (GNone, q)
       else if it_claimed (item q a) then (GBack a, q)
       else (GLen first a, with_mem a ((item q a)\<lparr>it_claimed := True\<rparr>) q))"
    and "claims q (GClaim first a) = (if a \<noteq> 0 \<and> \<not> it_claimed (item q a) then [payload_at q a] else [])"
proof -
  obtain it where "lq_mem q a = Some it" using assms by blast
  then show "with_item a k q = (k (item q a), q)"
    "set_at a f pc q = (pc, with_mem a (f (item q a)) q)"
    "link_do (GClaim first a) q =
      (if a = 0 then (GNone, q)
       else if it_claimed (item q a) then (GBack a, q)
       else (GLen first a, with_mem a ((item q a)\<lparr>it_claimed := True\<rparr>) q))"
    "claims q (GClaim first a) = (if a \<noteq> 0 \<and> \<not> it_claimed (item q a) then [payload_at q a] else [])"
    by (simp_all add: with_item_def set_at_def with_mem_def payload_at_def)
qed

lemma releasing_item: "shared_inv q g \<Longrightarrow> releasing q g i x \<Longrightarrow> lq_mem q x = Some (item q x)"
  by (rule listed_item(1)) (auto simp: releasing_def)

lemma tail_item:
  assumes "shared_inv q g" and "x \<in> set (g_tail g)"
  shows "lq_mem q x = Some (item q x)" "x \<noteq> 0"
proof -
  have "g_place g x \<noteq> Nowhere" using assms by (simp add: shared_inv_def place_inv_def sorted_inv_def)
  from placed_item [OF assms(1) this] show "lq_mem q x = Some (item q x)" "x \<noteq> 0" by simp_all
qed

lemma take_quiet:
  assumes sh: "shared_inv q g" and pc: "pc_inv q g i (GTake cur n)" and "link_do (GTake cur n) q = (pc', q')"
  shows "same_queue q q' \<and> pc_inv q g i pc' \<and> outgoing pc' = [] \<and> incoming q pc' = [] \<and> in_release pc'"
proof (cases "g_tail g")
  case Nil
  with assms show ?thesis by (auto simp: same_queue_def)
next
  case (Cons x xs)
  with pc tail_item [OF sh, of x] have n: "n = x" "n \<noteq> 0" "lq_mem q n = Some (item q n)" by simp_all
  moreover have "nxt q x = hd (xs @ [0])" using pc Cons by (simp add: releasing_def)
  ultimately show ?thesis using assms Cons live_access(1) [OF n(3)] by (auto simp: same_queue_def)
qed

lemma quiet_step:
  assumes sh: "shared_inv q g" and pc: "pc_inv q g i pc" and qt: "quiet q pc" and do: "link_do pc q = (pc', q')"
  shows "same_queue q q' \<and> pc_inv q g i pc' \<and> sends pc = [] \<and> claims q pc = [] \<and>
    outgoing pc' = outgoing pc \<and> incoming q pc' = incoming q pc \<and>
    (\<forall>x. \<not> linking x pc) \<and> (in_release pc \<longrightarrow> in_release pc')"
proof -
  have mem: "reached q g x \<or> taken_item q g x \<or> releasing q g i x \<Longrightarrow> lq_mem q x = Some (item q x)" for x
    using reached_item [OF sh] taken_reached releasing_item [OF sh] by blast
  note facts = slot_in_cache [OF sh] lst_reached [OF sh] reached_needrel [OF sh] reached_prev [OF sh] taken_reached
  note acc = live_access [OF mem]
  show ?thesis
  proof (cases pc)
    case (GTake cur n)
    with take_quiet [OF sh, of i cur n pc' q'] pc do show ?thesis by simp
  next
    case (GClaim first cur)
    show ?thesis
    proof (cases "cur = 0")
      case False
      with GClaim pc qt have "claims q pc = []" by (simp add: acc del: claims.simps)
      with False GClaim pc qt do show ?thesis
        by (simp add: acc del: link_do_get claims.simps) (auto simp: same_queue_def taken_item_def)
    qed (use GClaim do in \<open>auto simp: same_queue_def split: option.splits\<close>)
  qed (use pc qt do facts in \<open>auto simp: acc same_queue_def Let_def payload_at_def split: if_splits\<close>)
qed

text \<open>Steps after which the list has the same items, with the same values.\<close>

lemma after_kept:
  assumes inv: "link_inv s g" and i: "i < length (ls_pcs s)" and pc0: "ls_pcs s ! i = pc0"
    and sh: "shared_inv q' g'" and pc: "pc_inv q' g' i pc'"
    and rely: "\<And>j. j < length (ls_pcs s) \<Longrightarrow> j \<noteq> i \<Longrightarrow> rely (holds (ls_pcs s ! j)) j (ls_q s) g q' g'"
    and busy: "busy_step i g g' pc'"
    and kept: "g_list g' = g_list g" "g_taken g' = g_taken g" "g_gone g' = g_gone g"
      "map (payload_at q') (g_list g) = map (payload_at (ls_q s)) (g_list g)"
    and none: "sends pc0 = []" "claims (ls_q s) pc0 = []"
    and carry: "outgoing pc' = outgoing pc0" "incoming q' pc' = incoming (ls_q s) pc0"
  shows "link_inv (after s i q' pc') g'"
proof (rule after_step [OF inv i pc0 sh pc rely busy])
  have "map (payload_at q') (take n (g_list g)) = map (payload_at (ls_q s)) (take n (g_list g))" for n
    unfolding take_map [symmetric] kept(4) ..
  then show "g_gone g' @ map (payload_at q') (take (g_taken g') (g_list g')) =
      g_gone g @ map (payload_at (ls_q s)) (take (g_taken g) (g_list g)) @ claims (ls_q s) pc0"
    by (simp add: kept none)
qed (simp_all add: kept none carry)

lemma link_invD:
  assumes "link_inv s g" and "i < length (ls_pcs s)" and "ls_pcs s ! i = pc"
  shows "shared_inv (ls_q s) g" "pc_inv (ls_q s) g i pc"
  using assms by (auto simp: link_inv_def)

lemma busy_kept:
  assumes "link_inv s g" and "ls_pcs s ! i = pc0" and "\<And>x. \<not> linking x pc0"
    and "in_release pc0 \<Longrightarrow> in_release pc \<or> g_rel g' = None"
    and "\<And>x j. g_place g' x = InList (Some j) \<Longrightarrow> g_place g x = InList (Some j)"
    and "\<And>j. g_rel g' = Some j \<Longrightarrow> g_rel g = Some j"
  shows "busy_step i g g' pc"
  using assms by (intro busy_step_keep [of "ls_pcs s"]) (simp_all add: link_inv_def)

lemma busyD:
  assumes "link_inv s g" and "ls_pcs s ! i = pc"
  shows "g_place g x = InList (Some i) \<Longrightarrow> linking x pc" "g_rel g = Some i \<Longrightarrow> in_release pc"
  using assms unfolding link_inv_def busy_inv_def by blast+

lemma busy_stepI:
  assumes "\<And>x. g_place g' x = InList (Some i) \<Longrightarrow> linking x pc"
    and "\<And>x j. g_place g' x = InList (Some j) \<Longrightarrow> j \<noteq> i \<Longrightarrow> g_place g x = InList (Some j)"
    and "g_rel g' = Some i \<Longrightarrow> in_release pc"
    and "\<And>j. g_rel g' = Some j \<Longrightarrow> j \<noteq> i \<Longrightarrow> g_rel g = Some j"
  shows "busy_step i g g' pc"
  using assms unfolding busy_step_def by simp

lemma do_pop:
  assumes inv: "link_inv s g" and i: "i < length (ls_pcs s)" and pc: "ls_pcs s ! i = LPopSwap k t"
    and do: "link_do (LPopSwap k t) (ls_q s) = (pc', q')"
  shows "\<exists>g'. link_inv (after s i q' pc') g'"
proof -
  let ?q = "ls_q s" and ?c = "lq_recycle (ls_q s)"
  note sh = link_invD(1) [OF inv i pc]
  have k: "k < length (pc_block ?c)" using link_invD(2) [OF inv i pc] by simp
  let ?old = "pc_block ?c ! k"
  have q': "q' = ?q\<lparr>lq_recycle := ?c\<lparr>pc_block := (pc_block ?c)[k := 0]\<rparr>\<rparr>"
    and pc': "pc' = (if ?old \<noteq> 0 then LReset 0 ?old t else LNew t)"
    using do by (simp_all add: Let_def split: if_splits)
  show ?thesis
  proof (cases "?old = 0")
    case True
    then have "same_queue ?q q'" using list_update_id [of "pc_block ?c" k] by (simp add: q' same_queue_def)
    then show ?thesis
      using after_aside [OF inv i pc, of q' "LNew t"] True by (intro exI [of _ g]) (simp add: pc')
  next
    case False
    then have old: "g_place g ?old = Cached k" using cached_item [OF sh k] by simp
    let ?g = "g\<lparr>g_place := (g_place g)(?old := Private i)\<rparr>"
    have "memory_inv ?q (g_place g)" using sh by (simp add: shared_inv_def place_inv_def)
    then have m: "0 < ?old \<and> ?old < lq_brk ?q \<and> lq_mem ?q ?old \<noteq> None" using old by (simp add: memory_inv_def)
    have b: "pc_block (lq_recycle q') ! m = pc_block ?c ! m \<and> g_place g ?old \<noteq> Cached m"
      if "m < length (pc_block ?c)" "pc_block (lq_recycle q') ! m \<noteq> 0" for m
      using that old k by (cases "m = k") (simp_all add: q')
    have st: "shared_inv q' ?g" "\<And>j b. j \<noteq> i \<Longrightarrow> rely b j ?q g q' ?g"
      "map (payload_at q') (g_list g) = map (payload_at ?q) (g_list g)"
      by (rule outside_move [OF sh, of ?old i "Private i" q']; (rule b; assumption)?;
          use old m in \<open>simp add: q'\<close>)+
    have busy: "busy_step i g ?g pc'"
      by (rule busy_kept [OF inv pc]) (auto split: if_splits)
    have "link_inv (after s i q' pc') ?g"
      by (rule after_kept [OF inv i pc st(1) _ st(2) busy _ _ _ st(3)]) (use False in \<open>simp_all add: pc'\<close>)
    then show ?thesis ..
  qed
qed

lemma do_reset:
  assumes inv: "link_inv s g" and i: "i < length (ls_pcs s)" and pc: "ls_pcs s ! i = LReset n a t"
    and do: "link_do (LReset n a t) (ls_q s) = (pc', q')"
  shows "\<exists>g'. link_inv (after s i q' pc') g'"
proof -
  let ?q = "ls_q s" and ?it = "reset_field n t (item (ls_q s) a)"
  note sh = link_invD(1) [OF inv i pc] and pi = link_invD(2) [OF inv i pc]
  have a: "g_place g a = Private i" using pi by simp
  then have live: "lq_mem ?q a = Some (item ?q a)" by (intro placed_item(1) [OF sh]) simp
  have q': "q' = with_mem a ?it ?q" and pc': "pc' = (if n < 4 then LReset (Suc n) a t else LSent a t)"
    using do live_access(2) [OF live] by simp_all
  have "memory_inv ?q (g_place g)" using sh by (simp add: shared_inv_def place_inv_def)
  then have m: "0 < a \<and> a < lq_brk ?q" using a by (simp add: memory_inv_def)
  let ?g = "g\<lparr>g_place := (g_place g)(a := Private i)\<rparr>"
  have pi': "pc_inv q' ?g i pc'"
  proof (cases "n < 4")
    case True
    then have "n = 0 \<or> n = 1 \<or> n = 2 \<or> n = 3" by linarith
    then show ?thesis using pi by (elim disjE) (simp_all add: pc' q' reset_field_def)
  next
    case False
    then have "n = 4" using pi by simp
    then show ?thesis using pi by (simp add: pc' q' reset_field_def)
  qed
  have b: "pc_block (lq_recycle q') ! m = pc_block (lq_recycle ?q) ! m \<and> g_place g a \<noteq> Cached m" for m
    by (simp add: q' a)
  note st = outside_move [OF sh, of a i "Private i" q']
  have busy: "busy_step i g ?g pc'" by (rule busy_kept [OF inv pc]) (auto split: if_splits)
  have "link_inv (after s i q' pc') ?g"
    by (rule after_kept [OF inv i pc _ _ _ busy]; (rule st(1) st(2) st(4) pi')?) (use a m b in \<open>simp_all add: q' pc'\<close>)
  then show ?thesis ..
qed

lemma do_new:
  assumes inv: "link_inv s g" and i: "i < length (ls_pcs s)" and pc: "ls_pcs s ! i = LNew t"
    and do: "link_do (LNew t) (ls_q s) = (pc', q')"
  shows "\<exists>g'. link_inv (after s i q' pc') g'"
proof -
  let ?q = "ls_q s"
  note sh = link_invD(1) [OF inv i pc]
  have q': "q' = ?q\<lparr>lq_brk := Suc (lq_brk ?q), lq_mem := (lq_mem ?q)(lq_brk ?q \<mapsto>
      \<lparr>it_next = 0, it_prev = 0, it_claimed = False, it_needrel = False, it_payload = t\<rparr>)\<rparr>"
    and pc': "pc' = LSent (lq_brk ?q) t"
    using do by simp_all
  have a: "g_place g (lq_brk ?q) = Nowhere" using placed_item(3) [OF sh, of "lq_brk ?q"] by auto
  have m: "0 < lq_brk ?q" using sh by (simp add: shared_inv_def place_inv_def memory_inv_def)
  let ?g = "g\<lparr>g_place := (g_place g)(lq_brk ?q := Private i)\<rparr>"
  note st = outside_move [OF sh, of "lq_brk ?q" i "Private i" q']
  have busy: "busy_step i g ?g pc'" by (rule busy_kept [OF inv pc]) (auto split: if_splits)
  have "link_inv (after s i q' pc') ?g"
    by (rule after_kept [OF inv i pc _ _ _ busy]; (rule st(1) st(2) st(4))?) (use a m in \<open>simp_all add: q' pc'\<close>)
  then show ?thesis ..
qed

lemma do_swap:
  assumes inv: "link_inv s g" and i: "i < length (ls_pcs s)" and pc: "ls_pcs s ! i = LSwap a t"
    and do: "link_do (LSwap a t) (ls_q s) = (pc', q')"
  shows "\<exists>g'. link_inv (after s i q' pc') g'"
proof -
  let ?q = "ls_q s"
  note sh = link_invD(1) [OF inv i pc] and pi = link_invD(2) [OF inv i pc]
  have q': "q' = ?q\<lparr>lq_ptr := a\<rparr>" and pc': "pc' = LNext a (lq_ptr ?q)" using do by simp_all
  have a: "g_place g a = Private i" and it: "lq_mem ?q a =
      Some \<lparr>it_next = 0, it_prev = 0, it_claimed = False, it_needrel = False, it_payload = t\<rparr>"
    using pi by simp_all
  note st = swap_step [OF sh a it]
  let ?g = "g\<lparr>g_list := g_list g @ [a], g_place := (g_place g)(a := InList (Some i))\<rparr>"
  have "payload_at q' x = payload_at ?q x" for x by (simp add: q' payload_at_def)
  moreover have "payload_at ?q a = t" using it by (simp add: payload_at_def)
  moreover have "g_taken g \<le> length (g_list g)" using sh by (simp add: shared_inv_def ends_inv_def)
  moreover have "busy_step i g ?g pc'"
    by (rule busy_stepI) (use busyD [OF inv pc] in \<open>auto simp: pc' split: if_splits\<close>)
  ultimately have "link_inv (after s i q' pc') ?g"
    by (intro after_step [OF inv i pc]) (use st it in \<open>simp_all add: q' pc'\<close>)
  then show ?thesis ..
qed

lemma do_next:
  assumes inv: "link_inv s g" and i: "i < length (ls_pcs s)" and pc: "ls_pcs s ! i = LNext a old"
    and do: "link_do (LNext a old) (ls_q s) = (pc', q')"
  shows "\<exists>g'. link_inv (after s i q' pc') g'"
proof -
  note sh = link_invD(1) [OF inv i pc] and pi = link_invD(2) [OF inv i pc]
  have a: "g_place g a = InList (Some i)" and lp: "link_place (ls_q s) g a old" using pi by simp_all
  then have live: "lq_mem (ls_q s) a = Some (item (ls_q s) a)" by (intro placed_item(1) [OF sh]) simp
  note st = next_step [OF sh a lp]
  have "pc' = LPrev a old" using do by (simp add: live_access(2) [OF live])
  then have busy: "busy_step i g g pc'"
    by (intro busy_stepI) (use busyD [OF inv pc] in auto)
  have "link_inv (after s i q' pc') g"
    by (rule after_kept [OF inv i pc _ _ _ busy]) (use do st a in \<open>auto simp: live_access(2) [OF live]\<close>)
  then show ?thesis ..
qed

lemma do_prev:
  assumes inv: "link_inv s g" and i: "i < length (ls_pcs s)" and pc: "ls_pcs s ! i = LPrev a old"
    and do: "link_do (LPrev a old) (ls_q s) = (pc', q')"
  shows "\<exists>g'. link_inv (after s i q' pc') g'"
proof -
  let ?g = "g\<lparr>g_place := (g_place g)(a := InList None)\<rparr>"
  note sh = link_invD(1) [OF inv i pc] and pi = link_invD(2) [OF inv i pc]
  have a: "g_place g a = InList (Some i)" and lp: "link_place (ls_q s) g a old" "nxt (ls_q s) a = old"
    using pi by simp_all
  have busy: "busy_step i g ?g pc'"
    by (rule busy_stepI) (use busyD [OF inv pc] in \<open>auto split: if_splits\<close>)
  have "link_inv (after s i q' pc') ?g"
  proof (cases "old = 0")
    case True
    note st = first_step [OF sh a lp(1) [unfolded True]]
    show ?thesis
      by (rule after_kept [OF inv i pc _ _ _ busy]) (use do st True in \<open>auto simp: payload_at_def\<close>)
  next
    case False
    then have live: "lq_mem (ls_q s) old = Some (item (ls_q s) old)"
      by (intro listed_item(1) [OF sh] link_place_listed(2) [OF lp(1)])
    note st = prev_step [OF sh a lp False]
    show ?thesis
      by (rule after_kept [OF inv i pc _ _ _ busy]) (use do st False in \<open>auto simp: live_access(2) [OF live]\<close>)
  qed
  then show ?thesis ..
qed

lemma do_lock:
  assumes inv: "link_inv s g" and i: "i < length (ls_pcs s)" and pc: "ls_pcs s ! i = GLock cur"
    and do: "link_do (GLock cur) (ls_q s) = (pc', q')" and un: "\<not> lq_doingrel (ls_q s)" and al: "alone s i"
  shows "\<exists>g'. link_inv (after s i q' pc') g'"
proof -
  note sh = link_invD(1) [OF inv i pc] and pi = link_invD(2) [OF inv i pc]
  have re: "reached (ls_q s) g cur" "behind (ls_q s) g cur" using pi by simp_all
  have q': "q' = ls_q s\<lparr>lq_doingrel := True\<rparr>" "pc' = GTail cur" using do un by simp_all
  obtain g' where st: "shared_inv q' g'" "releasing q' g' i cur" "nxt (ls_q s) cur = hd (g_tail g' @ [0])"
    "\<And>j. j \<noteq> i \<Longrightarrow> rely False j (ls_q s) g q' g'"
    "\<And>x j. g_place g' x = InList (Some j) \<Longrightarrow> g_place g x = InList (Some j)" "g_rel g' = Some i"
    "g_gone g' @ map (payload_at (ls_q s)) (g_list g') = g_gone g @ map (payload_at (ls_q s)) (g_list g)"
    "g_gone g' @ map (payload_at (ls_q s)) (take (g_taken g') (g_list g')) =
      g_gone g @ map (payload_at (ls_q s)) (take (g_taken g) (g_list g))"
    by (rule lock_step [OF sh re un, where i = i, folded q'(1)]) (rule that)
  have p: "payload_at q' = payload_at (ls_q s)" by (simp add: q' payload_at_def fun_eq_iff)
  have "\<not> holds (ls_pcs s ! j)" if "j < length (ls_pcs s)" "j \<noteq> i" for j
    using al that by (simp add: alone_def)
  moreover have "busy_step i g g' pc'"
    by (rule busy_stepI) (use busyD [OF inv pc] st(5,6) in \<open>auto simp: q'(2)\<close>)
  ultimately have "link_inv (after s i q' pc') g'"
    by (intro after_step [OF inv i pc]) (use st in \<open>simp_all add: q'(2) p\<close>, simp add: q'(1))
  then show ?thesis ..
qed

lemma do_push:
  assumes inv: "link_inv s g" and i: "i < length (ls_pcs s)" and pc: "ls_pcs s ! i = GPushSwap cur n n' k"
    and do: "link_do (GPushSwap cur n n' k) (ls_q s) = (pc', q')"
  shows "\<exists>g'. link_inv (after s i q' pc') g'"
proof -
  note sh = link_invD(1) [OF inv i pc] and pi = link_invD(2) [OF inv i pc]
  have rl: "releasing (ls_q s) g i cur" and ne: "g_tail g \<noteq> []" and n: "n = hd (g_tail g)"
    "n' = hd (tl (g_tail g) @ [0])" and k: "k < length (pc_block (lq_recycle (ls_q s)))"
    using pi by simp_all
  let ?c = "lq_recycle (ls_q s)"
  let ?old = "pc_block ?c ! k"
  let ?g = "g\<lparr>g_tail := tl (g_tail g), g_place := (if ?old \<noteq> 0
    then (g_place g)(hd (g_tail g) := Cached k, ?old := Private i) else (g_place g)(hd (g_tail g) := Cached k))\<rparr>"
  have q': "q' = ls_q s\<lparr>lq_recycle := ?c\<lparr>pc_block := (pc_block ?c)[k := hd (g_tail g)]\<rparr>\<rparr>"
    and pc': "pc' = (if ?old \<noteq> 0 then GFree cur n' ?old else GTake cur n')"
    using do n by (simp_all add: Let_def split: if_splits)
  note st = push_step [OF sh rl ne k, folded q']
  have "pc_inv q' ?g i pc'"
  proof (cases "?old = 0")
    case True
    with st(2) n(2) show ?thesis unfolding pc' by simp
  next
    case False
    with st(2,3) n(2) show ?thesis unfolding pc' by simp
  qed
  moreover have "busy_step i g ?g pc'" by (rule busy_kept [OF inv pc]) (auto simp: pc' split: if_splits)
  ultimately have "link_inv (after s i q' pc') ?g"
    by (intro after_kept [OF inv i pc st(1) _ st(4)]) (simp_all add: pc' payload_at_def q')
  then show ?thesis ..
qed

lemma free_step:
  assumes sh: "shared_inv q g" and a: "g_place g a = Private i"
  defines "q' \<equiv> q\<lparr>lq_mem := (lq_mem q)(a := None)\<rparr>" and "g' \<equiv> g\<lparr>g_place := (g_place g)(a := Nowhere)\<rparr>"
  shows "shared_inv q' g'" "j \<noteq> i \<Longrightarrow> rely b j q g q' g'" "releasing q g i cur \<Longrightarrow> releasing q' g' i cur"
    "map (payload_at q') (g_list g) = map (payload_at q) (g_list g)"
    "link_do (GFree cur n a) q = (GTake cur n, q')"
proof -
  have b: "pc_block (lq_recycle q') ! m = pc_block (lq_recycle q) ! m \<and> g_place g a \<noteq> Cached m" for m
    by (simp add: q'_def a)
  show "shared_inv q' g'" "j \<noteq> i \<Longrightarrow> rely b j q g q' g'" "releasing q g i cur \<Longrightarrow> releasing q' g' i cur"
    "map (payload_at q') (g_list g) = map (payload_at q) (g_list g)"
    unfolding g'_def
    by (rule outside_move [OF sh, of a i Nowhere q']; (rule b; assumption)?; use a in \<open>simp add: q'_def\<close>)+
  obtain it where "lq_mem q a = Some it" using placed_item(1) [OF sh, of a] a by auto
  then show "link_do (GFree cur n a) q = (GTake cur n, q')" by (simp add: q'_def)
qed

lemma do_free:
  assumes inv: "link_inv s g" and i: "i < length (ls_pcs s)" and pc: "ls_pcs s ! i = GFree cur n' a"
    and do: "link_do (GFree cur n' a) (ls_q s) = (pc', q')"
  shows "\<exists>g'. link_inv (after s i q' pc') g'"
proof -
  let ?g = "g\<lparr>g_place := (g_place g)(a := Nowhere)\<rparr>"
  note sh = link_invD(1) [OF inv i pc] and pi = link_invD(2) [OF inv i pc]
  have a: "g_place g a = Private i" and rl: "releasing (ls_q s) g i cur" using pi by simp_all
  note st = free_step [OF sh a]
  have q': "q' = ls_q s\<lparr>lq_mem := (lq_mem (ls_q s))(a := None)\<rparr>" and pc': "pc' = GTake cur n'"
    using do st(5) [of cur n'] by simp_all
  have busy: "busy_step i g ?g pc'" by (rule busy_kept [OF inv pc]) (auto simp: pc' split: if_splits)
  have "link_inv (after s i q' pc') ?g"
    by (rule after_kept [OF inv i pc _ _ _ busy]) (use st(1-4) rl pi in \<open>simp_all add: pc' q'\<close>)
  then show ?thesis ..
qed

lemma do_cut:
  assumes inv: "link_inv s g" and i: "i < length (ls_pcs s)" and pc: "ls_pcs s ! i = GCut cur"
    and do: "link_do (GCut cur) (ls_q s) = (pc', q')"
  shows "\<exists>g'. link_inv (after s i q' pc') g'"
proof -
  note sh = link_invD(1) [OF inv i pc] and pi = link_invD(2) [OF inv i pc]
  have rl: "releasing (ls_q s) g i cur" using pi by simp
  note st = cut_step [OF sh rl]
  have "pc' = GUnlock cur" using do by (simp add: live_access(2) [OF releasing_item [OF sh rl]])
  then have busy: "busy_step i g g pc'" by (intro busy_kept [OF inv pc]) auto
  have "link_inv (after s i q' pc') g"
    by (rule after_kept [OF inv i pc _ _ _ busy]) (use do st pi in \<open>auto simp: live_access(2) [OF releasing_item [OF sh rl]]\<close>)
  then show ?thesis ..
qed

lemma do_unlock:
  assumes inv: "link_inv s g" and i: "i < length (ls_pcs s)" and pc: "ls_pcs s ! i = GUnlock cur"
    and do: "link_do (GUnlock cur) (ls_q s) = (pc', q')"
  shows "\<exists>g'. link_inv (after s i q' pc') g'"
proof -
  note sh = link_invD(1) [OF inv i pc] and pi = link_invD(2) [OF inv i pc]
  have "releasing (ls_q s) g i cur" "g_tail g = []" "nxt (ls_q s) cur = 0" using pi by simp_all
  note st = unlock_step [OF sh this]
  have "link_inv (after s i q' pc') (g\<lparr>g_rel := None\<rparr>)"
    by (rule after_kept [OF inv i pc _ _ _ busy_kept [OF inv pc]]) (use do st in \<open>auto simp: payload_at_def\<close>)
  then show ?thesis ..
qed

lemma do_move:
  assumes inv: "link_inv s g" and i: "i < length (ls_pcs s)" and pc: "ls_pcs s ! i = pc"
    and mv: "pc = GStartMove cur n \<or> pc = GMove cur n" and do: "link_do pc (ls_q s) = (pc', q')"
  shows "\<exists>g'. link_inv (after s i q' pc') g'"
proof -
  note sh = link_invD(1) [OF inv i pc] and pi = link_invD(2) [OF inv i pc]
  have tk: "taken_item (ls_q s) g cur" and n: "n \<noteq> 0 \<longrightarrow> prv (ls_q s) cur = n" using pi mv by auto
  note st = move_step [OF sh tk n]
  have "pc_inv (ls_q s) g i pc'" using do mv tk n reached_prev [OF sh tk] by auto
  then have pi': "pc_inv (move_lst cur n (ls_q s)) g i pc'" by (rule st(3))
  have busy: "busy_step i g g pc'" by (rule busy_kept [OF inv pc]) (use mv in auto)
  have "link_inv (after s i q' pc') g"
    by (rule after_kept [OF inv i pc _ _ _ busy]) (use do mv st(1,2,4) pi' in auto)
  then show ?thesis ..
qed

lemma do_claim:
  assumes inv: "link_inv s g" and i: "i < length (ls_pcs s)" and pc: "ls_pcs s ! i = GClaim first cur"
    and do: "link_do (GClaim first cur) (ls_q s) = (pc', q')"
    and un: "cur \<noteq> 0" "\<not> it_claimed (item (ls_q s) cur)"
  shows "\<exists>g'. link_inv (after s i q' pc') g'"
proof -
  let ?q = "ls_q s" and ?g = "g\<lparr>g_taken := Suc (g_taken g)\<rparr>"
  note sh = link_invD(1) [OF inv i pc] and pi = link_invD(2) [OF inv i pc]
  have re: "reached ?q g cur" using pi un by simp
  note live = reached_item [OF sh re, THEN conjunct1]
  note acc = live_access(3,4) [OF live]
  have q': "q' = with_mem cur ((item ?q cur)\<lparr>it_claimed := True\<rparr>) ?q" and pc': "pc' = GLen first cur"
    and cl: "claims ?q (GClaim first cur) = [payload_at ?q cur]"
    using do un by (simp_all add: acc del: link_do_get claims.simps)
  note st = claim_step [OF sh re un(2), folded q']
  have tk: "take (Suc (g_taken g)) (g_list g) = take (g_taken g) (g_list g) @ [cur]" using st(5) by simp
  have e: "map (payload_at q') (take n (g_list g)) = map (payload_at ?q) (take n (g_list g))" for n
    unfolding take_map [symmetric] st(4) ..
  have p: "payload_at q' cur = payload_at ?q cur" by (simp add: q' payload_at_def)
  have "link_inv (after s i q' pc') ?g"
  proof (rule after_step [OF inv i pc st(1)])
    show "g_gone ?g @ map (payload_at q') (take (g_taken ?g) (g_list ?g)) =
        g_gone g @ map (payload_at ?q) (take (g_taken g) (g_list g)) @ claims ?q (GClaim first cur)"
      unfolding cl using e [of "Suc (g_taken g)"] tk by simp
    show "busy_step i g ?g pc'" by (rule busy_kept [OF inv pc]) auto
    show "pc_inv q' ?g i pc'" using st(3) by (simp add: pc')
    show "rely b j ?q g q' ?g" if "j \<noteq> i" for b j using st(2) that .
    show "claims ?q (GClaim first cur) @ incoming ?q (GClaim first cur) = incoming q' pc'"
      unfolding cl using p by (simp add: pc')
    show "g_gone ?g @ map (payload_at q') (g_list ?g) =
        g_gone g @ map (payload_at ?q) (g_list g) @ sends (GClaim first cur)" using st(4) by simp
  qed (simp add: pc')
  then show ?thesis ..
qed

lemma do_mark:
  assumes inv: "link_inv s g" and i: "i < length (ls_pcs s)" and pc: "ls_pcs s ! i = GMark cur v"
    and do: "link_do (GMark cur v) (ls_q s) = (pc', q')"
  shows "\<exists>g'. link_inv (after s i q' pc') g'"
proof -
  note sh = link_invD(1) [OF inv i pc] and pi = link_invD(2) [OF inv i pc]
  have tk: "taken_item (ls_q s) g cur" using pi by simp
  note live = reached_item [OF sh taken_reached [OF tk], THEN conjunct1]
  note st = mark_step [OF sh tk]
  have busy: "busy_step i g g pc'" by (rule busy_kept [OF inv pc]) auto
  have "link_inv (after s i q' pc') g"
    by (rule after_kept [OF inv i pc _ _ _ busy]) (use do st in \<open>auto simp: live_access(2) [OF live]\<close>)
  then show ?thesis ..
qed

lemma link_inv_do:
  assumes inv: "link_inv s g" and i: "i < length (ls_pcs s)"
    and do: "link_do (ls_pcs s ! i) (ls_q s) = (pc', q')"
    and calm: "\<And>cur. ls_pcs s ! i = GLock cur \<Longrightarrow> \<not> lq_doingrel (ls_q s) \<Longrightarrow> alone s i"
  shows "\<exists>g'. link_inv (after s i q' pc') g'"
proof (cases "quiet (ls_q s) (ls_pcs s ! i)")
  case True
  from quiet_step [OF link_invD [OF inv i refl] True do] show ?thesis
    by (intro exI [of _ g] after_aside [OF inv i refl]) simp_all
next
  case False
  show ?thesis
  proof (cases "ls_pcs s ! i")
    case (LPopSwap k t)
    from do_pop [OF inv i this do [unfolded this]] show ?thesis .
  next
    case (LReset n a t)
    from do_reset [OF inv i this do [unfolded this]] show ?thesis .
  next
    case (LNew t)
    from do_new [OF inv i this do [unfolded this]] show ?thesis .
  next
    case (LSwap a t)
    from do_swap [OF inv i this do [unfolded this]] show ?thesis .
  next
    case (LNext a old)
    from do_next [OF inv i this do [unfolded this]] show ?thesis .
  next
    case (LPrev a old)
    from do_prev [OF inv i this do [unfolded this]] show ?thesis .
  next
    case (GLock cur)
    with False have "\<not> lq_doingrel (ls_q s)" by simp
    from do_lock [OF inv i GLock do [unfolded GLock] this calm [OF GLock this]] show ?thesis .
  next
    case (GPushSwap cur n n' k)
    from do_push [OF inv i this do [unfolded this]] show ?thesis .
  next
    case (GFree cur n' a)
    from do_free [OF inv i this do [unfolded this]] show ?thesis .
  next
    case (GCut cur)
    from do_cut [OF inv i this do [unfolded this]] show ?thesis .
  next
    case (GUnlock cur)
    from do_unlock [OF inv i this do [unfolded this]] show ?thesis .
  next
    case (GStartMove cur n)
    from do_move [OF inv i refl disjI1 [OF this] do] show ?thesis .
  next
    case (GMove cur n)
    from do_move [OF inv i refl disjI2 [OF this] do] show ?thesis .
  next
    case (GMark cur v)
    from do_mark [OF inv i this do [unfolded this]] show ?thesis .
  next
    case (GClaim first cur)
    with False have "cur \<noteq> 0" "\<not> it_claimed (item (ls_q s) cur)" by simp_all
    from do_claim [OF inv i GClaim do [unfolded GClaim] this] show ?thesis .
  qed (use False in simp_all)
qed

end
