(* ===== verification/Link_Race.thy ===== *)
theory Link_Race
  imports Link_Threads
begin

text \<open>
  Runs of the linked queue under a given schedule, and one with two consumers in which a value is
  received twice and another is lost, because an item is recycled while a get holds a pointer to it.
\<close>

section \<open>Schedules\<close>

text \<open>Calls, and accesses by a thread, the last of which is the return.\<close>

datatype 'a link_act = CallPut nat 'a | CallGet nat | Go nat

fun link_exec :: "nat set \<Rightarrow> bool \<Rightarrow> 'a link_act \<Rightarrow> 'a link_system \<Rightarrow> 'a link_system" where
  "link_exec C calm (CallPut i t) s =
     (if i < length (ls_pcs s) \<and> ls_pcs s ! i = LIdle
      then s\<lparr>ls_pcs := (ls_pcs s)[i := LPop t], ls_put := ls_put s @ [t]\<rparr> else s)"
| "link_exec C calm (CallGet i) s =
     (if i < length (ls_pcs s) \<and> ls_pcs s ! i = LIdle \<and> i \<in> C
      then s\<lparr>ls_pcs := (ls_pcs s)[i := GEnter]\<rparr> else s)"
| "link_exec C calm (Go i) s =
     (if i < length (ls_pcs s)
      then case ls_pcs s ! i of
             GDone r \<Rightarrow> s\<lparr>ls_pcs := (ls_pcs s)[i := LIdle], ls_got := ls_got s @ option_list r\<rparr>
           | GLock cur \<Rightarrow>
               if calm \<and> \<not> lq_doingrel (ls_q s) \<and> \<not> alone s i then s
               else (case link_do (GLock cur) (ls_q s) of (pc, q) \<Rightarrow> after s i q pc)
           | pc \<Rightarrow> (case link_do pc (ls_q s) of (pc', q) \<Rightarrow> after s i q pc')
      else s)"

lemma link_exec_step: "(link_step C calm)\<^sup>*\<^sup>* s (link_exec C calm a s)"
proof (cases a)
  case (Go i)
  have "link_step C calm s (after s i q pc)"
    if "i < length (ls_pcs s)" "link_do (ls_pcs s ! i) (ls_q s) = (pc, q)"
      "\<And>cur. ls_pcs s ! i = GLock cur \<Longrightarrow> \<not> (calm \<and> \<not> lq_doingrel (ls_q s) \<and> \<not> alone s i)" for pc q
    by (rule link_step.l_run) (use that in auto)
  then show ?thesis
    using Go by (auto split: link_pc.split prod.split intro: link_step.l_done)
qed (auto intro: link_step.intros)

lemma link_exec_run: "(link_step C calm)\<^sup>*\<^sup>* s (fold (link_exec C calm) as s)"
proof (induction as arbitrary: s)
  case (Cons a as)
  with link_exec_step [of C calm s a] show ?case by (auto intro: rtranclp_trans)
qed simp

section \<open>A lost value\<close>

text \<open>The first slots that the cache pops from.\<close>

lemma first_slots: "slot (mask 10) (- 1) = 1023" "slot (mask 10) (- 2) = 1022"
  by (simp_all add: slot_def mask_eq_exp_minus_1)

definition empty_queue :: "nat list \<Rightarrow> 'a link_queue" where
  "empty_queue B = \<lparr>lq_mem = (\<lambda>_. None), lq_brk = 1, lq_ptr = 0, lq_lst = 0, lq_rinside = 0,
     lq_count = 0, lq_sent = 0, lq_needrel = 0, lq_doingrel = False,
     lq_recycle = \<lparr>pc_block = B, pc_mask = mask 10, pc_pos = 0\<rparr>\<rparr>"

lemmas link_runs = first_slots empty_queue_def link_start_def Let_def set_at_def with_item_def move_lst_def
  reset_field_def alone_def

lemma lq_new_empty: "lq_new garbage = empty_queue (replicate 1024 0)"
proof -
  have "unat (ring_mask 10 + 1) = 2 ^ 10" using unat_ring_size [of 10] by simp
  then show ?thesis by (simp add: lq_new_def empty_queue_def pc_new_def Let_def fold_pc_init ring_mask_eq)
qed

text \<open>
  Thread 0 puts 1 and 2. Thread 1 claims the item of 1, and stops before it reads it. Thread 2 gets 2;
  then it gets again, finds that the item of 2 was received, and recycles the items after it. Thread 0
  puts 3 into the recycled item. Now thread 1 reads 3, and thread 2 finds 3 at the head.
\<close>

definition race :: "nat link_act list" where
  "race =
     CallPut 0 1 # map Go [0, 0, 0, 0, 0, 0, 0, 0] @
     CallPut 0 2 # map Go [0, 0, 0, 0, 0, 0, 0, 0] @
     CallGet 1 # map Go [1, 1, 1, 1, 1, 1, 1, 1] @
     CallGet 2 # map Go [2, 2, 2, 2, 2, 2, 2, 2, 2, 2, 2, 2, 2] @
     CallGet 2 # map Go [2, 2, 2, 2, 2, 2, 2, 2, 2, 2, 2, 2, 2, 2, 2, 2, 2] @
     CallPut 0 3 # map Go [0, 0, 0, 0, 0, 0, 0, 0, 0, 0, 0, 0] @
     map Go [1, 1, 1, 1, 1] @
     CallGet 2 # map Go [2, 2, 2, 2, 2, 2, 2, 2, 2, 2, 2, 2, 2, 2, 2, 2, 2, 2, 2, 2]"

lemma race_outcome:
  assumes "length B = 1024" "B ! 1023 = 0" "B ! 1022 = 0"
  shows "\<exists>q. fold (link_exec UNIV False) race (link_start 3 (empty_queue B)) =
    \<lparr>ls_q = q, ls_pcs = [LIdle, LIdle, LIdle], ls_put = [1, 2, 3], ls_sent = [1, 2, 3],
     ls_claimed = [1, 2, 3], ls_got = [2, 3, 3]\<rparr>"
  using assms by (simp add: race_def link_runs numeral_3_eq_3)

text \<open>
  C31. With two threads that get, the linked queue as written has a run in which 1, 2 and 3 are put, no
  operation is left under way, and the values got are 2, 3 and 3: one is received twice, another is lost.
\<close>

theorem link_threads_race:
  "\<exists>s. (link_step UNIV False)\<^sup>*\<^sup>* (link_start 3 (lq_new garbage)) s \<and>
     ls_pcs s = [LIdle, LIdle, LIdle] \<and> ls_put s = [1, 2, 3] \<and> ls_got s = [2, 3, 3 :: nat]"
proof -
  let ?s = "link_start 3 (empty_queue (replicate 1024 0)) :: nat link_system"
  obtain q where "fold (link_exec UNIV False) race ?s =
    \<lparr>ls_q = q, ls_pcs = [LIdle, LIdle, LIdle], ls_put = [1, 2, 3], ls_sent = [1, 2, 3],
     ls_claimed = [1, 2, 3], ls_got = [2, 3, 3]\<rparr>"
    using race_outcome [of "replicate 1024 0"] by (auto simp del: replicate.simps)
  moreover have "(link_step UNIV False)\<^sup>*\<^sup>* ?s (fold (link_exec UNIV False) race ?s)" by (rule link_exec_run)
  ultimately show ?thesis unfolding lq_new_empty by (metis link_system.select_convs(2,3,6))
qed

end
