(* ===== verification/Link_Safety.thy ===== *)
theory Link_Safety
  imports Link_Steps Link_Race
begin

text \<open>
  What the invariant of the linked queue gives: with one consumer, or if items are released only by a
  get that is alone, nothing is lost, received twice or reordered, and no thread touches freed memory.
\<close>

section \<open>Runs\<close>

lemma sum_list_none:
  fixes f :: "'b \<Rightarrow> 'c :: comm_monoid_add"
  shows "(\<And>x. x \<in> set xs \<Longrightarrow> f x = 0) \<Longrightarrow> sum_list (map f xs) = 0"
  by (induction xs) auto

definition first_ghost :: "'a ghost" where
  "first_ghost = \<lparr>g_list = [], g_taken = 0, g_tail = [], g_gone = [], g_place = (\<lambda>_. Nowhere), g_rel = None\<rparr>"

lemma link_inv_start: "link_inv (link_start n (lq_new garbage :: 'a link_queue)) first_ghost"
proof -
  have "unat (ring_mask 10 + 1) = 2 ^ 10" using unat_ring_size [of 10] by simp
  then have "pc_block (pc_new garbage 10) = replicate (2 ^ 10) 0"
    by (simp add: pc_new_def Let_def fold_pc_init)
  moreover have "pc_mask (pc_new garbage 10) = mask 10" by (simp add: pc_new_def Let_def ring_mask_eq)
  moreover have "incoming (lq_new garbage) (LIdle :: 'a link_pc) = []" "outgoing (LIdle :: 'a link_pc) = []" by simp_all
  ultimately show ?thesis
    using sum_list_none [of "replicate n LIdle" "\<lambda>_. {#}"]
    by (simp add: link_inv_def shared_inv_def place_inv_def sorted_inv_def cache_inv_def memory_inv_def
        ends_inv_def linker_inv_def busy_inv_def history_inv_def link_start_def lq_new_def first_ghost_def)
qed

lemma link_step_inv:
  assumes "link_step C True s s'" and inv: "link_inv s g"
  shows "\<exists>g'. link_inv s' g'"
  using assms(1)
proof cases
  case (l_put i t)
  have "link_inv (s\<lparr>ls_q := ls_q s, ls_pcs := (ls_pcs s)[i := LPop t], ls_put := ls_put s @ [t], ls_sent := ls_sent s,
    ls_claimed := ls_claimed s, ls_got := ls_got s\<rparr>) g"
    by (rule link_inv_aside [OF inv]) (use l_put in \<open>simp_all add: same_queue_def\<close>)
  then show ?thesis using l_put(1) by auto
next
  case (l_get i)
  have "link_inv (s\<lparr>ls_q := ls_q s, ls_pcs := (ls_pcs s)[i := GEnter], ls_put := ls_put s, ls_sent := ls_sent s,
    ls_claimed := ls_claimed s, ls_got := ls_got s\<rparr>) g"
    by (rule link_inv_aside [OF inv]) (use l_get in \<open>simp_all add: same_queue_def\<close>)
  then show ?thesis using l_get(1) by auto
next
  case (l_run i pc q)
  then show ?thesis using link_inv_do [OF inv l_run(2) l_run(4)] by auto
next
  case (l_done i r)
  have "link_inv (s\<lparr>ls_q := ls_q s, ls_pcs := (ls_pcs s)[i := LIdle], ls_put := ls_put s, ls_sent := ls_sent s,
    ls_claimed := ls_claimed s, ls_got := ls_got s @ option_list r\<rparr>) g"
    by (rule link_inv_aside [OF inv]) (use l_done in \<open>simp_all add: same_queue_def\<close>)
  then show ?thesis using l_done(1) by auto
qed

lemma link_run_inv:
  assumes "(link_step C True)\<^sup>*\<^sup>* (link_start n (lq_new garbage)) s"
  shows "\<exists>g. link_inv s g"
  using assms
proof (induction rule: rtranclp_induct)
  case base
  show ?case by (rule exI, rule link_inv_start)
next
  case (step s s')
  then show ?case using link_step_inv by blast
qed

text \<open>What the invariant says of the values.\<close>

lemma link_inv_claimed:
  "link_inv s g \<Longrightarrow>
     mset (ls_claimed s) = mset (ls_got s) + sum_list (map (mset \<circ> incoming (ls_q s)) (ls_pcs s))"
  unfolding link_inv_def history_inv_def by blast

lemma link_inv_values:
  assumes "link_inv s g"
  shows "LCrash \<notin> set (ls_pcs s)" "prefix (ls_claimed s) (ls_sent s)"
    "mset (ls_sent s) \<subseteq># mset (ls_put s)" "mset (ls_got s) \<subseteq># mset (ls_claimed s)"
    "set (ls_pcs s) \<subseteq> {LIdle} \<Longrightarrow> mset (ls_put s) = mset (ls_sent s) \<and> mset (ls_got s) = mset (ls_claimed s)"
proof -
  have h: "ls_sent s = g_gone g @ map (payload_at (ls_q s)) (g_list g)"
    "ls_claimed s = g_gone g @ map (payload_at (ls_q s)) (take (g_taken g) (g_list g))"
    "mset (ls_put s) = mset (ls_sent s) + sum_list (map (mset \<circ> outgoing) (ls_pcs s))"
    "mset (ls_claimed s) = mset (ls_got s) + sum_list (map (mset \<circ> incoming (ls_q s)) (ls_pcs s))"
    using assms link_inv_claimed [OF assms] unfolding link_inv_def history_inv_def by blast+
  show "LCrash \<notin> set (ls_pcs s)" using assms by (fastforce simp: link_inv_def in_set_conv_nth)
  show "prefix (ls_claimed s) (ls_sent s)" unfolding h(1,2) by (simp add: map_mono_prefix take_is_prefix)
  show "mset (ls_sent s) \<subseteq># mset (ls_put s)" "mset (ls_got s) \<subseteq># mset (ls_claimed s)" using h(3,4) by simp_all
  assume "set (ls_pcs s) \<subseteq> {LIdle}"
  then have "sum_list (map (mset \<circ> outgoing) (ls_pcs s)) = {#}"
    "sum_list (map (mset \<circ> incoming (ls_q s)) (ls_pcs s)) = {#}"
    by (auto intro!: sum_list_none)
  with h(3,4) show "mset (ls_put s) = mset (ls_sent s) \<and> mset (ls_got s) = mset (ls_claimed s)" by simp
qed

section \<open>One consumer\<close>

text \<open>Threads that never call \<open>get\<close>.\<close>

lemma putting_do: "putting pc \<Longrightarrow> link_do pc q = (pc', q') \<Longrightarrow> putting pc'"
  by (cases pc) (auto simp: set_at_def Let_def split: option.splits if_splits)

lemma putting_facts: "putting pc \<Longrightarrow> \<not> holds pc \<and> incoming q pc = []"
  by (cases pc) simp_all

definition one_consumer :: "nat \<Rightarrow> 'a link_system \<Rightarrow> bool" where
  "one_consumer r s \<longleftrightarrow> (\<forall>i < length (ls_pcs s). i \<noteq> r \<longrightarrow> putting (ls_pcs s ! i))"

lemma one_consumer_step:
  assumes "link_step {r} calm s s'" and "one_consumer r s"
  shows "link_step {r} True s s'" "one_consumer r s'"
proof -
  have al: "alone s i" if "i < length (ls_pcs s)" "ls_pcs s ! i = GLock cur" for i cur
  proof -
    have "i = r" using that assms(2) unfolding one_consumer_def by (metis putting.simps)
    then show ?thesis using assms(2) putting_facts by (auto simp: alone_def one_consumer_def)
  qed
  show "link_step {r} True s s'"
    using assms(1)
  proof cases
    case (l_run i pc q)
    then show ?thesis using al by (auto intro: link_step.l_run)
  qed (auto intro: link_step.intros)
  show "one_consumer r s'"
    using assms(1)
  proof cases
    case (l_run i pc q)
    have "putting pc" if "i \<noteq> r"
      by (rule putting_do [OF _ l_run(4)]) (use that assms(2) l_run(2) in \<open>simp add: one_consumer_def\<close>)
    then show ?thesis using assms(2) l_run(1,2) by (auto simp: one_consumer_def nth_list_update)
  qed (use assms(2) in \<open>auto simp: one_consumer_def nth_list_update\<close>)
qed

lemma one_consumer_incoming:
  assumes "one_consumer r s" and r: "r < length (ls_pcs s)"
  shows "sum_list (map (mset \<circ> incoming q) (ls_pcs s)) = mset (incoming q (ls_pcs s ! r))"
proof -
  have "(mset \<circ> incoming q) pc = {#}" if pc: "pc \<in> set ((ls_pcs s)[r := LIdle])" for pc
  proof -
    obtain i where i: "i < length (ls_pcs s)" "pc = (ls_pcs s)[r := LIdle] ! i"
      using pc by (auto simp: in_set_conv_nth)
    then show ?thesis using assms(1) putting_facts by (cases "i = r") (auto simp: one_consumer_def)
  qed
  then have "sum_list (map (mset \<circ> incoming q) ((ls_pcs s)[r := LIdle])) = {#}" by (rule sum_list_none)
  with sum_list_update1 [OF r, of "mset \<circ> incoming q" LIdle] show ?thesis by simp
qed

text \<open>The consumer gets the values in the order of its claims.\<close>

lemma one_consumer_got:
  assumes inv: "link_inv s g" and one: "one_consumer r s" and pre: "prefix (ls_got s) (ls_claimed s)"
    and st: "link_step {r} True s s'"
  shows "prefix (ls_got s') (ls_claimed s')"
  using st
proof cases
  case (l_done i x)
  obtain ys where ys: "ls_claimed s = ls_got s @ ys" using pre by (auto simp: prefix_def)
  have "i = r" using l_done one unfolding one_consumer_def by (metis putting.simps)
  then have "mset (ls_claimed s) = mset (ls_got s) + mset (option_list x)"
    using link_inv_claimed [OF inv] one_consumer_incoming [OF one, of "ls_q s"] l_done by simp
  then have "mset ys = mset (option_list x)" by (simp add: ys)
  then have "ys = option_list x" by (cases x) auto
  then show ?thesis using l_done(1) by (simp add: ys)
qed (use pre in \<open>auto simp: prefix_def\<close>)

lemma one_consumer_run:
  assumes "(link_step {r} calm)\<^sup>*\<^sup>* (link_start n (lq_new garbage)) s"
  shows "\<exists>g. link_inv s g \<and> one_consumer r s \<and> prefix (ls_got s) (ls_claimed s)"
  using assms
proof (induction rule: rtranclp_induct)
  case base
  have "link_inv (link_start n (lq_new garbage)) first_ghost" by (rule link_inv_start)
  moreover have "one_consumer r (link_start n (lq_new garbage))" by (simp add: one_consumer_def link_start_def)
  ultimately show ?case by (intro exI conjI) (simp_all add: link_start_def)
next
  case (step s s')
  then obtain g where g: "link_inv s g" "one_consumer r s" "prefix (ls_got s) (ls_claimed s)" by blast
  note st = one_consumer_step [OF step.hyps(2) g(2)]
  obtain g' where "link_inv s' g'" using link_step_inv [OF st(1) g(1)] by blast
  with st one_consumer_got [OF g st(1)] show ?case by blast
qed

lemma one_consumer_prefix:
  assumes "(link_step {r} calm)\<^sup>*\<^sup>* (link_start n (lq_new garbage)) s"
  shows "prefix (ls_got s) (ls_sent s)"
proof -
  obtain g where "link_inv s g" "prefix (ls_got s) (ls_claimed s)" using one_consumer_run [OF assms] by blast
  with link_inv_values(2) show ?thesis using prefix_order.trans by blast
qed

lemma one_consumer_all_got:
  assumes "link_inv s g" and "one_consumer r s" and "prefix (ls_got s) (ls_claimed s)"
    and "r < length (ls_pcs s)" and "ls_pcs s ! r = LIdle"
  shows "ls_got s = ls_claimed s"
proof -
  have "mset (ls_claimed s) = mset (ls_got s)"
    using link_inv_claimed [OF assms(1)] one_consumer_incoming [OF assms(2,4), of "ls_q s"] assms(5) by simp
  then have "length (ls_claimed s) = length (ls_got s)" by (rule mset_eq_length)
  with assms(3) show ?thesis by (auto simp: prefix_def)
qed

section \<open>Properties\<close>

text \<open>
  C8. With one thread that gets and any number that put, at every access of every interleaving of the
  linked queue: no thread has touched an address that is not allocated, the values got are the first of
  those sent, in order and each once, and every value sent was put. When no operation is under way,
  every value that was put has been sent.
\<close>

theorem link_threads_one_consumer:
  assumes "(link_step {r} False)\<^sup>*\<^sup>* (link_start n (lq_new garbage)) s"
  shows "LCrash \<notin> set (ls_pcs s) \<and> prefix (ls_got s) (ls_sent s) \<and> mset (ls_sent s) \<subseteq># mset (ls_put s) \<and>
    (set (ls_pcs s) \<subseteq> {LIdle} \<longrightarrow> mset (ls_put s) = mset (ls_sent s))"
proof (intro conjI)
  obtain g where "link_inv s g" using one_consumer_run [OF assms] by blast
  note v = link_inv_values [OF this]
  show "LCrash \<notin> set (ls_pcs s)" "mset (ls_sent s) \<subseteq># mset (ls_put s)" by (fact v(1), fact v(3))
  show "prefix (ls_got s) (ls_sent s)" by (rule one_consumer_prefix [OF assms])
  show "set (ls_pcs s) \<subseteq> {LIdle} \<longrightarrow> mset (ls_put s) = mset (ls_sent s)" using v(5) by blast
qed

text \<open>The consumer comes in the middle of a put, gets nothing, and gets the value later.\<close>

definition late_put :: "nat link_act list" where
  "late_put =
     CallPut 0 7 # map Go [0, 0, 0, 0, 0] @ CallGet 1 # map Go [1, 1, 1] @ map Go [0, 0, 0] @
     CallGet 1 # map Go [1, 1, 1, 1, 1, 1, 1, 1, 1, 1, 1, 1, 1]"

lemma late_put_outcome:
  assumes "length B = 1024" "B ! 1023 = 0"
  shows "\<exists>q. fold (link_exec {1} False) late_put (link_start 2 (empty_queue B)) =
    \<lparr>ls_q = q, ls_pcs = [LIdle, LIdle], ls_put = [7], ls_sent = [7], ls_claimed = [7], ls_got = [7]\<rparr>"
  using assms by (simp add: late_put_def link_runs numeral_2_eq_2)

theorem link_threads_one_consumer_witness:
  "\<exists>s :: nat link_system. LCrash \<notin> set (ls_pcs s) \<and> prefix (ls_got s) (ls_sent s) \<and> mset (ls_sent s) \<subseteq># mset (ls_put s) \<and>
     mset (ls_put s) = mset (ls_sent s) \<and> ls_got s = [7 :: nat]"
proof -
  let ?s = "\<lambda>q. \<lparr>ls_q = q, ls_pcs = [LIdle, LIdle], ls_put = [7], ls_sent = [7], ls_claimed = [7], ls_got = [7 :: nat]\<rparr>"
  obtain q where q: "fold (link_exec {1} False) late_put (link_start 2 (lq_new [])) = ?s q"
    using late_put_outcome [of "replicate 1024 0"] by (auto simp: lq_new_empty simp del: replicate.simps)
  have "(link_step {1} False)\<^sup>*\<^sup>* (link_start 2 (lq_new [])) (?s q)"
    unfolding q [symmetric] by (rule link_exec_run)
  from link_threads_one_consumer [OF this] show ?thesis by (intro exI [of _ "?s q"]) simp
qed

text \<open>
  C9. With any number of threads that put and get, if a thread begins to release items only while no
  other get holds a pointer to one: no thread touches an address that is not allocated, values are
  claimed in the order in which they were sent, each once, nothing is got that was not claimed, and when
  no operation is under way every value put was sent and every value claimed was got.
\<close>

theorem link_threads_calm:
  assumes "(link_step C True)\<^sup>*\<^sup>* (link_start n (lq_new garbage)) s"
  shows "LCrash \<notin> set (ls_pcs s) \<and> prefix (ls_claimed s) (ls_sent s) \<and>
    mset (ls_got s) \<subseteq># mset (ls_claimed s) \<and> mset (ls_sent s) \<subseteq># mset (ls_put s) \<and>
    (set (ls_pcs s) \<subseteq> {LIdle} \<longrightarrow>
      mset (ls_put s) = mset (ls_sent s) \<and> mset (ls_got s) = mset (ls_claimed s))"
proof (intro conjI)
  obtain g where "link_inv s g" using link_run_inv [OF assms] by blast
  note v = link_inv_values [OF this]
  show "LCrash \<notin> set (ls_pcs s)" by (fact v(1))
  show "prefix (ls_claimed s) (ls_sent s)" by (fact v(2))
  show "mset (ls_got s) \<subseteq># mset (ls_claimed s)" by (fact v(4))
  show "mset (ls_sent s) \<subseteq># mset (ls_put s)" by (fact v(3))
  show "set (ls_pcs s) \<subseteq> {LIdle} \<longrightarrow>
      mset (ls_put s) = mset (ls_sent s) \<and> mset (ls_got s) = mset (ls_claimed s)" using v(5) by blast
qed

text \<open>Thread 1 claims the first value, and reads it only after thread 2 has got the second.\<close>

definition overtaking :: "nat link_act list" where
  "overtaking =
     CallPut 0 1 # map Go [0, 0, 0, 0, 0, 0, 0, 0] @ CallPut 0 2 # map Go [0, 0, 0, 0, 0, 0, 0, 0] @
     CallGet 1 # map Go [1, 1, 1, 1, 1, 1, 1, 1] @
     CallGet 2 # map Go [2, 2, 2, 2, 2, 2, 2, 2, 2, 2, 2, 2, 2] @ map Go [1, 1, 1, 1, 1]"

lemma overtaking_outcome:
  assumes "length B = 1024" "B ! 1023 = 0" "B ! 1022 = 0"
  shows "\<exists>q. fold (link_exec {1, 2} True) overtaking (link_start 3 (empty_queue B)) =
    \<lparr>ls_q = q, ls_pcs = [LIdle, LIdle, LIdle], ls_put = [1, 2], ls_sent = [1, 2], ls_claimed = [1, 2],
     ls_got = [2, 1]\<rparr>"
  using assms by (simp add: overtaking_def link_runs move_lst_def numeral_3_eq_3)

theorem link_threads_calm_witness:
  "\<exists>s :: nat link_system. LCrash \<notin> set (ls_pcs s) \<and> prefix (ls_claimed s) (ls_sent s) \<and> mset (ls_got s) \<subseteq># mset (ls_claimed s) \<and>
     mset (ls_sent s) \<subseteq># mset (ls_put s) \<and> mset (ls_put s) = mset (ls_sent s) \<and>
     mset (ls_got s) = mset (ls_claimed s) \<and> ls_got s = [2, 1 :: nat]"
proof -
  let ?s = "\<lambda>q. \<lparr>ls_q = q, ls_pcs = [LIdle, LIdle, LIdle], ls_put = [1, 2], ls_sent = [1, 2], ls_claimed = [1, 2],
     ls_got = [2, 1 :: nat]\<rparr>"
  obtain q where q: "fold (link_exec {1, 2} True) overtaking (link_start 3 (lq_new [])) = ?s q"
    using overtaking_outcome [of "replicate 1024 0"] by (auto simp: lq_new_empty simp del: replicate.simps)
  have "(link_step {1, 2} True)\<^sup>*\<^sup>* (link_start 3 (lq_new [])) (?s q)"
    unfolding q [symmetric] by (rule link_exec_run)
  from link_threads_calm [OF this] show ?thesis by (intro exI [of _ "?s q"]) simp
qed

end
