(* ===== verification/Link_Alone.thy ===== *)
theory Link_Alone
  imports Link_Threads
begin

text \<open>
  The accesses that one thread makes to the linked queue, while no other makes any, have the effect of
  \<open>lq_put\<close> and \<open>lq_get\<close>: the model with threads refines the one of \<open>Link_Queue\<close>, and so the list queue.
\<close>

definition access :: "'a link_pc \<times> 'a link_queue \<Rightarrow> 'a link_pc \<times> 'a link_queue \<Rightarrow> bool" where
  "access x y \<longleftrightarrow> link_do (fst x) (snd x) = y"

lemma access_first:
  assumes "link_do pc q = x" and "access\<^sup>*\<^sup>* x y"
  shows "access\<^sup>*\<^sup>* (pc, q) y"
  by (rule converse_rtranclp_into_rtranclp [OF _ assms(2)]) (simp add: access_def assms(1))

lemma access_last: "link_do pc q = y \<Longrightarrow> access\<^sup>*\<^sup>* (pc, q) y"
  by (rule r_into_rtranclp) (simp add: access_def)

lemma lq_load_Inr: "lq_load p q = (Inr it, q') \<longleftrightarrow> lq_mem q p = Some it \<and> q' = q"
  by (auto simp: lq_load_def split: option.splits)

lemma lq_store_Inr:
  "lq_store p f q = (Inr u, q') \<longleftrightarrow>
     (\<exists>it. lq_mem q p = Some it \<and> q' = q\<lparr>lq_mem := (lq_mem q)(p \<mapsto> f it)\<rparr>)"
  by (auto simp: lq_store_def split: option.splits)

lemma lq_update_Inr: "lq_update f q = (Inr u, q') \<longleftrightarrow> q' = f q"
  by (auto simp: lq_update_def)

lemma bindO_Inr_iff: "bindO m k s = (Inr y, u) \<longleftrightarrow> (\<exists>x t. m s = (Inr x, t) \<and> k x t = (Inr y, u))"
  by (auto simp: bindO_def split: prod.splits sum.splits)

lemma bindP_Inr_iff: "bindP m k s = Some (Inr y, u) \<longleftrightarrow> (\<exists>x t. m s = Some (Inr x, t) \<and> k x t = Some (Inr y, u))"
  by (auto simp: bindP_def split: option.splits prod.splits sum.splits)

lemmas lq_results = lq_load_Inr lq_store_Inr lq_update_Inr bindO_Inr_iff bindP_Inr_iff returns_def

lemmas accesses = with_item_def set_at_def Let_def

section \<open>Putting\<close>

lemma alloc_alone:
  assumes "lq_alloc t q = (Inr x, q')"
  shows "access\<^sup>*\<^sup>* (LPop t, q) (LSent x t, q')"
proof -
  let ?c = "lq_recycle q"
  let ?k = "slot (pc_mask ?c) (pc_pos ?c - 1)"
  let ?old = "pc_block ?c ! ?k"
  have pop: "access\<^sup>*\<^sup>* (if ?old \<noteq> 0 then LReset 0 ?old t else LNew t, q\<lparr>lq_recycle := snd (pc_pop ?c)\<rparr>) y \<Longrightarrow>
    access\<^sup>*\<^sup>* (LPop t, q) y" for y
    by (rule access_first, simp add: Let_def, rule access_first) (simp_all add: pc_pop_def Let_def)
  show ?thesis
  proof (cases "?old = 0")
    case True
    with assms have "q' = snd (put_do (LNew t) (q\<lparr>lq_recycle := snd (pc_pop ?c)\<rparr>))" "x = lq_brk q"
      by (auto simp: lq_alloc_def pc_pop_def Let_def)
    then show ?thesis using True by (intro pop) (simp, rule access_last, simp)
  next
    case False
    with assms obtain it where it: "x = ?old" "lq_mem q ?old = Some it"
      "q' = q\<lparr>lq_recycle := snd (pc_pop ?c), lq_mem := (lq_mem q)(?old \<mapsto>
        it\<lparr>it_claimed := False, it_needrel := False, it_next := 0, it_prev := 0, it_payload := t\<rparr>)\<rparr>"
      by (auto simp: lq_alloc_def pc_pop_def Let_def lq_results)
    note fields = accesses it(1,2) reset_field_def
    have "access\<^sup>*\<^sup>* (LReset 0 ?old t, q\<lparr>lq_recycle := snd (pc_pop ?c)\<rparr>) (LSent x t, q')"
      by (rule access_first, simp add: fields, rule access_first, simp add: fields, rule access_first,
          simp add: fields, rule access_first, simp add: fields, rule access_last, simp add: fields it(3))
    with False show ?thesis by (intro pop) simp
  qed
qed

lemma count_alone: "q' = q\<lparr>lq_count := lq_count q + 1\<rparr> \<Longrightarrow> access\<^sup>*\<^sup>* (LCount, q) (LIdle, q')"
  by (rule access_last) simp

lemma put_alone:
  assumes "lq_put t q = (Inr (), q')"
  shows "access\<^sup>*\<^sup>* (LPop t, q) (LIdle, q')"
proof -
  obtain x q1 where a: "lq_alloc t q = (Inr x, q1)"
    and b: "bindO (lq_store x (\<lambda>it. it\<lparr>it_next := lq_ptr q1\<rparr>)) (\<lambda>_.
          bindO (if lq_ptr q1 \<noteq> 0 then lq_store (lq_ptr q1) (\<lambda>it. it\<lparr>it_prev := x\<rparr>)
                 else lq_update (\<lambda>q. q\<lparr>lq_lst := x\<rparr>)) (\<lambda>_.
          lq_update (\<lambda>q. q\<lparr>lq_count := lq_count q + 1\<rparr>))) (q1\<lparr>lq_sent := lq_sent q1 + 1, lq_ptr := x\<rparr>) = (Inr (), q')"
    using assms unfolding lq_put_def by (auto simp: Let_def bindO_Inr_iff)
  let ?q2 = "q1\<lparr>lq_sent := lq_sent q1 + 1, lq_ptr := x\<rparr>"
  obtain it q3 where n: "lq_mem q1 x = Some it" "q3 = ?q2\<lparr>lq_mem := (lq_mem q1)(x \<mapsto> it\<lparr>it_next := lq_ptr q1\<rparr>)\<rparr>"
    and c: "bindO (if lq_ptr q1 \<noteq> 0 then lq_store (lq_ptr q1) (\<lambda>it. it\<lparr>it_prev := x\<rparr>)
                 else lq_update (\<lambda>q. q\<lparr>lq_lst := x\<rparr>)) (\<lambda>_.
          lq_update (\<lambda>q. q\<lparr>lq_count := lq_count q + 1\<rparr>)) q3 = (Inr (), q')"
    using b by (auto simp: bindO_Inr_iff lq_store_Inr)
  have "access\<^sup>*\<^sup>* (LPrev x (lq_ptr q1), q3) (LIdle, q')"
  proof (cases "lq_ptr q1 = 0")
    case True
    with c have "q' = q3\<lparr>lq_lst := x, lq_count := lq_count q3 + 1\<rparr>" by (simp add: lq_results)
    with True show ?thesis by (intro access_first [OF _ count_alone [of _ "q3\<lparr>lq_lst := x\<rparr>"]]) simp_all
  next
    case False
    with c obtain it' where "lq_mem q3 (lq_ptr q1) = Some it'"
      "q' = q3\<lparr>lq_mem := (lq_mem q3)(lq_ptr q1 \<mapsto> it'\<lparr>it_prev := x\<rparr>), lq_count := lq_count q3 + 1\<rparr>"
      by (auto simp: lq_results)
    with False show ?thesis
      by (intro access_first [OF _ count_alone [of _ "q3\<lparr>lq_mem := (lq_mem q3)(lq_ptr q1 \<mapsto> it'\<lparr>it_prev := x\<rparr>)\<rparr>"]])
        (simp_all add: accesses)
  qed
  then have "access\<^sup>*\<^sup>* (LNext x (lq_ptr q1), ?q2) (LIdle, q')"
    by (rule access_first [rotated]) (simp add: accesses n)
  then have "access\<^sup>*\<^sup>* (LSwap x t, q1\<lparr>lq_sent := lq_sent q1 + 1\<rparr>) (LIdle, q')"
    by (rule access_first [rotated]) simp
  then have "access\<^sup>*\<^sup>* (LSent x t, q1) (LIdle, q')" by (rule access_first [rotated]) simp
  with alloc_alone [OF a] show ?thesis by (rule rtranclp_trans)
qed

section \<open>Getting\<close>

lemma push_alone:
  assumes "lq_recycle_push n q = (Inr (), q')"
  shows "access\<^sup>*\<^sup>* (GPush cur n n', q) (GTake cur n', q')"
proof -
  let ?c = "lq_recycle q"
  let ?k = "slot (pc_mask ?c) (pc_pos ?c)"
  let ?old = "pc_block ?c ! ?k" and ?q1 = "q\<lparr>lq_recycle := snd (pc_push n ?c)\<rparr>"
  have "access\<^sup>*\<^sup>* (if ?old \<noteq> 0 then GFree cur n' ?old else GTake cur n', ?q1) (GTake cur n', q')"
  proof (cases "?old = 0")
    case True
    with assms show ?thesis by (simp add: lq_recycle_push_def pc_push_def Let_def)
  next
    case False
    with assms obtain it where "lq_mem ?q1 ?old = Some it" "q' = ?q1\<lparr>lq_mem := (lq_mem ?q1)(?old := None)\<rparr>"
      by (auto simp: lq_recycle_push_def pc_push_def Let_def lq_free_def split: option.splits)
    with False show ?thesis by (simp, intro access_last) simp
  qed
  then have "access\<^sup>*\<^sup>* (GPushSwap cur n n' ?k, q\<lparr>lq_recycle := ?c\<lparr>pc_pos := pc_pos ?c + 1\<rparr>\<rparr>) (GTake cur n', q')"
    by (rule access_first [rotated]) (simp add: pc_push_def Let_def)
  then show ?thesis by (rule access_first [rotated]) (simp add: Let_def)
qed

lemma dealloc_alone:
  assumes "dealloc_loop n cnt q = Some (Inr m, q')"
  shows "access\<^sup>*\<^sup>* (GTake cur n, q) (GCut cur, q')"
proof -
  have "\<forall>m q'. r = (Inr m, q') \<longrightarrow> access\<^sup>*\<^sup>* (GTake cur n, q) (GCut cur, q')"
    if "dealloc_loop n cnt q = Some r" for r
    using _ that
  proof (rule dealloc_loop.raw_induct)
    fix loop n and cnt :: usize and q :: "'a link_queue" and r
    assume IH: "\<And>n cnt q r. loop n cnt q = Some r \<Longrightarrow>
        \<forall>m q'. r = (Inr m, q') \<longrightarrow> access\<^sup>*\<^sup>* (GTake cur n, q) (GCut cur, q')"
      and r: "(if n = 0 then Some (Inr cnt, q)
        else case lq_load n q of (Inl f, q1) \<Rightarrow> Some (Inl f, q1)
             | (Inr it, q1) \<Rightarrow>
                 case lq_recycle_push n q1 of
                 (Inl f, q2) \<Rightarrow> Some (Inl f, q2)
                 | (Inr x, q2) \<Rightarrow> loop (it_next it) (cnt + 1) q2) = Some r"
    show "\<forall>m q'. r = (Inr m, q') \<longrightarrow> access\<^sup>*\<^sup>* (GTake cur n, q) (GCut cur, q')"
    proof (intro allI impI)
      fix m q' assume q': "r = (Inr m, q')"
      show "access\<^sup>*\<^sup>* (GTake cur n, q) (GCut cur, q')"
      proof (cases "n = 0")
        case True
        with r q' show ?thesis by (intro access_last) simp
      next
        case False
        with r q' obtain it q2 where it: "lq_mem q n = Some it" "lq_recycle_push n q = (Inr (), q2)"
          "loop (it_next it) (cnt + 1) q2 = Some (Inr m, q')"
          by (auto simp: lq_load_def split: option.splits prod.splits sum.splits)
        have "access\<^sup>*\<^sup>* (GTake cur (it_next it), q2) (GCut cur, q')" using IH [OF it(3)] by blast
        with push_alone [OF it(2)] have "access\<^sup>*\<^sup>* (GPush cur n (it_next it), q) (GCut cur, q')"
          by (rule rtranclp_trans)
        then show ?thesis by (rule access_first [rotated]) (simp add: accesses it(1) False)
      qed
    qed
  qed
  with assms show ?thesis by blast
qed

lemma release_alone:
  assumes "release_tail cur q = Some (Inr (), q')"
  shows "access\<^sup>*\<^sup>* (GCheck cur, q) (GStart cur, q')"
proof -
  obtain it where it: "lq_mem q cur = Some it"
    and r: "(if it_needrel it \<and> \<not> lq_doingrel q
       then bindP (taildealloc cur) (\<lambda>_. returns (lq_update (\<lambda>q. q\<lparr>lq_doingrel := False\<rparr>)))
              (q\<lparr>lq_doingrel := True\<rparr>)
       else Some (Inr (), q)) = Some (Inr (), q')"
    using assms unfolding release_tail_def by (auto simp: lq_results)
  have check: "access\<^sup>*\<^sup>* (if it_needrel it then GLock cur else GStart cur, q) y \<Longrightarrow> access\<^sup>*\<^sup>* (GCheck cur, q) y" for y
    by (rule access_first) (simp_all add: accesses it)
  show ?thesis
  proof (cases "it_needrel it \<and> \<not> lq_doingrel q")
    case True
    let ?q1 = "q\<lparr>lq_doingrel := True\<rparr>"
    obtain m q2 it2 where 2: "dealloc_loop (it_next it) 0 ?q1 = Some (Inr m, q2)" "lq_mem q2 cur = Some it2"
      "q' = q2\<lparr>lq_mem := (lq_mem q2)(cur \<mapsto> it2\<lparr>it_next := 0\<rparr>), lq_doingrel := False\<rparr>"
      using r True it by (auto simp: taildealloc_def lq_results)
    have "access\<^sup>*\<^sup>* (GCut cur, q2) (GStart cur, q')"
      by (rule access_first [OF _ access_last], simp add: accesses 2(2), simp add: 2(3))
    with dealloc_alone [OF 2(1)] have "access\<^sup>*\<^sup>* (GTake cur (it_next it), ?q1) (GStart cur, q')"
      by (rule rtranclp_trans)
    then have "access\<^sup>*\<^sup>* (GTail cur, ?q1) (GStart cur, q')" by (rule access_first [rotated]) (simp add: accesses it)
    then have "access\<^sup>*\<^sup>* (GLock cur, q) (GStart cur, q')" by (rule access_first [rotated]) (simp add: True)
    with True show ?thesis by (intro check) simp
  next
    case False
    with r have "q' = q" by (simp split: if_splits)
    with False show ?thesis by (intro check) (auto intro: access_last)
  qed
qed

lemma start_alone:
  assumes "start_at cur q = (Inr n, q')"
  shows "access\<^sup>*\<^sup>* (GStart cur, q) (GClaim True n, q')"
proof -
  obtain it where it: "lq_mem q cur = Some it"
    and n: "if it_needrel it then q' = move_lst cur n q \<and> n = it_prev it else q' = q \<and> n = cur"
    using assms unfolding start_at_def by (auto simp: lq_results retO_def split: if_splits)
  show ?thesis
  proof (cases "it_needrel it")
    case True
    have "access\<^sup>*\<^sup>* (GStartPrev cur, q) (GClaim True n, q')"
      by (rule access_first [OF _ access_last], simp add: accesses it, use True n in simp)
    then show ?thesis by (rule access_first [rotated]) (use True it in \<open>simp add: accesses\<close>)
  qed (use n it in \<open>auto simp: accesses intro: access_last\<close>)
qed

lemma take_alone:
  assumes "take_claimed first cur q = (Inr r, q')"
  shows "access\<^sup>*\<^sup>* (GLen first cur, q) (GDone r, q')"
proof -
  let ?q1 = "q\<lparr>lq_count := lq_count q - 1\<rparr>"
  obtain it where it: "lq_mem q cur = Some it"
    and e: "q' = (let q2 = (if first then move_lst cur (it_prev it) ?q1 else ?q1)
        in q2\<lparr>lq_mem := (lq_mem q)(cur \<mapsto> it\<lparr>it_needrel := True\<rparr>), lq_needrel := lq_needrel q + 1,
             lq_rinside := lq_rinside q - 1\<rparr>)" "r = Some (it_payload it)"
    using assms unfolding take_claimed_def
    by (auto simp: lq_results retO_def move_lst_def split: if_splits)
  let ?q2 = "if first then move_lst cur (it_prev it) ?q1 else ?q1"
  have m: "lq_mem ?q2 = lq_mem q" "lq_needrel ?q2 = lq_needrel q" "lq_rinside ?q2 = lq_rinside q"
    by (simp_all add: move_lst_def)
  obtain q2 where q2: "q2 = ?q2" by blast
  note m = m [folded q2]
  have "q' = q2\<lparr>lq_mem := (lq_mem q)(cur \<mapsto> it\<lparr>it_needrel := True\<rparr>), lq_needrel := lq_needrel q + 1,
      lq_rinside := lq_rinside q - 1\<rparr>"
    unfolding q2 e(1) Let_def ..
  then have "access\<^sup>*\<^sup>* (GRead cur, q2) (GDone r, q')"
    by (intro access_first [OF _ access_first [OF _ access_first [OF _ access_last]]],
        simp add: accesses it m, simp add: accesses it m, simp, simp add: e(2) m)
  moreover have "access\<^sup>*\<^sup>* (GLen first cur, q) (GRead cur, q2)"
  proof (cases first)
    case True
    then show ?thesis
      by (intro access_first [OF _ access_first [OF _ access_last]], simp, simp add: accesses it, simp add: q2)
  next
    case False
    then show ?thesis by (intro access_last) (simp add: q2)
  qed
  ultimately show ?thesis by (rule rtranclp_trans [rotated])
qed

lemma claim_alone:
  assumes "claim_loop first cur q = Some (Inr v, q')"
  shows "access\<^sup>*\<^sup>* (GClaim first cur, q) (GDone v, q')"
proof -
  have "\<forall>v q'. r = (Inr v, q') \<longrightarrow> access\<^sup>*\<^sup>* (GClaim first cur, q) (GDone v, q')"
    if "claim_loop first cur q = Some r" for r
    using _ that
  proof (rule claim_loop.raw_induct)
    fix loop first cur and q :: "'a link_queue" and r
    assume IH: "\<And>first cur q r. loop first cur q = Some r \<Longrightarrow>
        \<forall>v q'. r = (Inr v, q') \<longrightarrow> access\<^sup>*\<^sup>* (GClaim first cur, q) (GDone v, q')"
      and r: "(if cur = 0 then Some (Inr None, q\<lparr>lq_rinside := lq_rinside q - 1\<rparr>)
        else case lq_load cur q of (Inl f, q1) \<Rightarrow> Some (Inl f, q1)
             | (Inr it, q1) \<Rightarrow>
                 if \<not> it_claimed it
                 then Some (bindO (lq_store cur (it_claimed_update (\<lambda>_. True))) (\<lambda>_. take_claimed first cur) q1)
                 else loop False (it_prev it) q1) = Some r"
    show "\<forall>v q'. r = (Inr v, q') \<longrightarrow> access\<^sup>*\<^sup>* (GClaim first cur, q) (GDone v, q')"
    proof (intro allI impI)
      fix v q' assume q': "r = (Inr v, q')"
      show "access\<^sup>*\<^sup>* (GClaim first cur, q) (GDone v, q')"
      proof (cases "cur = 0")
        case True
        with r q' show ?thesis by (intro access_first [OF _ access_last], simp, simp)
      next
        case False
        with r q' obtain it where it: "lq_mem q cur = Some it"
          by (auto simp: lq_load_def split: option.splits)
        show ?thesis
        proof (cases "it_claimed it")
          case True
          with r q' it False have "loop False (it_prev it) q = Some (Inr v, q')" by (simp add: lq_load_def)
          with IH have "access\<^sup>*\<^sup>* (GClaim False (it_prev it), q) (GDone v, q')" by blast
          then have "access\<^sup>*\<^sup>* (GBack cur, q) (GDone v, q')" by (rule access_first [rotated]) (simp add: accesses it)
          then show ?thesis by (rule access_first [rotated]) (simp add: it False True)
        next
          case un: False
          with r q' it False have
            "take_claimed first cur (q\<lparr>lq_mem := (lq_mem q)(cur \<mapsto> it\<lparr>it_claimed := True\<rparr>)\<rparr>) = (Inr v, q')"
            by (auto simp: lq_load_def lq_store_def)
          from take_alone [OF this] show ?thesis by (rule access_first [rotated]) (simp add: it False un)
        qed
      qed
    qed
  qed
  with assms show ?thesis by blast
qed

lemma get_alone:
  assumes "lq_get q = Some (Inr r, q')"
  shows "access\<^sup>*\<^sup>* (GEnter, q) (GDone r, q')"
proof -
  let ?q1 = "q\<lparr>lq_rinside := lq_rinside q + 1\<rparr>"
  have "access\<^sup>*\<^sup>* (GLst, ?q1) (GDone r, q')"
  proof (cases "lq_lst q = 0")
    case True
    with assms show ?thesis by (intro access_last) (auto simp: lq_get_def)
  next
    case False
    with assms obtain q2 n q3 where g: "release_tail (lq_lst q) ?q1 = Some (Inr (), q2)"
      "start_at (lq_lst q) q2 = (Inr n, q3)" "claim_loop True n q3 = Some (Inr r, q')"
      by (auto simp: lq_get_def Let_def bindP_Inr_iff returns_def)
    from release_alone [OF g(1)] start_alone [OF g(2)] have "access\<^sup>*\<^sup>* (GCheck (lq_lst q), ?q1) (GClaim True n, q3)"
      by (rule rtranclp_trans)
    from this claim_alone [OF g(3)] have "access\<^sup>*\<^sup>* (GCheck (lq_lst q), ?q1) (GDone r, q')"
      by (rule rtranclp_trans)
    then show ?thesis by (rule access_first [rotated]) (simp add: False)
  qed
  then show ?thesis by (rule access_first [rotated]) simp
qed

section \<open>Runs of one thread\<close>

text \<open>
  A thread that calls \<open>put\<close> and \<open>get\<close> in turn and makes all accesses of each call, until it is idle again or
  has the result of the \<open>get\<close>.
\<close>

inductive alone_run :: "'a qop list \<Rightarrow> 'a link_queue \<Rightarrow> 'a option list \<Rightarrow> 'a link_queue \<Rightarrow> bool" where
  ar_nil: "alone_run [] q [] q"
| ar_put: "access\<^sup>*\<^sup>* (LPop t, q) (LIdle, q1) \<Longrightarrow> alone_run ops q1 rs q2 \<Longrightarrow> alone_run (Put t # ops) q rs q2"
| ar_get: "access\<^sup>*\<^sup>* (GEnter, q) (GDone r, q1) \<Longrightarrow> alone_run ops q1 rs q2 \<Longrightarrow> alone_run (Get # ops) q (r # rs) q2"

inductive_cases alone_runE: "alone_run [] q rs q'" "alone_run (Put t # ops) q rs q'" "alone_run (Get # ops) q rs q'"

text \<open>Accesses are deterministic, and a thread that is idle or has a result stays so.\<close>

lemma access_unique:
  assumes "access\<^sup>*\<^sup>* x y" and "access\<^sup>*\<^sup>* x z" and "\<And>u. access y u \<Longrightarrow> u = y" and "\<And>u. access z u \<Longrightarrow> u = z"
  shows "y = z"
proof -
  have stays: "u = v" if "access\<^sup>*\<^sup>* v u" "\<And>w. access v w \<Longrightarrow> w = v" for u v :: "'a link_pc \<times> 'a link_queue"
    using that(1) by (induction rule: rtranclp_induct) (use that(2) in auto)
  have "access\<^sup>*\<^sup>* y z \<or> access\<^sup>*\<^sup>* z y"
    using assms(1,2)
  proof (induction rule: converse_rtranclp_induct)
    case (step v w)
    show ?case
    proof (cases "z = v")
      case True
      with step.hyps show ?thesis by (metis converse_rtranclp_into_rtranclp)
    next
      case False
      with step.prems obtain w' where "access v w'" "access\<^sup>*\<^sup>* w' z" by (metis converse_rtranclpE)
      moreover from this step.hyps(1) have "w' = w" by (simp add: access_def)
      ultimately show ?thesis using step.IH by blast
    qed
  qed simp
  with stays [of y z] stays [of z y] assms(3,4) show ?thesis by auto
qed

lemma alone_run_unique: "alone_run ops q rs q1 \<Longrightarrow> alone_run ops q rs' q2 \<Longrightarrow> rs' = rs \<and> q2 = q1"
proof (induction arbitrary: rs' q2 rule: alone_run.induct)
  case (ar_put t q q1 ops rs q2 rs' q3)
  from ar_put.prems obtain q1' where g: "access\<^sup>*\<^sup>* (LPop t, q) (LIdle, q1')" "alone_run ops q1' rs' q3"
    by (auto elim: alone_runE)
  have "q1' = q1" using access_unique [OF g(1) ar_put.hyps(1)] by (simp add: access_def)
  with g(2) ar_put.IH show ?case by auto
next
  case (ar_get q r q1 ops rs q2 rs' q3)
  from ar_get.prems obtain r' rs1 q1' where g: "rs' = r' # rs1" "access\<^sup>*\<^sup>* (GEnter, q) (GDone r', q1')"
    "alone_run ops q1' rs1 q3"
    by (auto elim: alone_runE)
  have "r' = r \<and> q1' = q1" using access_unique [OF g(2) ar_get.hyps(1)] by (simp add: access_def)
  with g(1,3) ar_get.IH show ?case by auto
qed (auto elim: alone_runE)

lemma alone_run_list: "lq_ok q \<Longrightarrow> \<exists>q'. alone_run ops q (fst (list_run ops (lq_items q))) q'"
proof (induction ops arbitrary: q)
  case Nil
  then show ?case by (auto intro: ar_nil)
next
  case (Cons op ops)
  show ?case
  proof (cases op)
    case (Put t)
    from lq_put_ok [OF Cons.prems, of t] Cons.IH [of "lq_put1 t q"] show ?thesis
      unfolding Put by (auto intro: ar_put [OF put_alone])
  next
    case Get
    obtain r q' where g: "lq_get q = Some (Inr r, q')" "lq_ok q'"
      "case lq_items q of [] \<Rightarrow> r = None \<and> lq_items q' = [] | x # xs \<Rightarrow> r = Some x \<and> lq_items q' = xs"
      using lq_get_ok [OF Cons.prems] by blast
    then have "fst (list_run (Get # ops) (lq_items q)) = r # fst (list_run ops (lq_items q'))"
      by (cases "lq_items q") (auto split: prod.split)
    with Cons.IH [OF g(2)] ar_get [OF get_alone [OF g(1)]] show ?thesis unfolding Get by auto
  qed
qed

section \<open>Properties\<close>

text \<open>
  C32. The atomic accesses of \<open>put\<close> and \<open>get\<close> implement a first-in first-out queue. When one thread makes any
  sequence of calls on a new queue, each with all of its accesses, every call comes to its end, and the
  results of the gets are those of the list queue and no others; no access goes to memory that is not
  allocated (the thread would never come to an end).
\<close>

theorem link_accesses_fifo:
  "(\<exists>q. alone_run ops (lq_new g) rs q) \<longleftrightarrow> rs = fst (list_run ops [])"
proof -
  obtain q where q: "alone_run ops (lq_new g) (fst (list_run ops [])) q"
    using alone_run_list [OF lq_ok_new, of ops g] by (auto simp: lq.items_empty)
  show ?thesis
  proof
    assume "\<exists>q. alone_run ops (lq_new g) rs q"
    then obtain q' where "alone_run ops (lq_new g) rs q'" ..
    from alone_run_unique [OF q this] show "rs = fst (list_run ops [])" by simp
  next
    assume "rs = fst (list_run ops [])"
    with q show "\<exists>q. alone_run ops (lq_new g) rs q" by blast
  qed
qed

end
