(* ===== verification/Link_Liveness.thy ===== *)
theory Link_Liveness
  imports Link_Safety Link_Alone
begin

text \<open>
  A get of the linked queue ends when the consumer is left alone, and then it has the next value, if one was
  put: provided that no put stopped between its swap and its link. A put that did hides its own item and all
  later ones.
\<close>

section \<open>A thread left alone\<close>

text \<open>No item of the list waits for a thread to link it.\<close>

definition settled :: "'a ghost \<Rightarrow> bool" where
  "settled g \<longleftrightarrow> (\<forall>x i. g_place g x \<noteq> InList (Some i))"

text \<open>The get that is at \<open>pc\<close> ends if no other thread makes an access, with a value if \<open>some\<close>.\<close>

definition ends :: "bool \<Rightarrow> 'a link_pc \<Rightarrow> 'a link_queue \<Rightarrow> bool" where
  "ends some pc q \<longleftrightarrow> (\<exists>v q'. access\<^sup>*\<^sup>* (pc, q) (GDone v, q') \<and> (some \<longrightarrow> v \<noteq> None))"

lemma ends_step: "link_do pc q = (pc', q') \<Longrightarrow> ends some pc' q' \<Longrightarrow> ends some pc q"
  unfolding ends_def using access_first by metis

lemma ends_done: "(some \<Longrightarrow> v \<noteq> None) \<Longrightarrow> ends some (GDone v) q"
  unfolding ends_def by blast

definition some_left :: "'a ghost \<Rightarrow> bool" where
  "some_left g \<longleftrightarrow> g_taken g < length (g_list g)"

text \<open>Links of a settled list.\<close>

lemma settled_links:
  assumes sh: "shared_inv q g" and se: "settled g"
  shows "Suc k < length (g_list g) \<Longrightarrow> prv q (g_list g ! k) = g_list g ! Suc k"
    and "k < length (g_list g) \<Longrightarrow> \<not> Suc k < length (g_list g) \<Longrightarrow> prv q (g_list g ! k) = 0"
    and "g_list g \<noteq> [] \<Longrightarrow> lq_lst q \<noteq> 0"
proof -
  have l: "linker_inv q g" using sh by (simp add: shared_inv_def)
  show "prv q (g_list g ! k) = g_list g ! Suc k" if k: "Suc k < length (g_list g)"
  proof -
    have "prv q (g_list g ! k) \<noteq> 0"
    proof
      assume "prv q (g_list g ! k) = 0"
      with k l obtain i where "g_place g (g_list g ! Suc k) = InList (Some i)" unfolding linker_inv_def by blast
      with se show False by (simp add: settled_def)
    qed
    then show ?thesis using list_invD(3) [OF sh, of k] k by simp
  qed
  show "prv q (g_list g ! k) = 0" if "k < length (g_list g)" "\<not> Suc k < length (g_list g)"
    using list_invD(3) [OF sh that(1)] that(2) by blast
  show "lq_lst q \<noteq> 0" if ne: "g_list g \<noteq> []"
  proof
    assume "lq_lst q = 0"
    with ne l obtain i where "g_place g (hd (g_list g)) = InList (Some i)" unfolding linker_inv_def by blast
    with se show False by (simp add: settled_def)
  qed
qed

lemma settled_freed: "settled g \<Longrightarrow> settled (g\<lparr>g_place := (g_place g)(a := Nowhere)\<rparr>)"
  by (simp add: settled_def)

lemma taken_le: "shared_inv q g \<Longrightarrow> g_taken g \<le> length (g_list g)"
  by (simp add: shared_inv_def ends_inv_def)

section \<open>The accesses of a get\<close>

lemma read_ends: "lq_mem q cur = Some it \<Longrightarrow> ends some (GRead cur) q"
  by (rule ends_step, simp add: with_item_def, rule ends_step, simp add: set_at_def,
      rule ends_step, simp, rule ends_step, simp, rule ends_done, simp)

lemma claimed_ends:
  assumes "lq_mem q cur = Some it"
  shows "ends some (GLen first cur) q"
proof -
  let ?q = "q\<lparr>lq_count := lq_count q - 1\<rparr>"
  have m: "lq_mem (move_lst cur n ?q) = lq_mem q" for n by (simp add: move_lst_def)
  have "ends some (if first then GPrev cur else GRead cur) ?q"
  proof (cases first)
    case True
    have "ends some (GMove cur (it_prev it)) ?q"
      by (rule ends_step, simp, rule read_ends, simp add: m assms)
    with True show ?thesis by (simp add: ends_step [of "GPrev cur"] with_item_def assms)
  qed (simp add: read_ends assms)
  then show ?thesis by (rule ends_step [rotated]) simp
qed

lemma none_ends: "ends False GNone q"
  by (rule ends_step, simp, rule ends_done, simp)

lemma claim_ends:
  assumes sh: "shared_inv q g" and se: "settled g" and "k \<le> g_taken g" and "k < length (g_list g)"
  shows "ends (some_left g) (GClaim first (g_list g ! k)) q"
  using assms(3,4)
proof (induction "g_taken g - k" arbitrary: k first)
  case 0
  note li = listed_item [OF sh nth_mem [OF 0(3)]] and un = list_invD(1) [OF sh 0(3)]
  show ?case
    by (rule ends_step, simp only: live_access(3) [OF li(1)], use 0 li(2) un in simp,
        rule claimed_ends, simp)
next
  case (Suc n)
  let ?x = "g_list g ! k"
  note li = listed_item [OF sh nth_mem [OF Suc(4)]] and un = list_invD(1) [OF sh Suc(4)]
  have "ends (some_left g) (GClaim False (prv q ?x)) q"
  proof (cases "Suc k < length (g_list g)")
    case True
    with Suc show ?thesis by (simp add: settled_links(1) [OF sh se True])
  next
    case False
    then have "\<not> some_left g" using Suc(2,4) by (simp add: some_left_def)
    moreover have "ends False (GClaim False 0) q" by (rule ends_step [OF _ none_ends]) simp
    ultimately show ?thesis using settled_links(2) [OF sh se Suc(4) False] by simp
  qed
  then have "ends (some_left g) (GBack ?x) q" by (rule ends_step [rotated]) (simp add: live_access(1) [OF li(1)])
  then show ?case
    by (rule ends_step [rotated]) (use Suc(2) li(2) un in \<open>simp only: live_access(3) [OF li(1)], simp\<close>)
qed

lemma start_ends:
  assumes sh: "shared_inv q g" and se: "settled g" and re: "reached q g cur"
  shows "ends (some_left g) (GStart cur) q"
proof -
  obtain k where k: "k < length (g_list g)" "cur = g_list g ! k" "k \<le> g_taken g" using re by (auto simp: reached_def)
  note live = live_access(1) [OF listed_item(1) [OF sh reached_listed [OF re]]]
  show ?thesis
  proof (cases "it_needrel (item q cur)")
    case True
    let ?n = "prv q cur"
    have tk: "taken_item q g cur" by (rule reached_needrel [OF sh re True])
    then have lt: "k < g_taken g" using list_invD(1) [OF sh k(1)] by (simp add: taken_item_def k(2))
    have sh': "shared_inv (move_lst cur ?n q) g" by (rule move_step(1) [OF sh tk]) simp
    have "ends (some_left g) (GClaim True ?n) (move_lst cur ?n q)"
    proof (cases "Suc k < length (g_list g)")
      case True
      with claim_ends [OF sh' se _ True] lt show ?thesis by (simp add: k(2) settled_links(1) [OF sh se True])
    next
      case False
      then have "\<not> some_left g" using lt by (simp add: some_left_def)
      moreover have "ends False (GClaim True 0) q'" for q' :: "'a link_queue" by (rule ends_step [OF _ none_ends]) simp
      ultimately show ?thesis using settled_links(2) [OF sh se k(1) False] by (simp add: k(2))
    qed
    then have "ends (some_left g) (GStartMove cur ?n) q" by (rule ends_step [rotated]) simp
    then have "ends (some_left g) (GStartPrev cur) q" by (rule ends_step [rotated]) (simp add: live)
    then show ?thesis by (rule ends_step [rotated]) (simp add: live True)
  next
    case False
    from claim_ends [OF sh se k(3,1), of True, folded k(2)] show ?thesis
      by (rule ends_step [rotated]) (simp add: live False)
  qed
qed

text \<open>Releasing the tail: one item less each time around.\<close>

lemma release_ends:
  assumes "shared_inv q g" and "settled g" and "releasing q g i cur"
  shows "ends (some_left g) (GTake cur (hd (g_tail g @ [0]))) q"
  using assms
proof (induction "length (g_tail g)" arbitrary: q g)
  case 0
  note sh = 0(2) and rl = 0(4)
  note live = live_access(2) [OF listed_item(1) [OF sh]]
  have cur: "cur \<in> set (g_list g)" using rl by (auto simp: releasing_def)
  note cut = cut_step [OF sh rl]
  let ?q = "with_mem cur ((item q cur)\<lparr>it_next := 0\<rparr>) q" and ?g = "g\<lparr>g_rel := None\<rparr>"
  have un: "shared_inv (?q\<lparr>lq_doingrel := False\<rparr>) ?g" "reached (?q\<lparr>lq_doingrel := False\<rparr>) ?g cur"
    using unlock_step [OF cut(1,2)] 0(1) by simp_all
  have "settled ?g" "some_left ?g = some_left g" using 0(3) by (simp_all add: settled_def some_left_def)
  with start_ends [OF un(1) _ un(2)] have "ends (some_left g) (GStart cur) (?q\<lparr>lq_doingrel := False\<rparr>)" by simp
  then have "ends (some_left g) (GUnlock cur) ?q" by (rule ends_step [rotated]) simp
  then have "ends (some_left g) (GCut cur) q" by (rule ends_step [rotated]) (simp add: live [OF cur])
  then show ?case by (rule ends_step [rotated]) (use 0(1) in simp)
next
  case (Suc n)
  note sh = Suc(3) and rl = Suc(5)
  let ?c = "lq_recycle q" and ?x = "hd (g_tail g)"
  let ?k = "slot (pc_mask ?c) (pc_pos ?c)" and ?n = "hd (tl (g_tail g) @ [0])"
  let ?q = "q\<lparr>lq_recycle := ?c\<lparr>pc_pos := pc_pos ?c + 1\<rparr>\<rparr>"
  have ne: "g_tail g \<noteq> []" using Suc(2) by auto
  have x: "lq_mem q ?x = Some (item q ?x)" "?x \<noteq> 0" using tail_item [OF sh, of ?x] ne by simp_all
  have nx: "nxt q ?x = ?n" using rl ne by (cases "g_tail g") (simp_all add: releasing_def)
  have same: "same_queue q ?q" by (simp add: same_queue_def)
  note eq = same_queue_simps [OF same]
  have sh': "shared_inv ?q g" using sh by (simp add: eq(1))
  have rl': "releasing ?q g i cur" using rl by (simp add: releasing_def)
  let ?c1 = "lq_recycle ?q"
  let ?old = "pc_block ?c1 ! ?k"
  let ?q1 = "?q\<lparr>lq_recycle := ?c1\<lparr>pc_block := (pc_block ?c1)[?k := ?x]\<rparr>\<rparr>"
  let ?g1 = "g\<lparr>g_tail := tl (g_tail g), g_place := (if ?old \<noteq> 0
    then (g_place g)(?x := Cached ?k, ?old := Private i) else (g_place g)(?x := Cached ?k))\<rparr>"
  have k: "?k < length (pc_block ?c1)" using slot_in_cache [OF sh, of "pc_pos ?c"] by simp
  have st: "shared_inv ?q1 ?g1" "releasing ?q1 ?g1 i cur" "?old \<noteq> 0 \<Longrightarrow> g_place ?g1 ?old = Private i"
    by (rule push_step(1-3) [OF sh' rl' ne k]; assumption)+
  have g1: "settled ?g1" "some_left ?g1 = some_left g" "length (g_tail ?g1) = n"
    using Suc(2,4) by (simp_all add: settled_def some_left_def)
  have "ends (some_left g) (if ?old \<noteq> 0 then GFree cur ?n ?old else GTake cur ?n) ?q1"
  proof (cases "?old = 0")
    case True
    have t: "g_tail ?g1 = tl (g_tail g)" by simp
    have "ends (some_left ?g1) (GTake cur (hd (g_tail ?g1 @ [0]))) ?q1"
      by (rule Suc(1) [OF _ st(1) g1(1) st(2)]) (simp only: g1(3))
    from this [unfolded g1(2) t] True show ?thesis by simp
  next
    case False
    let ?g2 = "?g1\<lparr>g_place := (g_place ?g1)(?old := Nowhere)\<rparr>"
    note fr = free_step [OF st(1) st(3) [OF False]]
    have g2: "settled ?g2" "some_left ?g2 = some_left g" "length (g_tail ?g2) = n" "g_tail ?g2 = tl (g_tail g)"
      using settled_freed [OF g1(1), of ?old] g1(2,3) by (simp_all add: some_left_def)
    have "ends (some_left ?g2) (GTake cur (hd (g_tail ?g2 @ [0]))) (?q1\<lparr>lq_mem := (lq_mem ?q1)(?old := None)\<rparr>)"
      by (rule Suc(1) [OF _ fr(1) g2(1) fr(3) [OF st(2)]]) (simp only: g2(3))
    then have "ends (some_left g) (GTake cur ?n) (?q1\<lparr>lq_mem := (lq_mem ?q1)(?old := None)\<rparr>)"
      unfolding g2(2,4) .
    from ends_step [OF fr(5) this] False show ?thesis by simp
  qed
  then have "ends (some_left g) (GPushSwap cur ?x ?n ?k) ?q" by (rule ends_step [rotated]) (simp add: Let_def)
  then have "ends (some_left g) (GPush cur ?x ?n) q" by (rule ends_step [rotated]) (simp add: Let_def)
  then show ?case
    by (rule ends_step [rotated]) (use ne x nx in \<open>simp add: live_access(1)\<close>)
qed

lemma check_ends:
  assumes sh: "shared_inv q g" and se: "settled g" and re: "reached q g cur" and be: "behind q g cur"
  shows "ends (some_left g) (GCheck cur) q"
proof -
  note live = live_access(1) [OF listed_item(1) [OF sh reached_listed [OF re]]]
  obtain it where it: "lq_mem q cur = Some it" using listed_item(1) [OF sh reached_listed [OF re]] by blast
  have "ends (some_left g) (GLock cur) q"
  proof (cases "lq_doingrel q")
    case True
    with start_ends [OF sh se re] show ?thesis by (simp add: ends_step [of "GLock cur"])
  next
    case False
    obtain g' where st: "shared_inv (q\<lparr>lq_doingrel := True\<rparr>) g'" "releasing (q\<lparr>lq_doingrel := True\<rparr>) g' 0 cur"
      "nxt q cur = hd (g_tail g' @ [0])"
      "\<And>x j. g_place g' x = InList (Some j) \<Longrightarrow> g_place g x = InList (Some j)"
      "g_gone g' @ map (payload_at q) (g_list g') = g_gone g @ map (payload_at q) (g_list g)"
      "g_gone g' @ map (payload_at q) (take (g_taken g') (g_list g')) =
        g_gone g @ map (payload_at q) (take (g_taken g) (g_list g))"
      by (rule lock_step [OF sh re be False, of 0]) (rule that)
    have "settled g'" using se st(4) unfolding settled_def by blast
    moreover have "some_left g' = some_left g"
      using arg_cong [OF st(5), of length] arg_cong [OF st(6), of length] taken_le [OF sh] taken_le [OF st(1)]
      by (auto simp: some_left_def)
    ultimately have "ends (some_left g) (GTake cur (nxt q cur)) (q\<lparr>lq_doingrel := True\<rparr>)"
      using release_ends [OF st(1) _ st(2)] st(3) by simp
    then have "ends (some_left g) (GTail cur) (q\<lparr>lq_doingrel := True\<rparr>)"
      by (rule ends_step [rotated]) (simp add: with_item_def it)
    then show ?thesis by (rule ends_step [rotated]) (simp add: False)
  qed
  with start_ends [OF sh se re] show ?thesis by (simp add: ends_step [of "GCheck cur"] live)
qed

lemma get_ends:
  assumes sh: "shared_inv q g" and se: "settled g"
  shows "ends (some_left g) GEnter q"
proof -
  let ?q = "q\<lparr>lq_rinside := lq_rinside q + 1\<rparr>"
  have same: "same_queue q ?q" by (simp add: same_queue_def)
  have sh': "shared_inv ?q g" using sh same_queue_simps(1) [OF same] by simp
  have "ends (some_left g) (if lq_lst ?q = 0 then GDone None else GCheck (lq_lst ?q)) ?q"
  proof (cases "lq_lst ?q = 0")
    case True
    then have "g_list g = []" using settled_links(3) [OF sh' se] by blast
    then have "\<not> some_left g" by (simp add: some_left_def)
    with True show ?thesis by (simp add: ends_done)
  next
    case False
    with check_ends [OF sh' se] lst_reached [OF sh' False] show ?thesis by simp
  qed
  then have "ends (some_left g) GLst ?q" by (rule ends_step [rotated]) simp
  then show ?thesis by (rule ends_step [rotated]) simp
qed

section \<open>Schedules\<close>

lemma go_access:
  assumes "r < length (ls_pcs s)" and "\<And>v. ls_pcs s ! r \<noteq> GDone v" and "link_do (ls_pcs s ! r) (ls_q s) = (pc, q)"
  shows "link_exec C False (Go r) s = after s r q pc"
  using assms by (cases "ls_pcs s ! r") (auto simp del: link_do_put link_do_get)

lemma get_pcs:
  assumes "\<not> putting pc \<or> pc = LCrash" and "link_do pc q = (pc', q')"
  shows "(\<not> putting pc' \<or> pc' = LCrash) \<and> sends pc = []"
  using assms by (cases pc) (auto simp: with_item_def set_at_def Let_def split: option.splits if_splits)

lemma go_accesses:
  assumes "access\<^sup>*\<^sup>* x (GDone v, q')" and "r < length (ls_pcs s)" and "x = (ls_pcs s ! r, ls_q s)"
    and "\<not> putting (ls_pcs s ! r) \<or> ls_pcs s ! r = LCrash"
  shows "\<exists>k. let s' = fold (link_exec C False) (replicate k (Go r)) s
    in ls_pcs s' = (ls_pcs s)[r := GDone v] \<and> ls_got s' = ls_got s \<and> ls_sent s' = ls_sent s"
  using assms
proof (induction arbitrary: s rule: converse_rtranclp_induct)
  case base
  then have "(ls_pcs s)[r := GDone v] = ls_pcs s" by (metis fst_conv list_update_id)
  then show ?case by (intro exI [of _ 0]) simp
next
  case (step x y)
  obtain pc q where y: "y = (pc, q)" by fastforce
  have do: "link_do (ls_pcs s ! r) (ls_q s) = (pc, q)" using step.hyps(1) y step.prems(2) by (simp add: access_def)
  note pcs = get_pcs [OF step.prems(3) do]
  show ?case
  proof (cases "\<exists>w. ls_pcs s ! r = GDone w")
    case True
    with do y have "y = (ls_pcs s ! r, ls_q s)" by auto
    from step.IH [OF step.prems(1) this step.prems(3)] show ?thesis .
  next
    case False
    let ?s = "after s r q pc"
    have "\<exists>k. let s' = fold (link_exec C False) (replicate k (Go r)) ?s
        in ls_pcs s' = (ls_pcs ?s)[r := GDone v] \<and> ls_got s' = ls_got ?s \<and> ls_sent s' = ls_sent ?s"
      by (rule step.IH) (use step.prems(1) y pcs in simp_all)
    then obtain k where k: "let s' = fold (link_exec C False) (replicate k (Go r)) ?s
        in ls_pcs s' = (ls_pcs ?s)[r := GDone v] \<and> ls_got s' = ls_got ?s \<and> ls_sent s' = ls_sent ?s" ..
    have "link_exec C False (Go r) s = ?s" by (rule go_access [OF step.prems(1) _ do]) (use False in blast)
    then have "fold (link_exec C False) (replicate (Suc k) (Go r)) s = fold (link_exec C False) (replicate k (Go r)) ?s"
      by (simp del: link_exec.simps)
    moreover have "(ls_pcs ?s)[r := GDone v] = (ls_pcs s)[r := GDone v]" "ls_got ?s = ls_got s" "ls_sent ?s = ls_sent s"
      using conjunct2 [OF pcs] by simp_all
    ultimately show ?thesis using k by (intro exI [of _ "Suc k"]) (simp only: Let_def simp_thms)
  qed
qed

lemma go_return:
  "r < length (ls_pcs s) \<Longrightarrow> ls_pcs s ! r = GDone v \<Longrightarrow>
     link_exec C False (Go r) s = s\<lparr>ls_pcs := (ls_pcs s)[r := LIdle], ls_got := ls_got s @ option_list v\<rparr>"
  by simp

lemma ends_returns:
  assumes "ends some GEnter (ls_q s)" and r: "r < length (ls_pcs s)" "ls_pcs s ! r = LIdle" "r \<in> C"
  shows "\<exists>k v. let s' = fold (link_exec C False) (CallGet r # replicate k (Go r)) s
    in ls_pcs s' = ls_pcs s \<and> ls_got s' = ls_got s @ option_list v \<and> ls_sent s' = ls_sent s \<and>
       (some \<longrightarrow> v \<noteq> None)"
proof -
  let ?s = "s\<lparr>ls_pcs := (ls_pcs s)[r := GEnter]\<rparr>"
  obtain v q' where v: "access\<^sup>*\<^sup>* (GEnter, ls_q s) (GDone v, q')" "some \<longrightarrow> v \<noteq> None"
    using assms(1) unfolding ends_def by blast
  obtain k where k: "let s' = fold (link_exec C False) (replicate k (Go r)) ?s
      in ls_pcs s' = (ls_pcs ?s)[r := GDone v] \<and> ls_got s' = ls_got ?s \<and> ls_sent s' = ls_sent ?s"
    using go_accesses [OF v(1), of r ?s C] r(1) by (simp del: link_exec.simps fold_replicate) blast
  define t where "t = fold (link_exec C False) (replicate k (Go r)) ?s"
  have t: "ls_pcs t = (ls_pcs s)[r := GDone v]" "ls_got t = ls_got s" "ls_sent t = ls_sent s"
    using k by (simp_all add: Let_def t_def [symmetric] del: fold_replicate)
  have "link_exec C False (CallGet r) s = ?s" using r by simp
  then have "fold (link_exec C False) (CallGet r # replicate (Suc k) (Go r)) s = link_exec C False (Go r) t"
    by (simp only: fold_simps fold_replicate funpow.simps comp_apply t_def)
  also have "\<dots> = t\<lparr>ls_pcs := (ls_pcs t)[r := LIdle], ls_got := ls_got t @ option_list v\<rparr>"
    by (rule go_return) (simp_all add: t r(1))
  finally show ?thesis
    using v(2) t r(2) list_update_id [of "ls_pcs s" r]
    by (intro exI [of _ "Suc k"] exI [of _ v]) (simp add: Let_def del: fold_simps link_exec.simps replicate.simps)
qed

section \<open>The next value\<close>

lemma link_step_threads: "(link_step C calm)\<^sup>*\<^sup>* s s' \<Longrightarrow> length (ls_pcs s') = length (ls_pcs s)"
  by (induction rule: rtranclp_induct) (auto elim: link_step.cases)

lemma settledI:
  assumes "link_inv s g" and "\<And>pc a old. pc \<in> set (ls_pcs s) \<Longrightarrow> pc \<noteq> LNext a old \<and> pc \<noteq> LPrev a old"
  shows "settled g"
proof -
  have "\<not> linking x pc" if "pc \<in> set (ls_pcs s)" for x pc
    using assms(2) [OF that] by (cases pc) auto
  then show ?thesis
    using assms(1) unfolding settled_def link_inv_def busy_inv_def by (metis nth_mem)
qed

lemma some_leftI:
  assumes "link_inv s g" and "ls_got s = ls_claimed s" and "length (ls_got s) < length (ls_sent s)"
  shows "some_left g"
proof -
  have "length (ls_sent s) = length (g_gone g) + length (g_list g)"
    "length (ls_claimed s) = length (g_gone g) + g_taken g"
    using assms(1) taken_le [of "ls_q s" g] by (simp_all add: link_inv_def history_inv_def)
  with assms(2,3) show ?thesis by (simp add: some_left_def)
qed

text \<open>
  C10. With one thread that gets and any number that put, whenever that thread is idle and no put stands
  between its swap and its link: if the thread then calls \<open>get\<close> and makes all accesses, the call returns
  after finitely many, with the oldest value that was sent and not got yet, or with nothing if there is none.
\<close>

theorem link_threads_get_returns:
  assumes "(link_step {r} False)\<^sup>*\<^sup>* (link_start n (lq_new garbage)) s" and "r < n" and "ls_pcs s ! r = LIdle"
    and "\<And>pc a old. pc \<in> set (ls_pcs s) \<Longrightarrow> pc \<noteq> LNext a old \<and> pc \<noteq> LPrev a old"
  shows "\<exists>k. let s' = fold (link_exec {r} False) (CallGet r # replicate k (Go r)) s
    in ls_pcs s' = ls_pcs s \<and> ls_got s' = ls_got s @ take 1 (drop (length (ls_got s)) (ls_sent s))"
proof -
  obtain g where g: "link_inv s g" "one_consumer r s" "prefix (ls_got s) (ls_claimed s)"
    using one_consumer_run [OF assms(1)] by blast
  have r: "r < length (ls_pcs s)" using link_step_threads [OF assms(1)] assms(2) by (simp add: link_start_def)
  have sh: "shared_inv (ls_q s) g" using g(1) by (simp add: link_inv_def)
  obtain k v where k: "let s' = fold (link_exec {r} False) (CallGet r # replicate k (Go r)) s
      in ls_pcs s' = ls_pcs s \<and> ls_got s' = ls_got s @ option_list v \<and> ls_sent s' = ls_sent s \<and>
        (some_left g \<longrightarrow> v \<noteq> None)"
    using ends_returns [OF get_ends [OF sh settledI [OF g(1) assms(4)]] r assms(3), of "{r}"] by blast
  let ?s = "fold (link_exec {r} False) (CallGet r # replicate k (Go r)) s"
  have "prefix (ls_got ?s) (ls_sent ?s)"
    by (rule one_consumer_prefix [OF rtranclp_trans [OF assms(1) link_exec_run]])
  then have pre: "prefix (ls_got s @ option_list v) (ls_sent s)" using k by (simp add: Let_def)
  have eq: "ls_got s = ls_claimed s" by (rule one_consumer_all_got [OF g r assms(3)])
  have "option_list v = take 1 (drop (length (ls_got s)) (ls_sent s))"
  proof (cases v)
    case None
    then have "\<not> length (ls_got s) < length (ls_sent s)" using some_leftI [OF g(1) eq] k by (auto simp: Let_def)
    with None show ?thesis by simp
  next
    case (Some t)
    with pre obtain zs where "ls_sent s = ls_got s @ t # zs" by (auto simp: prefix_def)
    with Some show ?thesis by simp
  qed
  with k show ?thesis by (intro exI [of _ k]) (simp add: Let_def)
qed

text \<open>A second put has stopped just before its swap when the consumer comes.\<close>

definition half_put :: "nat link_act list" where
  "half_put = CallPut 0 7 # map Go [0, 0, 0, 0, 0, 0, 0, 0] @ CallPut 0 8 # map Go [0, 0, 0, 0]"

lemma half_put_outcome:
  assumes "length B = 1024" "B ! 1023 = 0" "B ! 1022 = 0"
  shows "\<exists>q. fold (link_exec {1} False) half_put (link_start 2 (empty_queue B)) =
    \<lparr>ls_q = q, ls_pcs = [LSwap 2 8, LIdle], ls_put = [7, 8], ls_sent = [7], ls_claimed = [], ls_got = []\<rparr>"
  using assms by (simp add: half_put_def link_runs numeral_2_eq_2)

theorem link_threads_get_returns_witness:
  "\<exists>s s' :: nat link_system. (link_step {1} False)\<^sup>*\<^sup>* s s' \<and> ls_pcs s = [LSwap 2 8, LIdle] \<and> ls_got s = [] \<and>
     ls_pcs s' = [LSwap 2 8, LIdle] \<and> ls_got s' = [7]"
proof -
  let ?s = "\<lambda>q. \<lparr>ls_q = q, ls_pcs = [LSwap 2 8, LIdle], ls_put = [7, 8], ls_sent = [7], ls_claimed = [], ls_got = []\<rparr>
    :: nat link_system"
  obtain q where q: "fold (link_exec {1} False) half_put (link_start 2 (lq_new [])) = ?s q"
    using half_put_outcome [of "replicate 1024 0"] by (auto simp: lq_new_empty simp del: replicate.simps)
  have run: "(link_step {1} False)\<^sup>*\<^sup>* (link_start 2 (lq_new [])) (?s q)"
    unfolding q [symmetric] by (rule link_exec_run)
  obtain k where k: "let s' = fold (link_exec {1} False) (CallGet 1 # replicate k (Go 1)) (?s q)
      in ls_pcs s' = ls_pcs (?s q) \<and> ls_got s' = ls_got (?s q) @ take 1 (drop (length (ls_got (?s q))) (ls_sent (?s q)))"
    using link_threads_get_returns [OF run] by auto
  let ?t = "fold (link_exec {1} False) (CallGet 1 # replicate k (Go 1)) (?s q)"
  have "(link_step {1} False)\<^sup>*\<^sup>* (?s q) ?t" by (rule link_exec_run)
  moreover have "ls_pcs ?t = [LSwap 2 8, LIdle]" "ls_got ?t = [7]" using k by (simp_all add: Let_def del: fold_simps)
  ultimately show ?thesis by (intro exI [of _ "?s q"] exI [of _ ?t]) simp
qed

end
