(* ===== verification/Spec2Isabelle.thy ===== *)
theory Spec2Isabelle
  imports Byte_Codec Timespec Wakeup Net_Ids Bridge_Delivery Alloc_Mutex Channel Raw_Owners Ring_Memory Ring_Threads Link_Liveness
begin

text \<open>
  A verification development for \<open>water.rs\<close>: message passing between threads of a process, and
  between processes over TCP bridges (all sources are under \<open>src/src/\<close>).

  \<^bold>\<open>The program.\<close> A \<open>Net\<close> is a group of endpoints. An \<open>Endpoint\<close> is a shared object with a queue of
  messages, limits, an address (system id, endpoint id, group id), a condition variable for threads
  that wait for a message, and a count of its handles. A message is raw (a shared byte buffer, which
  can cross a bridge), sync (a value that only the first receiver gets) or clone (a value that every
  receiver gets a copy of). Sending gives the message to every endpoint of the net; each endpoint
  decides by address and limits whether to queue it. A bridge is an endpoint with a receiving
  thread (frames of the stream are put on the net) and a sending thread (raw messages queued on the
  endpoint are written to the stream); listeners and connectors create bridges.

  \<^bold>\<open>How state is modelled.\<close> Shared objects live in stores indexed by addresses: buffers and sync flags
  (\<open>heap\<close>), endpoints and nets (\<open>world\<close>), listeners and connectors (\<open>bworld\<close>), queue items
  (\<open>lq_mem\<close>). An \<open>Arc\<close> handle is an address, so aliasing is equality of addresses. An operation is a
  function of type \<open>oper\<close> from the state to a result and the new state; the result is a value or a
  \<open>failure\<close>: a panic of the source, a lock that was poisoned by one, a thread that waits for its own
  lock, or an access outside an allocation. Integers are words of their width. What other threads
  do comes in as data (the events of a blocking receive, the interference between the rounds of a
  thread), or as an inductive step relation over the interleaved steps.

  \<^bold>\<open>Theories.\<close>
  \<^item> \<open>Water_Prelude\<close>: results and failures, mutexes with poisoning, byte buffers and memory copies,
    the locale \<open>step_system\<close> (invariants of runs).
  \<^item> \<open>Byte_Codec\<close>: fixed-width integers as bytes in both byte orders; the locale \<open>byte_codec\<close> and its
    instances for 8, 16, 32 and 64 bits.
  \<^item> \<open>Timespec\<close> (\<open>timespec.rs\<close>): \<open>add\<close>, \<open>sub\<close>, \<open>unitize\<close> with their rounding and wrap-around, and the
    order on times as an instance of \<open>linorder\<close>.
  \<^item> \<open>Raw_Message\<close> (\<open>rawmessage.rs\<close>): the buffer and all its accessors. The locale \<open>buffer_op\<close> says
    what every operation on a locked buffer keeps; it is interpreted for each operation. Shown: every
    buffer stays well-formed, memory safety and its two exceptions, each outcome of writing,
    resizing, duplicating, round trips, poisoning.
  \<^item> \<open>Raw_Owners\<close> (\<open>rawmessage.rs\<close>): the handles of buffers, the count of each and the blocks of the
    allocator. Shown: a block lives exactly as long as a handle, and is freed once with its size; a
    slice is good until a resize through another handle frees the block under it.
  \<^item> \<open>Message\<close> (\<open>message.rs\<close>, \<open>syncmessage.rs\<close>, \<open>clonemessage.rs\<close>): typed and raw payloads. A value of a
    Rust type is its memory representation; the type is an id and a size (\<open>rtype\<close>). Shown: a typed
    message gives back its value at its own type and refuses others.
  \<^item> \<open>Safe_Queue\<close> (\<open>SafeQueue\<close> of \<open>queue.rs\<close>): the queue of the endpoints, and the interface of queues:
    the locales \<open>bounded_fifo\<close> and \<open>fifo\<close> (with a \<open>sublocale\<close> between them), against the list queue.
  \<^item> \<open>Pointer_Cache\<close> (\<open>PointerCache\<close> of \<open>queue.rs\<close>): the ring of recycled pointers. Shown: it is a
    bounded stack, and frees each pointer once. The locale \<open>recycler\<close> is what the linked queue needs.
  \<^item> \<open>Ring_Queue\<close> (\<open>SizedRingQueue\<close>): first-in first-out if used within its bounds (an instance of
    \<open>bounded_fifo\<close>), what happens otherwise, and the blocking get. \<open>Ring_Memory\<close>: the addresses of its
    items and of the cache's pointers lie in their blocks and do not overlap; drop frees what \<open>new\<close>
    allocated.
  \<^item> \<open>Ring_Threads\<close>: the atomic accesses of many threads to the ring queue as the step relation
    \<open>ring_step\<close>; nothing is lost or received twice as long as each put finds its slot free. The accesses
    of a put, made by one thread, are \<open>rq_put\<close> (\<open>ring_put_steps\<close>).
  \<^item> \<open>Link_Queue\<close> (\<open>InfiniteLinkQueue\<close>): the doubly linked list with its memory. Shown: refinement of
    the list queue (an instance of \<open>fifo\<close>) without touching freed memory, no leak at drop, and the
    growth of the memory while the queue is never read empty.
  \<^item> \<open>Link_Threads\<close>: the atomic accesses of many threads to the linked queue (\<open>put_do\<close>, \<open>get_do\<close>) and
    their interleaving, the step relation \<open>link_step\<close>. \<open>Link_Alone\<close>: the accesses of one thread alone
    all come to an end, are \<open>lq_put\<close> and \<open>lq_get\<close>, and answer as the list queue does.
    \<open>Link_Race\<close>: runs under a schedule, and one with two consumers that receives a value twice and
    loses another. \<open>Link_Invariant\<close>, \<open>Link_Changes\<close>, \<open>Link_Steps\<close>: where
    each item is (in the list, in the cache, with a thread) as ghost state, the invariant, what a
    thread may rely on of the others (\<open>rely\<close>), and that every access keeps both. \<open>Link_Safety\<close>: with
    one consumer every interleaving is safe, and with many if a release starts only while no other
    get holds a pointer to an item (the parameter \<open>calm\<close> of \<open>link_step\<close>). \<open>Link_Liveness\<close>: a get of
    the one consumer returns the next value if no put stopped between its swap and its link; by the
    number of items still to be released, then of claimed items still to be passed, it ends.
  \<^item> \<open>Endpoint\<close> (\<open>endpoint.rs\<close>): \<open>give\<close>, the four ways to receive, limits, accounting. Shown: the
    outcome of \<open>give\<close> and \<open>recv\<close> on every branch, the memory account and the pending limit as
    invariants of runs (\<open>ep_run\<close>), the blocking receives as functions of what happens at each wait.
  \<^item> \<open>Wakeup\<close>: the interleaving of givers and sleeping receivers as the step relation \<open>wake_step\<close>; no
    wake-up is lost.
  \<^item> \<open>Net\<close> (\<open>net.rs\<close>): handles, creating, cloning and dropping endpoints, sending, the sleeper thread.
  \<^item> \<open>Delivery\<close>: sending refines an update of the receivers' queues; programs as lists of calls; a
    sync message is received once; a raw message is not shared.
  \<^item> \<open>Lifetime\<close>: the interleaved steps of clones, drops and sends as \<open>life_step\<close>; the reference count
    keeps an endpoint on its net exactly as long as needed, and removing it never deadlocks.
  \<^item> \<open>Net_Ids\<close>: the ids a net hands out are fresh, when they are; the latency of the sleeper thread.
  \<^item> \<open>Tcp\<close> (\<open>tcp/mod.rs\<close>): the frames on the stream, the receiving loop and the sending loop. Shown:
    the round trip, every outcome for any stream, and that broadcasts come back.
  \<^item> \<open>Bridge\<close> (\<open>tcp/listener.rs\<close>, \<open>tcp/connector.rs\<close>): listeners, connectors and their threads; how they
    terminate and what an accepted connection creates. \<open>Bridge_Delivery\<close>: the sending thread, the stream,
    the receiving thread and the delivery on its net put together.

  \<^item> \<open>Channel\<close> (\<open>compat.rs\<close>): sender and receiver proxies over the two endpoints of a net. Shown: the
    channel is the list of values of its type in the receiver's queue (\<open>items\<close>), whatever else is in
    there, and each side learns that the other is gone; where it differs from a native channel.
  \<^item> \<open>Alloc_Mutex\<close> (\<open>allocmutex.rs\<close>): a mutex around a boxed value; its references are good exactly until
    \<open>free\<close>, and are not protected by the lock.

  \<^bold>\<open>Bounds and fuel.\<close> Blocking operations take the list of what happens at each of their waits and
  are \<open>None\<close> if they still wait when it is over, so what is proved of them is for every list; the
  receives of a channel need one round more than there are messages queued. The
  threads of bridges and nets take the list of their rounds in the same way. The receive loops and
  the stream loops end by a measure (the queue, the rest of the stream). The pointer loops of the
  linked queue are partial functions; they are proved to return. The only other bounds are the
  preconditions of the code: sizes below \<open>2 ^ 63\<close> or \<open>2 ^ 64\<close> bytes, shifts below 64 bits, and fewer than
  \<open>2 ^ 63\<close> handles.

  \<^bold>\<open>Not modelled.\<close> Sockets, threads and clocks (parameters of the operations that use them);
  deallocation of endpoints and nets (their stores only grow, so nothing depends on it; that of
  buffers is in \<open>Raw_Owners\<close>);
  weak memory orders (the accesses of several threads to the queues take effect in one order, and
  the copy of a payload at once); dropping a linked queue while threads are inside; debugging output (\<open>dbg\<close>, the printed ids). \<open>compat.rs\<close> and
  \<open>allocmutex.rs\<close> are not part of the crate: \<open>lib.rs\<close> has the first commented out and does not name the
  second. Both are modelled all the same, without the poisoning of the mutex in the second.
\<close>

end
